(* ===== verification/Prelude.thy ===== *)
theory Prelude
  imports Main
begin

text \<open>
  Shared vocabulary of the development: how a call into user code may end, how an operation
  of the crate may end, sequencing of operations, and the lemmas on association lists that
  the theories about the waiter list use.
\<close>

section \<open>How calls end\<close>

text \<open>
  User code (\<open>SemaphoreState::acquire\<close>, \<open>release\<close>, an \<open>Order\<close>, a \<open>with_state\<close> closure, a
  waker) either returns or panics. A panic unwinds after the callee may have changed the data it
  was given a \<open>&mut\<close> reference to, so both constructors carry that data.
\<close>

datatype (call_st: 's, call_val: 'r) call = Returns 's 'r | Panics 's

text \<open>What a call of \<open>acquire\<close> can do.\<close>

lemma attempt_cases:
  fixes x :: "('s, 'p + 'a) call"
  obtains (panic) s where "x = Panics s"
    | (refuse) s p where "x = Returns s (Inl p)"
    | (grant) s a where "x = Returns s (Inr a)"
  by (metis call.exhaust sum.exhaust)

text \<open>
  An operation of the crate returns, unwinds (its own \<open>panic!\<close> or \<open>expect\<close>, or a panic of user
  code passing through), aborts the process (a second panic while a first one unwinds through a
  destructor), or reaches code that the source declares unreachable with
  \<open>unreachable_unchecked\<close> or whose \<open>unsafe\<close> precondition does not hold: undefined behaviour.
\<close>

datatype ('q, 'r) exec = Ret 'q 'r | Unwind 'q | Abort | UB

text \<open>What a poll returns.\<close>

datatype 'r poll = Pending | Ready 'r

text \<open>The data a finished or unwound operation leaves behind satisfies a predicate, and the
  operation is not undefined behaviour.\<close>

fun exec_all :: "('q \<Rightarrow> bool) \<Rightarrow> ('q, 'r) exec \<Rightarrow> bool" where
  "exec_all P (Ret q r) = P q"
| "exec_all P (Unwind q) = P q"
| "exec_all P Abort = True"
| "exec_all P UB = False"

lemma exec_all_not_UB: "exec_all P x \<Longrightarrow> x \<noteq> UB"
  by auto

lemma exec_all_mono: "exec_all P x \<Longrightarrow> (\<And>q. P q \<Longrightarrow> Q q) \<Longrightarrow> exec_all Q x"
  by (cases x) auto

lemma exec_all_RetD: "exec_all P x \<Longrightarrow> x = Ret q r \<Longrightarrow> P q"
  by simp

lemma exec_all_UnwindD: "exec_all P x \<Longrightarrow> x = Unwind q \<Longrightarrow> P q"
  by simp

section \<open>Waiter identities and association lists\<close>

text \<open>A node of the intrusive list lives in one pinned future; its identity is a number.\<close>

type_synonym nid = nat

definition head_id :: "(nid \<times> 'd) list \<Rightarrow> nid option" where
  "head_id xs = (case xs of [] \<Rightarrow> None | x # _ \<Rightarrow> Some (fst x))"

definition delete_id :: "nid \<Rightarrow> (nid \<times> 'd) list \<Rightarrow> (nid \<times> 'd) list" where
  "delete_id n xs = filter (\<lambda>x. fst x \<noteq> n) xs"

abbreviation ids :: "(nid \<times> 'd) list \<Rightarrow> nid set" where
  "ids xs \<equiv> fst ` set xs"

lemma head_id_simps [simp]: "head_id [] = None" "head_id ((n, d) # xs) = Some n"
  by (simp_all add: head_id_def)

lemma ids_delete [simp]: "ids (delete_id n xs) = ids xs - {n}"
  by (auto simp: delete_id_def)

lemma delete_id_fresh: "n \<notin> ids xs \<Longrightarrow> delete_id n xs = xs"
  by (auto simp: delete_id_def intro!: filter_True)

lemma delete_id_mid:
  "distinct (map fst (xs @ (n, d) # ys)) \<Longrightarrow> delete_id n (xs @ (n, d) # ys) = xs @ ys"
  by (simp add: delete_id_def) (metis (mono_tags, lifting) filter_True imageI)

lemma delete_id_distinct: "distinct (map fst xs) \<Longrightarrow> distinct (map fst (delete_id n xs))"
  by (simp add: delete_id_def distinct_map_filter)

lemma ids_split:
  assumes "n \<in> ids xs"
  obtains ys d zs where "xs = ys @ (n, d) # zs"
  using assms by (auto dest!: split_list)

lemma map_of_ids: "map_of xs n = None \<longleftrightarrow> n \<notin> ids xs"
  by (simp add: map_of_eq_None_iff)

lemma map_of_mid:
  "distinct (map fst (xs @ (n, d) # ys)) \<Longrightarrow> map_of (xs @ (n, d) # ys) n = Some d"
  by (rule map_of_is_SomeI) auto

lemma length_delete_id:
  assumes "distinct (map fst xs)" and "n \<in> ids xs"
  shows "length xs = Suc (length (delete_id n xs))"
  using assms(2)
proof (rule ids_split)
  fix ys d zs
  assume "xs = ys @ (n, d) # zs"
  with assms(1) show ?thesis
    by (simp add: delete_id_mid del: map_append)
qed

section \<open>Sums over maps\<close>

definition sum_over :: "('v \<Rightarrow> 'b::comm_monoid_add) \<Rightarrow> ('k \<Rightarrow> 'v option) \<Rightarrow> 'b" where
  "sum_over f m = (\<Sum>k\<in>dom m. f (the (m k)))"

lemma sum_over_empty [simp]: "sum_over f Map.empty = 0"
  by (simp add: sum_over_def)

lemma sum_over_put:
  assumes "finite (dom m)"
  shows "sum_over f (m(k \<mapsto> v)) = f v + sum_over f (m(k := None))"
proof -
  have "(\<Sum>j\<in>dom m - {k}. f (the ((m(k \<mapsto> v)) j))) = (\<Sum>j\<in>dom m - {k}. f (the ((m(k := None)) j)))"
    by (rule sum.cong) auto
  then show ?thesis using assms by (simp add: sum_over_def sum.insert_remove)
qed

lemma sum_over_at: "finite (dom m) \<Longrightarrow> m k = Some v \<Longrightarrow> sum_over f m = f v + sum_over f (m(k := None))"
  using sum_over_put [of m f k v] by (simp add: map_upd_triv)

end
