(* ===== verification/Sem_State.thy ===== *)
theory Sem_State
  imports Prelude
begin

text \<open>
  The trait \<open>SemaphoreState\<close> of flag-bearer-core: the two operations a semaphore's state
  provides. The state type \<open>'s\<close>, the request type \<open>Params = 'p\<close> and the permit type
  \<open>Permit = 'a\<close> are the type parameters; \<open>Result<Permit, Params>\<close> is \<open>'p + 'a\<close>
  with \<open>Inl\<close> for \<open>Err\<close>.
\<close>

record ('s, 'p, 'a) semaphore_state =
  acquire :: "'s \<Rightarrow> 'p \<Rightarrow> ('s, 'p + 'a) call"
  release :: "'s \<Rightarrow> 'a \<Rightarrow> ('s, unit) call"

text \<open>
  What the documentation of the trait asks of an implementation, and what fair queueing needs
  beyond it: \<open>acquire\<close> does not panic; a refusal hands the original params back and changes nothing;
  a grant never makes a refused request grantable.
\<close>

locale lawful_state =
  fixes S :: "('s, 'p, 'a) semaphore_state"
  assumes acquire_returns: "acquire S s p \<noteq> Panics s'"
    and refusal: "acquire S s p = Returns s' (Inl p') \<Longrightarrow> s' = s \<and> p' = p"
    and grant_keeps_refusal: "acquire S s p = Returns s' (Inr a) \<Longrightarrow>
      acquire S s q = Returns s (Inl q) \<Longrightarrow> acquire S s' q = Returns s' (Inl q)"

text \<open>A state in which some quantity, its \<open>units\<close>, is handed out, a permit being worth its \<open>cost\<close>. For a state
  that counts what is taken instead of what is left the units are negative.\<close>

locale measured_state =
  fixes S :: "('s, 'p, 'a) semaphore_state"
    and units :: "'s \<Rightarrow> int"
    and cost :: "'a \<Rightarrow> int"
  assumes grant_units: "acquire S s p = Returns s' (Inr a) \<Longrightarrow> units s = units s' + cost a"
    and refuse_units: "acquire S s p = Returns s' (Inl p') \<Longrightarrow> units s' = units s"
    and release_units: "release S s a = Returns s' u \<Longrightarrow> units s' = units s + cost a"

text \<open>Of which there is room for \<open>cap\<close>: a release that fits does not panic.\<close>

locale budget_state = lawful_state S + measured_state S units cost
  for S :: "('s, 'p, 'a) semaphore_state" and units and cost +
  fixes cap :: int
  assumes cost_nonneg: "0 \<le> cost a"
    and release_fits: "units s + cost a \<le> cap \<Longrightarrow> \<exists>s'. release S s a = Returns s' ()"

text \<open>The example loop of the trait's documentation, for a thread alone with the state: try until a
  permit comes; between two tries \<open>sleep\<close> stands for what others do to the state.\<close>

partial_function (option) get_permit ::
  "('s, 'p, 'a) semaphore_state \<Rightarrow> ('s \<Rightarrow> 's) \<Rightarrow> 's \<Rightarrow> 'p \<Rightarrow> ('s, 'a) call option" where
  "get_permit S sleep s p =
    (case acquire S s p of
      Panics s' \<Rightarrow> Some (Panics s')
    | Returns s' res \<Rightarrow>
      (case res of
        Inr permit \<Rightarrow> Some (Returns s' permit)
      | Inl p' \<Rightarrow> get_permit S sleep (sleep s') p'))"

definition return_permit :: "('s, 'p, 'a) semaphore_state \<Rightarrow> 's \<Rightarrow> 'a \<Rightarrow> ('s, unit) call" where
  "return_permit S s permit = release S s permit"

end
