(* ===== verification/Float64.thy ===== *)
theory Float64
  imports Complex_Main "HOL-Library.Log_Nat"
begin

text \<open>
  The \<open>f64\<close> arithmetic of the example \<open>aimd\<close>, on finite numbers: a value is the rational number it stands
  for, and an operation rounds the exact result. What the example needs of the rounding is the interface
  \<open>f64_rounding\<close>; its instance is rounding to 53 significant bits, ties to even. The exponent
  is not bounded: overflow to infinity and gradual underflow do not occur for the values of the
  example, and neither do NaNs.
\<close>

section \<open>The interface\<close>

locale f64_rounding =
  fixes rnd :: "rat \<Rightarrow> rat"
  assumes rnd_mono: "x \<le> y \<Longrightarrow> rnd x \<le> rnd y"
    and rnd_idem: "rnd (rnd x) = rnd x"

text \<open>The numbers that are \<open>f64\<close> values.\<close>

definition f64_value :: "(rat \<Rightarrow> rat) \<Rightarrow> rat \<Rightarrow> bool" where
  "f64_value rnd x \<longleftrightarrow> rnd x = x"

section \<open>Rounding to the nearest integer\<close>

definition half_even :: "rat \<Rightarrow> int" where
  "half_even x = (let k = \<lfloor>x\<rfloor>; d = x - of_int k
     in if d < 1 / 2 \<or> d = 1 / 2 \<and> even k then k else k + 1)"

lemma half_even_int [simp]: "half_even (of_int k) = k"
  by (simp add: half_even_def)

lemma half_even_bounds: "\<lfloor>x\<rfloor> \<le> half_even x" "half_even x \<le> \<lfloor>x\<rfloor> + 1"
  by (simp_all add: half_even_def Let_def)

lemma half_even_mono: "x \<le> y \<Longrightarrow> half_even x \<le> half_even y"
proof -
  assume xy: "x \<le> y"
  then consider "\<lfloor>x\<rfloor> = \<lfloor>y\<rfloor>" | "\<lfloor>x\<rfloor> + 1 \<le> \<lfloor>y\<rfloor>"
    using floor_mono [OF xy] by linarith
  then show ?thesis
  proof cases
    case 1
    with xy show ?thesis by (auto simp: half_even_def Let_def)
  next
    case 2
    with half_even_bounds [of x] half_even_bounds [of y] show ?thesis by linarith
  qed
qed

lemma half_even_between:
  assumes "of_int a \<le> x" and "x \<le> of_int b"
  shows "a \<le> half_even x \<and> half_even x \<le> b"
  using half_even_mono [OF assms(1)] half_even_mono [OF assms(2)] by simp

section \<open>The binary exponent\<close>

text \<open>\<open>2 powi exponent x \<le> x < 2 powi (exponent x + 1)\<close>, from the lengths of numerator and denominator.\<close>

definition exponent :: "rat \<Rightarrow> int" where
  "exponent x = (let (n, d) = quotient_of x; e = bitlen n - bitlen d
     in if 2 powi e \<le> x then e else e - 1)"

lemma bitlen_powi:
  assumes "0 < n"
  shows "2 powi (bitlen n - 1) \<le> (of_int n :: rat)" and "(of_int n :: rat) < 2 powi bitlen n"
proof -
  have b: "0 < bitlen n" "2 ^ nat (bitlen n - 1) \<le> n" "n < 2 ^ nat (bitlen n)"
    using assms bitlen_bounds [OF assms] by (simp_all add: bitlen_alt_def add_pos_nonneg)
  have "(2 :: rat) powi (bitlen n - 1) = of_int (2 ^ nat (bitlen n - 1))" "(2 :: rat) powi bitlen n = of_int (2 ^ nat (bitlen n))"
    using b(1) by (simp_all add: power_int_def)
  with b(2,3) show "2 powi (bitlen n - 1) \<le> (of_int n :: rat)" "(of_int n :: rat) < 2 powi bitlen n"
    by (simp_all only: of_int_le_iff of_int_less_iff)
qed

lemma exponent_bounds:
  assumes "0 < x"
  shows "2 powi exponent x \<le> x" and "x < 2 powi (exponent x + 1)"
proof -
  obtain n d where q: "quotient_of x = (n, d)" by (cases "quotient_of x")
  have d: "0 < d" and x: "x = of_int n / of_int d"
    using quotient_of_denom_pos [OF q] quotient_of_div [OF q] by simp_all
  have n: "0 < n" using assms d x by (simp add: zero_less_divide_iff)
  let ?e = "bitlen n - bitlen d"
  have pos: "(0 :: rat) < 2 powi k" for k by simp
  have "2 powi (?e - 1) = (2 powi (bitlen n - 1) :: rat) / 2 powi bitlen d"
    by (simp flip: power_int_diff add: algebra_simps)
  also have "\<dots> \<le> x"
    unfolding x using bitlen_powi [OF n] bitlen_powi [OF d] d n by (intro frac_le) auto
  finally have low: "2 powi (?e - 1) \<le> x" .
  have "x < (2 powi bitlen n :: rat) / 2 powi (bitlen d - 1)"
    unfolding x using bitlen_powi [OF n] bitlen_powi [OF d] d n by (intro frac_less) auto
  also have "\<dots> = 2 powi (?e + 1)"
    by (simp flip: power_int_diff add: algebra_simps)
  finally have up: "x < 2 powi (?e + 1)" .
  show "2 powi exponent x \<le> x" and "x < 2 powi (exponent x + 1)"
    using low up by (auto simp: exponent_def q Let_def)
qed

lemma powi_le: "i \<le> j \<Longrightarrow> (2 :: rat) powi i \<le> 2 powi j"
  by (cases "i = j") (simp_all add: less_imp_le power_int_strict_increasing)

lemma powi_less: "(2 :: rat) powi i < 2 powi j \<longleftrightarrow> i < j"
  using powi_le [of j i] by (auto simp: power_int_strict_increasing not_less [symmetric])

lemma exponent_unique:
  assumes "2 powi e \<le> x" and "x < 2 powi (e + 1)"
  shows "exponent x = e"
proof -
  have "0 < x" using assms(1) by (rule less_le_trans [rotated]) simp
  note b = exponent_bounds [OF this]
  have "(2 :: rat) powi exponent x < 2 powi (e + 1)" "(2 :: rat) powi e < 2 powi (exponent x + 1)"
    using b assms by (auto intro: le_less_trans)
  then show ?thesis by (simp add: powi_less)
qed

lemma exponent_mono: "0 < x \<Longrightarrow> x \<le> y \<Longrightarrow> exponent x \<le> exponent y"
proof -
  assume "0 < x" "x \<le> y"
  then have "(2 :: rat) powi exponent x < 2 powi (exponent y + 1)"
    using exponent_bounds(1) [of x] exponent_bounds(2) [of y] by linarith
  then show ?thesis by (simp add: powi_less)
qed

section \<open>Rounding to 53 bits\<close>

text \<open>The distance of neighbouring values, and the rounding of a positive number.\<close>

definition ulp :: "rat \<Rightarrow> rat" where
  "ulp x = 2 powi (exponent x - 52)"

definition round_pos :: "rat \<Rightarrow> rat" where
  "round_pos x = of_int (half_even (x / ulp x)) * ulp x"

definition round53 :: "rat \<Rightarrow> rat" where
  "round53 x = (if x = 0 then 0 else if 0 < x then round_pos x else - round_pos (- x))"

lemma ulp_pos [simp]: "0 < ulp x"
  by (simp add: ulp_def)

lemma ulp_scale: "of_int (2 ^ 52) * ulp x = 2 powi exponent x" "of_int (2 ^ 53) * ulp x = 2 powi (exponent x + 1)"
  using power_int_add [of "2 :: rat" 52 "exponent x - 52"] power_int_add [of "2 :: rat" 53 "exponent x - 52"]
  by (simp_all add: ulp_def add.commute)

lemma mantissa_bounds:
  assumes "0 < x"
  shows "2 ^ 52 \<le> half_even (x / ulp x)" and "half_even (x / ulp x) \<le> 2 ^ 53"
proof -
  have "of_int (2 ^ 52) \<le> x / ulp x" "x / ulp x \<le> of_int (2 ^ 53)"
    using exponent_bounds [OF assms] ulp_scale [of x] by (simp_all only: pos_le_divide_eq pos_divide_le_eq ulp_pos)
  from half_even_between [OF this]
  show "2 ^ 52 \<le> half_even (x / ulp x)" and "half_even (x / ulp x) \<le> 2 ^ 53" by simp_all
qed

lemma round_pos_bounds:
  assumes "0 < x"
  shows "2 powi exponent x \<le> round_pos x" and "round_pos x \<le> 2 powi (exponent x + 1)"
  unfolding round_pos_def ulp_scale [symmetric]
  using mantissa_bounds [OF assms] by (simp_all only: mult_le_cancel_right_pos ulp_pos of_int_le_iff)

lemma round_pos_pos: "0 < x \<Longrightarrow> 0 < round_pos x"
  using round_pos_bounds(1) [of x] by (rule less_le_trans [rotated]) simp_all

lemma round_pos_mono:
  assumes "0 < x" and "x \<le> y"
  shows "round_pos x \<le> round_pos y"
proof (cases "exponent x = exponent y")
  case True
  then have "ulp x = ulp y" by (simp add: ulp_def)
  moreover have "x / ulp y \<le> y / ulp y" using assms(2) by (simp add: divide_right_mono less_imp_le)
  ultimately show ?thesis
    unfolding round_pos_def by (simp add: mult_right_mono half_even_mono less_imp_le)
next
  case False
  with exponent_mono [OF assms] have "exponent x + 1 \<le> exponent y" by simp
  then have "(2 :: rat) powi (exponent x + 1) \<le> 2 powi exponent y" by (rule powi_le)
  with round_pos_bounds(2) [OF assms(1)] round_pos_bounds(1) [of y] assms show ?thesis by linarith
qed

lemma round_pos_idem:
  assumes "0 < x"
  shows "round_pos (round_pos x) = round_pos x"
proof (cases "half_even (x / ulp x) < 2 ^ 53")
  case True
  then have "round_pos x < 2 powi (exponent x + 1)"
    unfolding round_pos_def ulp_scale [symmetric] by (simp only: mult_less_cancel_right_pos ulp_pos of_int_less_iff)
  then have "exponent (round_pos x) = exponent x"
    by (rule exponent_unique [OF round_pos_bounds(1) [OF assms]])
  then have "ulp (round_pos x) = ulp x" by (simp add: ulp_def)
  then show ?thesis by (simp add: round_pos_def [of "round_pos x"]) (simp add: round_pos_def)
next
  case False
  with mantissa_bounds(2) [OF assms] have "half_even (x / ulp x) = 2 ^ 53" by simp
  then have y: "round_pos x = 2 powi (exponent x + 1)"
    using ulp_scale(2) [of x] by (simp add: round_pos_def)
  then have "exponent (round_pos x) = exponent x + 1"
    by (intro exponent_unique) (simp_all add: powi_less)
  with y ulp_scale(1) [of "round_pos x"] have "round_pos x = of_int (2 ^ 52) * ulp (round_pos x)" by simp
  then have "round_pos x / ulp (round_pos x) = of_int (2 ^ 52)"
    using ulp_pos [of "round_pos x"] by (metis nonzero_mult_div_cancel_right order_less_irrefl)
  then have "half_even (round_pos x / ulp (round_pos x)) = 2 ^ 52" by (simp only: half_even_int)
  with \<open>round_pos x = of_int (2 ^ 52) * ulp (round_pos x)\<close> show ?thesis
    by (simp only: round_pos_def [of "round_pos x"])
qed

interpretation f64: f64_rounding round53
proof
  fix x y :: rat
  assume "x \<le> y"
  then show "round53 x \<le> round53 y"
    using round_pos_mono [of x y] round_pos_mono [of "- y" "- x"] round_pos_pos [of y] round_pos_pos [of "- x"]
    by (auto simp: round53_def)
next
  show "round53 (round53 x) = round53 x" for x
    using round_pos_idem [of x] round_pos_idem [of "- x"] round_pos_pos [of x] round_pos_pos [of "- x"]
    by (auto simp: round53_def)
qed

text \<open>Numbers of at most 53 significant bits are values, so the constants of the example are.\<close>

lemma round_pos_exact:
  assumes "x = of_int k * 2 powi e" and "0 < k" and "k < 2 ^ 53"
  shows "round_pos x = x"
proof -
  have "x < of_int (2 ^ 53) * 2 powi e"
    unfolding assms(1) using assms(3) by (simp only: mult_less_cancel_right_pos of_int_less_iff zero_less_power_int zero_less_numeral)
  also have "\<dots> = 2 powi (e + 53)" using power_int_add [of "2 :: rat" 53 e] by (simp add: add.commute)
  finally have up: "x < 2 powi (e + 53)" .
  have x: "0 < x" using assms(1,2) by simp
  have "(2 :: rat) powi exponent x < 2 powi (e + 53)" using exponent_bounds(1) [OF x] up by (rule le_less_trans)
  then have "0 \<le> e + 52 - exponent x" by (simp add: powi_less)
  define j where "j = nat (e + 52 - exponent x)"
  with \<open>0 \<le> e + 52 - exponent x\<close> have "(2 :: rat) powi e = 2 powi (int j + (exponent x - 52))" by simp
  then have "2 powi e = 2 ^ j * ulp x" by (simp add: ulp_def power_int_add)
  with assms(1) have "x = of_int (k * 2 ^ j) * ulp x" by simp
  moreover from this have "x / ulp x = of_int (k * 2 ^ j)"
    using ulp_pos [of x] by (metis nonzero_mult_div_cancel_right order_less_irrefl)
  ultimately show ?thesis by (simp only: round_pos_def half_even_int)
qed

lemma round53_exact:
  assumes "x = of_int k * 2 powi e" and "\<bar>k\<bar> < 2 ^ 53"
  shows "round53 x = x"
proof -
  have p: "(0 :: rat) < 2 powi e" by simp
  consider "k = 0" | "0 < k" | "0 < - k" by linarith
  then show ?thesis
  proof cases
    case 3
    then have "x < 0" using assms(1) p by (simp add: mult_neg_pos)
    with round_pos_exact [of "- x" "- k" e] 3 assms show ?thesis by (simp add: round53_def)
  qed (use round_pos_exact [of x k e] assms in \<open>simp_all add: round53_def\<close>)
qed

end
