(* ===== verification/Aimd.thy ===== *)
theory Aimd
  imports Sem_State Float64 "HOL-Library.Word"
begin

text \<open>
  The example \<open>aimd\<close> of flag-bearer-examples: a concurrency limit that grows by one on every success and
  is halved on every failure. \<open>u32\<close> is a 32-bit word with overflow checks, \<open>f64\<close> a finite number of
  \<open>Float64\<close> with its rounding \<open>rnd\<close>.
\<close>

section \<open>The state\<close>

record aimd =
  aimd_in_flight :: "32 word"
  aimd_limit :: rat
  aimd_min :: rat
  aimd_max :: rat

text \<open>\<open>f64::from(self.in_flight)\<close> is exact.\<close>

definition f64_from :: "32 word \<Rightarrow> rat" where
  "f64_from x = of_int (uint x)"

definition aimd_acquire :: "aimd \<Rightarrow> unit \<Rightarrow> (aimd, unit + unit) call" where
  "aimd_acquire self _ =
    (if f64_from (aimd_in_flight self) < aimd_limit self
     then (if aimd_in_flight self = - 1 then Panics self
           else Returns (self\<lparr>aimd_in_flight := aimd_in_flight self + 1\<rparr>) (Inr ()))
     else Returns self (Inl ()))"

definition aimd_release :: "aimd \<Rightarrow> unit \<Rightarrow> (aimd, unit) call" where
  "aimd_release self _ =
    (if aimd_in_flight self = 0 then Panics self
     else Returns (self\<lparr>aimd_in_flight := aimd_in_flight self - 1\<rparr>) ())"

definition aimd_state :: "(aimd, unit, unit) semaphore_state" where
  "aimd_state = \<lparr>acquire = aimd_acquire, release = aimd_release\<rparr>"

section \<open>The control loop\<close>

definition on_success :: "(rat \<Rightarrow> rat) \<Rightarrow> aimd \<Rightarrow> aimd" where
  "on_success rnd self = self\<lparr>aimd_limit := min (rnd (aimd_limit self + 1)) (aimd_max self)\<rparr>"

definition on_failure :: "(rat \<Rightarrow> rat) \<Rightarrow> aimd \<Rightarrow> aimd" where
  "on_failure rnd self = self\<lparr>aimd_limit := max (rnd (aimd_limit self * (1 / 2))) (aimd_min self)\<rparr>"

text \<open>\<open>self.limit as u32\<close> truncates and saturates.\<close>

definition aimd_limit_u32 :: "aimd \<Rightarrow> 32 word" where
  "aimd_limit_u32 self = word_of_int (max 0 (min (2 ^ 32 - 1) \<lfloor>aimd_limit self\<rfloor>))"

text \<open>The downstream of the example, and what a task does with the answer.\<close>

definition downstream_call :: "32 word \<Rightarrow> unit + unit" where
  "downstream_call concurrency = (if concurrency \<le> 8 then Inr () else Inl ())"

definition feedback :: "(rat \<Rightarrow> rat) \<Rightarrow> unit + unit \<Rightarrow> aimd \<Rightarrow> aimd" where
  "feedback rnd result s = (case result of Inr _ \<Rightarrow> on_success rnd s | Inl _ \<Rightarrow> on_failure rnd s)"

definition aimd_start :: aimd where
  "aimd_start = \<lparr>aimd_in_flight = 0, aimd_limit = 4, aimd_min = 1, aimd_max = 50\<rparr>"

section \<open>What happens to the state\<close>

text \<open>Any interleaving of attempts, releases of permits that are held, and feedback of either kind.\<close>

inductive aimd_run :: "(rat \<Rightarrow> rat) \<Rightarrow> aimd \<Rightarrow> aimd \<Rightarrow> nat \<Rightarrow> bool" for rnd s0 where
  run_start: "aimd_run rnd s0 s0 0"
| run_admit: "aimd_run rnd s0 s held \<Longrightarrow> aimd_acquire s () = Returns s' (Inr ()) \<Longrightarrow> aimd_run rnd s0 s' (held + 1)"
| run_refuse: "aimd_run rnd s0 s held \<Longrightarrow> aimd_acquire s () = Returns s' (Inl ()) \<Longrightarrow> aimd_run rnd s0 s' held"
| run_finish: "aimd_run rnd s0 s (held + 1) \<Longrightarrow> aimd_release s () = Returns s' () \<Longrightarrow> aimd_run rnd s0 s' held"
| run_feedback: "aimd_run rnd s0 s held \<Longrightarrow> aimd_run rnd s0 (feedback rnd result s) held"

text \<open>The limit is a value between its bounds.\<close>

definition aimd_ok :: "(rat \<Rightarrow> rat) \<Rightarrow> aimd \<Rightarrow> bool" where
  "aimd_ok rnd s \<longleftrightarrow> f64_value rnd (aimd_limit s) \<and> f64_value rnd (aimd_min s) \<and> f64_value rnd (aimd_max s) \<and>
     0 \<le> aimd_min s \<and> aimd_min s \<le> aimd_limit s \<and> aimd_limit s \<le> aimd_max s"

lemma uint_max: "uint (- 1 :: 32 word) = 2 ^ 32 - 1"
  by (simp only: unsigned_minus_1_eq_mask mask_eq_exp_minus_1) simp

lemma uint_inc: "x \<noteq> - 1 \<Longrightarrow> uint (x + 1) = uint x + 1" for x :: "32 word"
proof -
  assume "x \<noteq> - 1"
  then have "uint x \<noteq> 2 ^ 32 - 1" unfolding uint_max [symmetric] by (simp only: word_uint_eq_iff not_False_eq_True)
  with uint_bounded [of x] show ?thesis by (simp add: uint_plus_if')
qed

lemma uint_dec: "x \<noteq> 0 \<Longrightarrow> uint (x - 1) = uint x - 1" for x :: "32 word"
proof -
  assume "x \<noteq> 0"
  then have "uint x \<noteq> 0" by (metis uint_0_iff)
  with uint_ge_0 [of x] have "1 \<le> uint x" by linarith
  then show ?thesis by (simp add: uint_sub_if')
qed

context f64_rounding
begin

lemma value_rnd: "f64_value rnd (rnd x)"
  by (simp add: f64_value_def rnd_idem)

lemma success_ok: "aimd_ok rnd s \<Longrightarrow> aimd_ok rnd (on_success rnd s) \<and> aimd_limit s \<le> aimd_limit (on_success rnd s)"
  using rnd_mono [of "aimd_limit s" "aimd_limit s + 1"] value_rnd [of "aimd_limit s + 1"]
  by (auto simp: aimd_ok_def on_success_def f64_value_def min_def)

lemma failure_ok: "aimd_ok rnd s \<Longrightarrow> aimd_ok rnd (on_failure rnd s) \<and> aimd_limit (on_failure rnd s) \<le> aimd_limit s"
  using rnd_mono [of "aimd_limit s * (1 / 2)" "aimd_limit s"] value_rnd [of "aimd_limit s * (1 / 2)"]
  by (auto simp: aimd_ok_def on_failure_def f64_value_def max_def)

lemma feedback_ok:
  "aimd_ok rnd s \<Longrightarrow> aimd_ok rnd (feedback rnd result s) \<and>
    aimd_max (feedback rnd result s) = aimd_max s \<and> aimd_in_flight (feedback rnd result s) = aimd_in_flight s"
  using success_ok [of s] failure_ok [of s]
  by (cases result) (simp_all add: feedback_def on_success_def on_failure_def)

lemma run_inv:
  assumes "aimd_ok rnd s0" and "aimd_in_flight s0 = 0"
  shows "aimd_run rnd s0 s held \<Longrightarrow> aimd_ok rnd s \<and> aimd_max s = aimd_max s0 \<and>
    uint (aimd_in_flight s) = int held \<and> of_nat held < aimd_max s + 1"
proof (induction rule: aimd_run.induct)
  case run_start
  with assms show ?case by (simp add: aimd_ok_def)
next
  case (run_admit s held s')
  then have g: "f64_from (aimd_in_flight s) < aimd_limit s" "aimd_in_flight s \<noteq> - 1"
    "s' = s\<lparr>aimd_in_flight := aimd_in_flight s + 1\<rparr>"
    by (auto simp: aimd_acquire_def split: if_splits)
  with run_admit.IH show ?case
    by (auto simp: aimd_ok_def f64_from_def uint_inc)
next
  case (run_refuse s held s')
  then show ?case by (auto simp: aimd_acquire_def split: if_splits)
next
  case (run_finish s held s')
  then have "aimd_in_flight s \<noteq> 0" "s' = s\<lparr>aimd_in_flight := aimd_in_flight s - 1\<rparr>"
    by (auto simp: aimd_release_def split: if_splits)
  with run_finish.IH show ?case by (auto simp: aimd_ok_def uint_dec)
next
  case (run_feedback s held result)
  with feedback_ok [of s result] show ?case by simp
qed

end

section \<open>Property\<close>

text \<open>C39. The control law keeps its bounds: from a start whose limit lies between its bounds, whatever attempts,
  releases and feedback come in which order, the limit stays a value between \<open>min\<close> and \<open>max\<close>; a success
  never lowers it and a failure never raises it; the counter is the number of permits out and
  exceeds the upper bound by less than one; no attempt overflows it, and no release of a held permit
  underflows it.\<close>

theorem aimd_stays_in_bounds:
  assumes "f64_rounding rnd" and "aimd_ok rnd s0" and "aimd_in_flight s0 = 0" and "aimd_max s0 \<le> 2 ^ 32 - 1"
    and "aimd_run rnd s0 s held"
  shows "aimd_min s \<le> aimd_limit s \<and> aimd_limit s \<le> aimd_max s \<and> f64_value rnd (aimd_limit s) \<and>
    aimd_limit s \<le> aimd_limit (on_success rnd s) \<and> aimd_limit (on_failure rnd s) \<le> aimd_limit s \<and>
    uint (aimd_in_flight s) = int held \<and> of_nat held < aimd_max s + 1 \<and>
    (\<exists>s' r. acquire aimd_state s () = Returns s' r) \<and> (0 < held \<longrightarrow> (\<exists>s'. release aimd_state s () = Returns s' ()))"
proof -
  note inv = f64_rounding.run_inv [OF assms(1-3,5)]
  have "f64_from (- 1) = 2 ^ 32 - 1" by (simp add: f64_from_def uint_max)
  then have "\<not> (f64_from (aimd_in_flight s) < aimd_limit s \<and> aimd_in_flight s = - 1)"
    using inv assms(4) by (auto simp: aimd_ok_def)
  then have "\<exists>s' r. acquire aimd_state s () = Returns s' r" by (auto simp: aimd_state_def aimd_acquire_def)
  moreover have "aimd_in_flight s \<noteq> 0" if "0 < held" using inv that by auto
  ultimately show ?thesis
    using inv f64_rounding.success_ok [OF assms(1)] f64_rounding.failure_ok [OF assms(1)]
    by (auto simp: aimd_ok_def aimd_state_def aimd_release_def)
qed

theorem aimd_stays_in_bounds_witness:
  "aimd_run round53 aimd_start \<lparr>aimd_in_flight = 1, aimd_limit = 5, aimd_min = 1, aimd_max = 50\<rparr> 1 \<and>
    5 \<le> aimd_limit (on_success round53 \<lparr>aimd_in_flight = 1, aimd_limit = 5, aimd_min = 1, aimd_max = 50\<rparr>)"
proof -
  let ?s = "\<lparr>aimd_in_flight = 1, aimd_limit = 5, aimd_min = 1, aimd_max = 50\<rparr>"
  have v: "round53 1 = 1" "round53 4 = 4" "round53 5 = 5" "round53 50 = 50"
    using round53_exact [of 1 1 0] round53_exact [of 4 4 0] round53_exact [of 5 5 0] round53_exact [of 50 50 0]
    by simp_all
  have "aimd_acquire aimd_start () = Returns (aimd_start\<lparr>aimd_in_flight := 1\<rparr>) (Inr ())"
    by (simp add: aimd_acquire_def aimd_start_def f64_from_def)
  from run_feedback [OF run_admit [OF run_start this], of round53 "Inr ()"] v
  have run: "aimd_run round53 aimd_start ?s 1"
    by (simp add: feedback_def on_success_def aimd_start_def)
  have "aimd_ok round53 aimd_start" "aimd_in_flight aimd_start = 0" "aimd_max aimd_start \<le> 2 ^ 32 - 1"
    using v by (simp_all add: aimd_ok_def aimd_start_def f64_value_def)
  from aimd_stays_in_bounds [OF f64.f64_rounding_axioms this run] run show ?thesis by simp
qed

end
