(* ===== verification/Pin_List.thy ===== *)
theory Pin_List
  imports Prelude
begin

text \<open>
  The crate \<open>pin-list\<close> is a dependency, not part of this repository. The queue uses an
  intrusive list whose nodes live inside the futures. The operations it calls are the fields of
  the record below, over a type \<open>'m\<close> of the memory that holds the list and the nodes registered
  with it (nodes outlive the list, so they are one memory). What the queue relies on, from the
  documentation of that crate, is the locale \<open>pin_list_laws\<close>. A reference instance over plain
  lists shows the laws can hold and lets closed examples evaluate.
\<close>

section \<open>Interface\<close>

text \<open>What \<open>InitializedNode::reset\<close> hands back.\<close>

datatype ('d, 'r) node_data = Linked 'd | Removed 'r

text \<open>
  A cursor is at a node or, past either end, at the ghost position \<open>None\<close>. \<open>pl_cursor_store\<close> and
  \<open>pl_node_store\<close> are the writes the code makes through the \<open>&mut\<close> that \<open>protected_mut\<close> returns.
  \<open>pl_take_removed\<close> is the unsafe \<open>take_removed_unchecked\<close>: \<open>None\<close> says its safety
  precondition, that the node is in the removed state, does not hold.
\<close>

record ('m, 'd, 'r) pin_list_api =
  pl_new :: "'m"
  pl_is_empty :: "'m \<Rightarrow> bool"
  pl_push_front :: "'m \<Rightarrow> nid \<Rightarrow> 'd \<Rightarrow> 'm"
  pl_push_back :: "'m \<Rightarrow> nid \<Rightarrow> 'd \<Rightarrow> 'm"
  pl_cursor_front :: "'m \<Rightarrow> nid option"
  pl_cursor_protected :: "'m \<Rightarrow> nid option \<Rightarrow> 'd option"
  pl_cursor_store :: "'m \<Rightarrow> nid option \<Rightarrow> 'd \<Rightarrow> 'm"
  pl_move_next :: "'m \<Rightarrow> nid option \<Rightarrow> nid option"
  pl_remove_current :: "'m \<Rightarrow> nid option \<Rightarrow> 'r \<Rightarrow> 'r + ('d \<times> nid option \<times> 'm)"
  pl_remove_current_with_or :: "'m \<Rightarrow> nid option \<Rightarrow> ('d \<Rightarrow> 'r) \<Rightarrow> 'r \<Rightarrow> 'd option \<times> 'm"
  pl_initialized :: "'m \<Rightarrow> nid \<Rightarrow> bool"
  pl_node_protected :: "'m \<Rightarrow> nid \<Rightarrow> 'd option"
  pl_node_store :: "'m \<Rightarrow> nid \<Rightarrow> 'd \<Rightarrow> 'm"
  pl_unlink :: "'m \<Rightarrow> nid \<Rightarrow> ('d \<times> 'm) option"
  pl_reset :: "'m \<Rightarrow> nid \<Rightarrow> ('d, 'r) node_data \<times> 'm"
  pl_take_removed :: "'m \<Rightarrow> nid \<Rightarrow> ('r \<times> 'm) option"

text \<open>
  The documented behaviour, over an abstraction of the memory: \<open>links m\<close> is the list from front to
  back with each node's protected data, \<open>removed m\<close> the nodes that were removed and still hold
  their removed value; any other node is in its initial state.
\<close>

locale pin_list_laws =
  fixes pl :: "('m, 'd, 'r) pin_list_api"
    and ok :: "'m \<Rightarrow> bool"
    and links :: "'m \<Rightarrow> (nid \<times> 'd) list"
    and removed :: "'m \<Rightarrow> nid \<Rightarrow> 'r option"
  assumes new: "ok (pl_new pl)" "links (pl_new pl) = []" "removed (pl_new pl) = Map.empty"
    and links_distinct: "ok m \<Longrightarrow> distinct (map fst (links m))"
    and removed_not_linked: "ok m \<Longrightarrow> removed m n = Some r \<Longrightarrow> n \<notin> ids (links m)"
    and is_empty: "ok m \<Longrightarrow> pl_is_empty pl m \<longleftrightarrow> links m = []"
    and push_front: "ok m \<Longrightarrow> n \<notin> ids (links m) \<Longrightarrow> removed m n = None \<Longrightarrow>
      ok (pl_push_front pl m n d) \<and> links (pl_push_front pl m n d) = (n, d) # links m \<and>
      removed (pl_push_front pl m n d) = removed m"
    and push_back: "ok m \<Longrightarrow> n \<notin> ids (links m) \<Longrightarrow> removed m n = None \<Longrightarrow>
      ok (pl_push_back pl m n d) \<and> links (pl_push_back pl m n d) = links m @ [(n, d)] \<and>
      removed (pl_push_back pl m n d) = removed m"
    and cursor_front: "ok m \<Longrightarrow> pl_cursor_front pl m = head_id (links m)"
    and cursor_ghost: "ok m \<Longrightarrow> pl_cursor_protected pl m None = None"
    and cursor_protected: "ok m \<Longrightarrow> links m = xs @ (n, d) # ys \<Longrightarrow>
      pl_cursor_protected pl m (Some n) = Some d"
    and cursor_store: "ok m \<Longrightarrow> links m = xs @ (n, d) # ys \<Longrightarrow>
      ok (pl_cursor_store pl m (Some n) d') \<and>
      links (pl_cursor_store pl m (Some n) d') = xs @ (n, d') # ys \<and>
      removed (pl_cursor_store pl m (Some n) d') = removed m"
    and move_next: "ok m \<Longrightarrow> links m = xs @ (n, d) # ys \<Longrightarrow>
      pl_move_next pl m (Some n) = head_id ys"
    and remove_current: "ok m \<Longrightarrow> links m = xs @ (n, d) # ys \<Longrightarrow>
      \<exists>m'. pl_remove_current pl m (Some n) r = Inr (d, head_id ys, m') \<and>
        ok m' \<and> links m' = xs @ ys \<and> removed m' = (removed m)(n \<mapsto> r)"
    and remove_with: "ok m \<Longrightarrow> links m = xs @ (n, d) # ys \<Longrightarrow>
      \<exists>m'. pl_remove_current_with_or pl m (Some n) f e = (Some d, m') \<and>
        ok m' \<and> links m' = xs @ ys \<and> removed m' = (removed m)(n \<mapsto> f d)"
    and remove_with_ghost: "ok m \<Longrightarrow>
      \<exists>m'. pl_remove_current_with_or pl m None f e = (None, m') \<and>
        ok m' \<and> links m' = links m \<and> removed m' = removed m"
    and initialized: "ok m \<Longrightarrow>
      pl_initialized pl m n \<longleftrightarrow> n \<in> ids (links m) \<or> removed m n \<noteq> None"
    and node_protected: "ok m \<Longrightarrow> pl_node_protected pl m n = map_of (links m) n"
    and node_store: "ok m \<Longrightarrow> links m = xs @ (n, d) # ys \<Longrightarrow>
      ok (pl_node_store pl m n d') \<and> links (pl_node_store pl m n d') = xs @ (n, d') # ys \<and>
      removed (pl_node_store pl m n d') = removed m"
    and unlink: "ok m \<Longrightarrow> links m = xs @ (n, d) # ys \<Longrightarrow>
      \<exists>m'. pl_unlink pl m n = Some (d, m') \<and>
        ok m' \<and> links m' = xs @ ys \<and> removed m' = removed m"
    and unlink_removed: "ok m \<Longrightarrow> n \<notin> ids (links m) \<Longrightarrow> pl_unlink pl m n = None"
    and reset_linked: "ok m \<Longrightarrow> links m = xs @ (n, d) # ys \<Longrightarrow>
      \<exists>m'. pl_reset pl m n = (Linked d, m') \<and>
        ok m' \<and> links m' = xs @ ys \<and> removed m' = removed m"
    and reset_removed: "ok m \<Longrightarrow> removed m n = Some r \<Longrightarrow>
      \<exists>m'. pl_reset pl m n = (Removed r, m') \<and>
        ok m' \<and> links m' = links m \<and> removed m' = (removed m)(n := None)"
    and take_removed: "ok m \<Longrightarrow> removed m n = Some r \<Longrightarrow>
      \<exists>m'. pl_take_removed pl m n = Some (r, m') \<and>
        ok m' \<and> links m' = links m \<and> removed m' = (removed m)(n := None)"

text \<open>The three abstraction functions together, for the statements of the queue's theories.\<close>

record ('m, 'd, 'r) pin_view =
  ok :: "'m \<Rightarrow> bool"
  links :: "'m \<Rightarrow> (nid \<times> 'd) list"
  removed :: "'m \<Rightarrow> nid \<Rightarrow> 'r option"

section \<open>Reference instance\<close>

text \<open>The memory as two association lists: the linked nodes in order, and the removed ones.\<close>

record ('d, 'r) plain_list =
  lp_links :: "(nid \<times> 'd) list"
  lp_removed :: "(nid \<times> 'r) list"

definition lp_wf :: "('d, 'r) plain_list \<Rightarrow> bool" where
  "lp_wf m \<longleftrightarrow> distinct (map fst (lp_links m)) \<and> ids (lp_links m) \<inter> ids (lp_removed m) = {}"

definition lp_taken :: "('d, 'r) plain_list \<Rightarrow> nid \<Rightarrow> 'r option" where
  "lp_taken m n = map_of (lp_removed m) n"

definition lp_after :: "nid \<Rightarrow> (nid \<times> 'd) list \<Rightarrow> nid option" where
  "lp_after n xs = head_id (tl (dropWhile (\<lambda>x. fst x \<noteq> n) xs))"

definition lp_set :: "nid \<Rightarrow> 'd \<Rightarrow> (nid \<times> 'd) list \<Rightarrow> (nid \<times> 'd) list" where
  "lp_set n d xs = map (\<lambda>x. if fst x = n then (n, d) else x) xs"

definition lp_remove :: "('d, 'r) plain_list \<Rightarrow> nid \<Rightarrow> 'r \<Rightarrow> ('d, 'r) plain_list" where
  "lp_remove m n r = m\<lparr>lp_links := delete_id n (lp_links m),
     lp_removed := (n, r) # lp_removed m\<rparr>"

definition plain_pin_list :: "(('d, 'r) plain_list, 'd, 'r) pin_list_api" where
  "plain_pin_list = \<lparr>
     pl_new = \<lparr>lp_links = [], lp_removed = []\<rparr>,
     pl_is_empty = (\<lambda>m. lp_links m = []),
     pl_push_front = (\<lambda>m n d. m\<lparr>lp_links := (n, d) # lp_links m\<rparr>),
     pl_push_back = (\<lambda>m n d. m\<lparr>lp_links := lp_links m @ [(n, d)]\<rparr>),
     pl_cursor_front = (\<lambda>m. head_id (lp_links m)),
     pl_cursor_protected = (\<lambda>m c. case c of None \<Rightarrow> None | Some n \<Rightarrow> map_of (lp_links m) n),
     pl_cursor_store = (\<lambda>m c d. case c of None \<Rightarrow> m
        | Some n \<Rightarrow> m\<lparr>lp_links := lp_set n d (lp_links m)\<rparr>),
     pl_move_next = (\<lambda>m c. case c of None \<Rightarrow> None | Some n \<Rightarrow> lp_after n (lp_links m)),
     pl_remove_current = (\<lambda>m c r. case c of None \<Rightarrow> Inl r
        | Some n \<Rightarrow> (case map_of (lp_links m) n of None \<Rightarrow> Inl r
           | Some d \<Rightarrow> Inr (d, lp_after n (lp_links m), lp_remove m n r))),
     pl_remove_current_with_or = (\<lambda>m c f e. case c of None \<Rightarrow> (None, m)
        | Some n \<Rightarrow> (case map_of (lp_links m) n of None \<Rightarrow> (None, m)
           | Some d \<Rightarrow> (Some d, lp_remove m n (f d)))),
     pl_initialized = (\<lambda>m n. n \<in> ids (lp_links m) \<or> map_of (lp_removed m) n \<noteq> None),
     pl_node_protected = (\<lambda>m n. map_of (lp_links m) n),
     pl_node_store = (\<lambda>m n d. m\<lparr>lp_links := lp_set n d (lp_links m)\<rparr>),
     pl_unlink = (\<lambda>m n. case map_of (lp_links m) n of None \<Rightarrow> None
        | Some d \<Rightarrow> Some (d, m\<lparr>lp_links := delete_id n (lp_links m)\<rparr>)),
     pl_reset = (\<lambda>m n. case map_of (lp_links m) n of
          Some d \<Rightarrow> (Linked d, m\<lparr>lp_links := delete_id n (lp_links m)\<rparr>)
        | None \<Rightarrow> (case map_of (lp_removed m) n of
            Some r \<Rightarrow> (Removed r, m\<lparr>lp_removed := delete_id n (lp_removed m)\<rparr>)
          | None \<Rightarrow> undefined)),
     pl_take_removed = (\<lambda>m n. case map_of (lp_removed m) n of None \<Rightarrow> None
        | Some r \<Rightarrow> Some (r, m\<lparr>lp_removed := delete_id n (lp_removed m)\<rparr>))\<rparr>"

text \<open>The list functions at a node in the middle of the list.\<close>

lemma lp_set_mid: "distinct (map fst (xs @ (n, d) # ys)) \<Longrightarrow>
  lp_set n d' (xs @ (n, d) # ys) = xs @ (n, d') # ys"
  by (auto simp: lp_set_def rev_image_eqI intro!: map_idI)

lemma lp_after_mid: "distinct (map fst (xs @ (n, d) # ys)) \<Longrightarrow>
  lp_after n (xs @ (n, d) # ys) = head_id ys"
  by (induction xs) (auto simp: lp_after_def)

lemma map_of_delete_id: "map_of (delete_id n xs) = (map_of xs)(n := None)"
  by (induction xs) (auto simp: delete_id_def)

lemmas lp_mid = lp_set_mid lp_after_mid delete_id_mid

interpretation plain: pin_list_laws plain_pin_list lp_wf lp_links lp_taken
proof unfold_locales
  fix m :: "('d, 'r) plain_list" and n r f e d d' xs ys
  show "lp_wf (pl_new plain_pin_list)" "lp_links (pl_new plain_pin_list) = []"
    "lp_taken (pl_new plain_pin_list) = Map.empty"
    by (simp_all add: plain_pin_list_def lp_wf_def lp_taken_def fun_eq_iff)
  assume w: "lp_wf m"
  then show "distinct (map fst (lp_links m))"
    by (simp add: lp_wf_def)
  show "pl_is_empty plain_pin_list m = (lp_links m = [])"
    "pl_cursor_front plain_pin_list m = head_id (lp_links m)"
    "pl_cursor_protected plain_pin_list m None = None"
    "pl_node_protected plain_pin_list m n = map_of (lp_links m) n"
    "pl_initialized plain_pin_list m n = (n \<in> ids (lp_links m) \<or> lp_taken m n \<noteq> None)"
    by (simp_all add: plain_pin_list_def lp_taken_def)
  show "\<exists>m'. pl_remove_current_with_or plain_pin_list m None f e = (None, m') \<and>
    lp_wf m' \<and> lp_links m' = lp_links m \<and> lp_taken m' = lp_taken m"
    using w by (simp add: plain_pin_list_def)
  show "n \<notin> ids (lp_links m)" if "lp_taken m n = Some r"
    using w that by (force simp: lp_wf_def lp_taken_def dest: map_of_SomeD)
  show "pl_unlink plain_pin_list m n = None" if "n \<notin> ids (lp_links m)"
    using that by (simp add: plain_pin_list_def flip: map_of_ids)
  show "\<exists>m'. pl_reset plain_pin_list m n = (Removed r, m') \<and> lp_wf m' \<and>
      lp_links m' = lp_links m \<and> lp_taken m' = (lp_taken m)(n := None)"
    and "\<exists>m'. pl_take_removed plain_pin_list m n = Some (r, m') \<and> lp_wf m' \<and>
      lp_links m' = lp_links m \<and> lp_taken m' = (lp_taken m)(n := None)"
    if r: "lp_taken m n = Some r"
  proof -
    have "map_of (lp_links m) n = None"
      using w r by (force simp: lp_wf_def lp_taken_def map_of_eq_None_iff dest: map_of_SomeD)
    then show "\<exists>m'. pl_reset plain_pin_list m n = (Removed r, m') \<and> lp_wf m' \<and>
      lp_links m' = lp_links m \<and> lp_taken m' = (lp_taken m)(n := None)"
      and "\<exists>m'. pl_take_removed plain_pin_list m n = Some (r, m') \<and> lp_wf m' \<and>
      lp_links m' = lp_links m \<and> lp_taken m' = (lp_taken m)(n := None)"
      using w r by (auto simp: plain_pin_list_def lp_wf_def lp_taken_def map_of_delete_id)
  qed
  show "lp_wf (pl_push_front plain_pin_list m n d) \<and>
      lp_links (pl_push_front plain_pin_list m n d) = (n, d) # lp_links m \<and>
      lp_taken (pl_push_front plain_pin_list m n d) = lp_taken m"
    and "lp_wf (pl_push_back plain_pin_list m n d) \<and>
      lp_links (pl_push_back plain_pin_list m n d) = lp_links m @ [(n, d)] \<and>
      lp_taken (pl_push_back plain_pin_list m n d) = lp_taken m"
    if "n \<notin> ids (lp_links m)" "lp_taken m n = None"
    using w that
    by (auto simp: plain_pin_list_def lp_wf_def lp_taken_def map_of_eq_None_iff fun_eq_iff)
  assume l: "lp_links m = xs @ (n, d) # ys"
  then have dist: "distinct (map fst (xs @ (n, d) # ys))"
    using w by (simp add: lp_wf_def)
  note mid = dist [THEN lp_set_mid] dist [THEN lp_after_mid] dist [THEN delete_id_mid]
  have at_n: "map_of (lp_links m) n = Some d"
    using map_of_mid [OF dist] l by simp
  note defs = plain_pin_list_def lp_wf_def lp_taken_def lp_remove_def
  show "pl_cursor_protected plain_pin_list m (Some n) = Some d"
    "pl_move_next plain_pin_list m (Some n) = head_id ys"
    using at_n l mid by (simp_all add: plain_pin_list_def)
  show "lp_wf (pl_cursor_store plain_pin_list m (Some n) d') \<and>
      lp_links (pl_cursor_store plain_pin_list m (Some n) d') = xs @ (n, d') # ys \<and>
      lp_taken (pl_cursor_store plain_pin_list m (Some n) d') = lp_taken m"
    and "lp_wf (pl_node_store plain_pin_list m n d') \<and>
      lp_links (pl_node_store plain_pin_list m n d') = xs @ (n, d') # ys \<and>
      lp_taken (pl_node_store plain_pin_list m n d') = lp_taken m"
    using w l mid by (auto simp: defs fun_eq_iff)
  show "\<exists>m'. pl_remove_current plain_pin_list m (Some n) r = Inr (d, head_id ys, m') \<and>
      lp_wf m' \<and> lp_links m' = xs @ ys \<and> lp_taken m' = (lp_taken m)(n \<mapsto> r)"
    and "\<exists>m'. pl_remove_current_with_or plain_pin_list m (Some n) f e = (Some d, m') \<and>
      lp_wf m' \<and> lp_links m' = xs @ ys \<and> lp_taken m' = (lp_taken m)(n \<mapsto> f d)"
    and "\<exists>m'. pl_unlink plain_pin_list m n = Some (d, m') \<and> lp_wf m' \<and>
      lp_links m' = xs @ ys \<and> lp_taken m' = lp_taken m"
    and "\<exists>m'. pl_reset plain_pin_list m n = (Linked d, m') \<and> lp_wf m' \<and>
      lp_links m' = xs @ ys \<and> lp_taken m' = lp_taken m"
    using w l mid at_n dist by (auto simp: defs fun_eq_iff)
qed

definition plain_view :: "(('d, 'r) plain_list, 'd, 'r) pin_view" where
  "plain_view = \<lparr>ok = lp_wf, links = lp_links, removed = lp_taken\<rparr>"

lemma plain_view_simps [simp]:
  "ok plain_view = lp_wf" "links plain_view = lp_links" "removed plain_view = lp_taken"
  by (simp_all add: plain_view_def)

end
