(* ===== verification/Wake_Batch.thy ===== *)
theory Wake_Batch
  imports Prelude
begin

text \<open>
  \<open>WakeBatch\<close> and \<open>WakeRemaining\<close> of flag-bearer-queue/src/lib.rs: the wakers of nodes already
  removed from the list, invoked after the mutex is released. The batch is an \<open>ArrayVec\<close> of the
  dependency \<open>arrayvec\<close>, so its operations are a parameter with the laws of that crate.
\<close>

section \<open>The bounded vector\<close>

text \<open>The capacity in the type \<open>ArrayVec<Waker, 32>\<close>.\<close>

definition batch_cap :: nat where
  "batch_cap = 32"

text \<open>\<open>av_push\<close> is \<open>None\<close> where the crate panics, on a full vector; \<open>av_drain\<close> is \<open>drain(..)\<close>, the
  elements in order and the vector left behind.\<close>

record ('v, 'w) array_vec_api =
  av_new :: "'v"
  av_is_full :: "'v \<Rightarrow> bool"
  av_push :: "'v \<Rightarrow> 'w \<Rightarrow> 'v option"
  av_drain :: "'v \<Rightarrow> 'w list \<times> 'v"

locale array_vec_laws =
  fixes av :: "('v, 'w) array_vec_api"
    and elems :: "'v \<Rightarrow> 'w list"
  assumes av_new: "elems (av_new av) = []"
    and av_full: "av_is_full av v \<longleftrightarrow> batch_cap \<le> length (elems v)"
    and av_push: "length (elems v) < batch_cap \<Longrightarrow>
      \<exists>v'. av_push av v w = Some v' \<and> elems v' = elems v @ [w]"
    and av_drain: "fst (av_drain av v) = elems v" "elems (snd (av_drain av v)) = []"

definition plain_array_vec :: "('w list, 'w) array_vec_api" where
  "plain_array_vec = \<lparr>
     av_new = [],
     av_is_full = (\<lambda>v. batch_cap \<le> length v),
     av_push = (\<lambda>v w. if length v < batch_cap then Some (v @ [w]) else None),
     av_drain = (\<lambda>v. (v, []))\<rparr>"

interpretation plain_vec: array_vec_laws plain_array_vec "\<lambda>v. v"
  by unfold_locales (simp_all add: plain_array_vec_def)

section \<open>Waking\<close>

text \<open>
  A waker runs user code, with the mutex released: it may use the queue, and any other operation
  may run meanwhile. \<open>run w log q\<close> is what invoking \<open>w\<close> does to the queue \<open>q\<close> after the wakers \<open>log\<close>
  have been invoked; it may panic. The loop of \<open>WakeRemaining::wake_all\<close> takes each waker out of the
  iterator before it invokes it: after a panic the iterator holds the rest.
\<close>

type_synonym ('w, 'q) run_wake = "'w \<Rightarrow> 'w list \<Rightarrow> 'q \<Rightarrow> ('q, unit) call"

fun wake_loop :: "('w, 'q) run_wake \<Rightarrow> 'w list \<Rightarrow> 'w list \<Rightarrow> 'q \<Rightarrow> 'w list option \<times> 'q \<times> 'w list" where
  "wake_loop run [] log q = (None, q, log)"
| "wake_loop run (w # ws) log q = (case run w log q of
     Returns q' _ \<Rightarrow> wake_loop run ws (log @ [w]) q'
   | Panics q' \<Rightarrow> (Some ws, q', log @ [w]))"

text \<open>
  The guard \<open>WakeRemaining\<close> around the loop: when a waker panics, its destructor runs the loop again
  on the rest; a second panic there, inside a destructor of an unwinding thread, aborts.
\<close>

definition wake_remaining :: "('w, 'q) run_wake \<Rightarrow> 'w list \<Rightarrow> 'w list \<Rightarrow> 'q \<Rightarrow> ('q \<times> 'w list, unit) exec"
  where
  "wake_remaining run ws log q = (case wake_loop run ws log q of
     (None, q', log') \<Rightarrow> Ret (q', log') ()
   | (Some rest, q', log') \<Rightarrow> (case wake_loop run rest log' q' of
       (None, q'', log'') \<Rightarrow> Unwind (q'', log'')
     | (Some _, _, _) \<Rightarrow> Abort))"

text \<open>\<open>WakeBatch::wake_all\<close>: drain the vector and wake what it held. The vector is left in the
  result.\<close>

definition batch_wake_all ::
  "('v, 'w) array_vec_api \<Rightarrow> ('w, 'q) run_wake \<Rightarrow> 'v \<Rightarrow> 'w list \<Rightarrow> 'q \<Rightarrow> ('q \<times> 'w list \<times> 'v, unit) exec"
  where
  "batch_wake_all av run v log q = (case av_drain av v of (ws, v') \<Rightarrow>
     (case wake_remaining run ws log q of
       Ret (q', log') _ \<Rightarrow> Ret (q', log', v') ()
     | Unwind (q', log') \<Rightarrow> Unwind (q', log', v')
     | Abort \<Rightarrow> Abort
     | UB \<Rightarrow> UB))"

text \<open>\<open>Drop for WakeBatch\<close> at the end of the scope, on a normal return with the value \<open>r\<close> and while a
  panic unwinds.\<close>

definition batch_drop ::
  "('v, 'w) array_vec_api \<Rightarrow> ('w, 'q) run_wake \<Rightarrow> 'v \<Rightarrow> 'w list \<Rightarrow> 'q \<Rightarrow> 'r \<Rightarrow> ('q \<times> 'w list, 'r) exec"
  where
  "batch_drop av run v log q r = (case batch_wake_all av run v log q of
       Ret (q', log', _) _ \<Rightarrow> Ret (q', log') r
     | Unwind (q', log', _) \<Rightarrow> Unwind (q', log')
     | Abort \<Rightarrow> Abort
     | UB \<Rightarrow> UB)"

definition batch_drop_unwinding ::
  "('v, 'w) array_vec_api \<Rightarrow> ('w, 'q) run_wake \<Rightarrow> 'v \<Rightarrow> 'w list \<Rightarrow> 'q \<Rightarrow> ('q \<times> 'w list, 'r) exec"
  where
  "batch_drop_unwinding av run v log q = (case batch_wake_all av run v log q of
       Ret (q', log', _) _ \<Rightarrow> Unwind (q', log')
     | Unwind _ \<Rightarrow> Abort
     | Abort \<Rightarrow> Abort
     | UB \<Rightarrow> UB)"

section \<open>What waking does\<close>

lemma wake_loop_log:
  "wake_loop run ws log q = (None, q', log') \<Longrightarrow> log' = log @ ws"
  by (induction ws arbitrary: log q) (force split: call.splits)+

lemma wake_loop_panic:
  "wake_loop run ws log q = (Some rest, q', log') \<Longrightarrow> \<exists>done. ws = done @ rest \<and> log' = log @ done"
proof (induction ws arbitrary: log q)
  case Nil
  then show ?case by simp
next
  case (Cons w ws)
  show ?case
  proof (cases "run w log q")
    case (Returns q1 u)
    with Cons.prems have "wake_loop run ws (log @ [w]) q1 = (Some rest, q', log')"
      by simp
    from Cons.IH [OF this] obtain woken where "ws = woken @ rest" "log' = log @ w # woken"
      by auto
    then show ?thesis by (intro exI [of _ "w # woken"]) simp
  next
    case (Panics q1)
    with Cons.prems show ?thesis by (intro exI [of _ "[w]"]) simp
  qed
qed

lemma wake_remaining_log:
  "wake_remaining run ws log q = Ret (q', log') u \<Longrightarrow> log' = log @ ws"
  "wake_remaining run ws log q = Unwind (q', log') \<Longrightarrow> log' = log @ ws"
  by (auto simp: wake_remaining_def split: prod.splits option.splits
      dest!: wake_loop_log wake_loop_panic)

lemma wake_remaining_not_UB [simp]: "wake_remaining run ws log q \<noteq> UB"
  by (auto simp: wake_remaining_def split: prod.splits option.splits)

text \<open>A property of the queue that every waker keeps holds when waking ends, whether it ends
  normally or with a panic.\<close>

definition keeps :: "('q \<Rightarrow> bool) \<Rightarrow> ('w, 'q) run_wake \<Rightarrow> bool" where
  "keeps P run \<longleftrightarrow> (\<forall>w log q. P q \<longrightarrow> (case run w log q of Returns q' _ \<Rightarrow> P q' | Panics q' \<Rightarrow> P q'))"

lemma wake_loop_keeps:
  "keeps P run \<Longrightarrow> P q \<Longrightarrow> wake_loop run ws log q = (rest, q', log') \<Longrightarrow> P q'"
proof (induction ws arbitrary: log q)
  case Nil
  then show ?case by simp
next
  case (Cons w ws)
  from Cons.prems(1,2) have "case run w log q of Returns q1 _ \<Rightarrow> P q1 | Panics q1 \<Rightarrow> P q1"
    by (simp add: keeps_def)
  with Cons.IH [OF Cons.prems(1)] Cons.prems(3) show ?case
    by (auto split: call.splits)
qed

lemma wake_remaining_keeps:
  "keeps P run \<Longrightarrow> P q \<Longrightarrow> exec_all (\<lambda>(q', _). P q') (wake_remaining run ws log q)"
  by (auto simp: wake_remaining_def split: prod.splits option.splits dest: wake_loop_keeps)

text \<open>Wakers that never panic.\<close>

definition quiet :: "('w, 'q) run_wake \<Rightarrow> 'w set \<Rightarrow> bool" where
  "quiet run W \<longleftrightarrow> (\<forall>w \<in> W. \<forall>log q. \<exists>q'. run w log q = Returns q' ())"

lemma wake_loop_quiet:
  "quiet run (set ws) \<Longrightarrow> \<exists>q'. wake_loop run ws log q = (None, q', log @ ws)"
proof (induction ws arbitrary: log q)
  case Nil
  then show ?case by simp
next
  case (Cons w ws)
  from Cons.prems obtain q1 where "run w log q = Returns q1 ()"
    unfolding quiet_def by (meson list.set_intros(1))
  moreover have "quiet run (set ws)"
    using Cons.prems by (simp add: quiet_def)
  ultimately show ?case
    using Cons.IH [of "log @ [w]" q1] by simp
qed

lemma wake_loop_one_panic:
  assumes "quiet run (set xs)"
  shows "\<exists>q1. wake_loop run (xs @ w # ys) log q =
    (case run w (log @ xs) q1 of
      Returns q2 _ \<Rightarrow> wake_loop run ys (log @ xs @ [w]) q2
    | Panics q2 \<Rightarrow> (Some ys, q2, log @ xs @ [w]))"
  using assms
proof (induction xs arbitrary: log q)
  case Nil
  show ?case by (intro exI [of _ q]) (simp split: call.splits)
next
  case (Cons x xs)
  from Cons.prems obtain q1 where "run x log q = Returns q1 ()"
    unfolding quiet_def by (meson list.set_intros(1))
  moreover have "quiet run (set xs)"
    using Cons.prems by (simp add: quiet_def)
  moreover from Cons.IH [OF this, of "log @ [x]" q1] obtain q2 where
    "wake_loop run (xs @ w # ys) (log @ [x]) q1 = (case run w ((log @ [x]) @ xs) q2 of
      Returns q3 _ \<Rightarrow> wake_loop run ys ((log @ [x]) @ xs @ [w]) q3
    | Panics q3 \<Rightarrow> (Some ys, q3, (log @ [x]) @ xs @ [w]))" by blast
  ultimately show ?case
    by (intro exI [of _ q2]) (simp split: call.splits)
qed

text \<open>Wakers that do not touch the queue, such as those of an executor that only schedules tasks.\<close>

definition inert :: "('w, 'q) run_wake \<Rightarrow> bool" where
  "inert run \<longleftrightarrow> (\<forall>w log q. run w log q = Returns q ())"

lemma wake_remaining_inert: "inert run \<Longrightarrow> wake_remaining run ws log q = Ret (q, log @ ws) ()"
proof -
  assume "inert run"
  then have "wake_loop run ws log q = (None, q, log @ ws)" for log
    by (induction ws arbitrary: log) (simp_all add: inert_def)
  then show ?thesis by (simp add: wake_remaining_def)
qed

context array_vec_laws
begin

lemma batch_wake_all_eq:
  "batch_wake_all av run v log q = (case wake_remaining run (elems v) log q of
       Ret (q', log') _ \<Rightarrow> Ret (q', log', snd (av_drain av v)) ()
     | Unwind (q', log') \<Rightarrow> Unwind (q', log', snd (av_drain av v))
     | Abort \<Rightarrow> Abort
     | UB \<Rightarrow> UB)"
  using av_drain(1) [of v] by (cases "av_drain av v") (simp add: batch_wake_all_def split: exec.splits)

lemma batch_wake_all_empty:
  "elems v = [] \<Longrightarrow> batch_wake_all av run v log q = Ret (q, log, snd (av_drain av v)) ()"
  by (simp add: batch_wake_all_eq wake_remaining_def)

lemma batch_drop_empty: "elems v = [] \<Longrightarrow> batch_drop av run v log q r = Ret (q, log) r"
  by (simp add: batch_drop_def batch_wake_all_empty)

lemma batch_drop_unwinding_empty:
  "elems v = [] \<Longrightarrow> batch_drop_unwinding av run v log q = Unwind (q, log)"
  by (simp add: batch_drop_unwinding_def batch_wake_all_empty)

lemma batch_wake_all_inert:
  "inert run \<Longrightarrow>
    batch_wake_all av run v log q = Ret (q, log @ elems v, snd (av_drain av v)) ()"
  by (simp add: batch_wake_all_eq wake_remaining_inert)

lemma batch_drop_unwinding_inert:
  "inert run \<Longrightarrow> batch_drop_unwinding av run v log q = Unwind (q, log @ elems v)"
  by (simp add: batch_drop_unwinding_def batch_wake_all_inert)

lemma batch_wake_all_keeps:
  "keeps P run \<Longrightarrow> P q \<Longrightarrow>
    exec_all (\<lambda>(q', _, v'). P q' \<and> elems v' = []) (batch_wake_all av run v log q)"
  using wake_remaining_keeps [of P run q "elems v" log]
  by (auto simp: batch_wake_all_eq av_drain split: exec.splits)

lemma batch_drop_unwinding_keeps:
  "keeps P run \<Longrightarrow> P q \<Longrightarrow> exec_all (\<lambda>(q', _). P q') (batch_drop_unwinding av run v log q)"
  using batch_wake_all_keeps [of P run q v log]
  by (auto simp: batch_drop_unwinding_def split: exec.splits)

text \<open>Unless the process aborts, every waker of the batch has been invoked exactly once, in order.\<close>

lemma batch_wake_all_cases:
  obtains (Woken) q' where "batch_wake_all av run v log q = Ret (q', log @ elems v, snd (av_drain av v)) ()"
      "wake_remaining run (elems v) log q = Ret (q', log @ elems v) ()"
  | (Panicked) q' where "batch_wake_all av run v log q = Unwind (q', log @ elems v, snd (av_drain av v))"
      "wake_remaining run (elems v) log q = Unwind (q', log @ elems v)"
  | (Aborted) "batch_wake_all av run v log q = Abort" "wake_remaining run (elems v) log q = Abort"
proof (cases "wake_remaining run (elems v) log q")
  case (Ret x u)
  with wake_remaining_log(1) Woken show ?thesis
    by (cases x) (fastforce simp: batch_wake_all_eq)
next
  case (Unwind x)
  with wake_remaining_log(2) Panicked show ?thesis
    by (cases x) (fastforce simp: batch_wake_all_eq)
next
  case Abort
  with Aborted show ?thesis by (simp add: batch_wake_all_eq)
qed simp

end

section \<open>Properties\<close>

text \<open>C28. Panicking wakers lose no wake-up: unless the process aborts, \<open>WakeBatch::wake_all\<close> has
  invoked every waker of the batch exactly once and in queue order when it ends, also when it ends
  by a panic of one of them, and leaves the vector empty.\<close>

theorem wake_all_invokes_each_once:
  assumes "array_vec_laws av elems"
  shows "(\<forall>q' log' v' u. batch_wake_all av run v log q = Ret (q', log', v') u \<longrightarrow>
      log' = log @ elems v \<and> elems v' = []) \<and>
    (\<forall>q' log' v'. batch_wake_all av run v log q = Unwind (q', log', v') \<longrightarrow>
      log' = log @ elems v \<and> elems v' = [])"
  using array_vec_laws.batch_wake_all_cases [OF assms, of run v log q]
    array_vec_laws.av_drain(2) [OF assms, of v]
  by (metis exec.distinct(1) exec.distinct(3) exec.distinct(7) exec.inject(1) exec.inject(2) prod.inject)

theorem wake_all_invokes_each_once_witness:
  "batch_wake_all plain_array_vec (\<lambda>w log q. if w = (0::nat) then Panics (q + 1) else Returns (q + 1) ())
     [0, 7, 8] [] (0::nat) = Unwind (3, [0, 7, 8], [])"
proof -
  let ?r = "\<lambda>w log q. if w = (0::nat) then Panics (q + 1) else Returns (q + (1::nat)) ()"
  have "\<exists>q' log' v'. batch_wake_all plain_array_vec ?r [0, 7, 8] [] (0::nat) = Unwind (q', log', v') \<and> q' = 3"
    by (simp add: batch_wake_all_def plain_array_vec_def wake_remaining_def)
  with wake_all_invokes_each_once [OF plain_vec.array_vec_laws_axioms, of ?r "[0, 7, 8]" "[]" 0]
  show ?thesis by auto
qed

text \<open>One panicking waker never aborts the process: if at most one waker \<open>w\<close> of the batch can
  panic, waking ends by return or by unwinding with every waker invoked; where no waker can panic it
  ends by return.\<close>

theorem one_waker_panic_no_abort:
  assumes "array_vec_laws av elems" and "elems v = xs @ ws @ ys" and "length ws \<le> 1"
    and "quiet run (set xs \<union> set ys)"
  shows "\<exists>q'. batch_wake_all av run v log q = Ret (q', log @ elems v, snd (av_drain av v)) () \<or>
    ws \<noteq> [] \<and> batch_wake_all av run v log q = Unwind (q', log @ elems v, snd (av_drain av v))"
proof -
  have qx: "quiet run (set xs)" and qy: "quiet run (set ys)"
    using assms(4) by (auto simp: quiet_def)
  show ?thesis
  proof (cases ws)
    case Nil
    with wake_loop_quiet [OF assms(4) [folded set_append], of log q] assms(2) show ?thesis
      by (auto simp: array_vec_laws.batch_wake_all_eq [OF assms(1)] wake_remaining_def)
  next
    case (Cons w ws')
    with assms(2,3) have v: "elems v = xs @ w # ys" by simp
    from wake_loop_one_panic [OF qx, of w ys log q] obtain q1 where q1:
      "wake_loop run (xs @ w # ys) log q = (case run w (log @ xs) q1 of
        Returns q2 _ \<Rightarrow> wake_loop run ys (log @ xs @ [w]) q2
      | Panics q2 \<Rightarrow> (Some ys, q2, log @ xs @ [w]))" by blast
    obtain q3 where "run w (log @ xs) q1 = Panics q3 \<or> run w (log @ xs) q1 = Returns q3 ()"
      by (cases "run w (log @ xs) q1") auto
    moreover obtain q4 where "wake_loop run ys (log @ xs @ [w]) q3 = (None, q4, log @ xs @ w # ys)"
      using wake_loop_quiet [OF qy, of "log @ xs @ [w]" q3] by auto
    ultimately show ?thesis
      using q1 Cons by (intro exI [of _ q4])
        (auto simp: array_vec_laws.batch_wake_all_eq [OF assms(1)] v wake_remaining_def)
  qed
qed

theorem one_waker_panic_no_abort_witness:
  "\<exists>q'. batch_wake_all plain_array_vec (\<lambda>w log q. if w = (1::nat) then Panics q else Returns q ())
     [5, 1, 6] [] (0::nat) = Ret (q', [5, 1, 6], []) () \<or>
   batch_wake_all plain_array_vec (\<lambda>w log q. if w = (1::nat) then Panics q else Returns q ())
     [5, 1, 6] [] (0::nat) = Unwind (q', [5, 1, 6], [])"
  using one_waker_panic_no_abort [OF plain_vec.array_vec_laws_axioms, of "[5, 1, 6]" "[5]" "[1]" "[6]"
      "\<lambda>w log q. if w = (1::nat) then Panics q else Returns (q::nat) ()" "[]" 0]
  by (auto simp: quiet_def plain_array_vec_def)

end
