(* ===== verification/Queue_Order.thy ===== *)
theory Queue_Order
  imports Prelude
begin

text \<open>
  The trait \<open>Order\<close> and its two implementations, from flag-bearer-queue/src/order.rs. The trait has one
  method, \<open>enqueue_front(&mut self, queued) -> bool\<close>: here a function from the policy's state and
  the number of waiters to the policy's new state and the answer; it is user code and may panic.
\<close>

type_synonym 'o order_policy = "'o \<Rightarrow> nat \<Rightarrow> ('o, bool) call"

datatype fair_order = Lifo | Fifo

fun fair_enqueue_front :: "fair_order order_policy" where
  "fair_enqueue_front self queued = Returns self (self = Lifo)"

record hybrid =
  lifo_above :: nat

fun hybrid_enqueue_front :: "hybrid order_policy" where
  "hybrid_enqueue_front self queued = Returns self (queued > lifo_above self)"

text \<open>Policies whose decision neither panics nor changes the policy.\<close>

locale stateless_policy =
  fixes policy :: "'o order_policy"
    and front :: "'o \<Rightarrow> nat \<Rightarrow> bool"
  assumes decides: "policy ord queued = Returns ord (front ord queued)"

interpretation fair: stateless_policy fair_enqueue_front "\<lambda>ord _. ord = Lifo"
  by unfold_locales simp

interpretation hybrid: stateless_policy hybrid_enqueue_front "\<lambda>ord queued. queued > lifo_above ord"
  by unfold_locales simp

end
