(* ===== verification/Close_Mode.thy ===== *)
theory Close_Mode
  imports Prelude
begin

text \<open>
  flag-bearer-queue/src/closeable.rs: the type-level switch \<open>C: IsCloseable\<close> as a value. For
  \<open>Uncloseable\<close> the types \<open>Closed<P>\<close> and \<open>AcquireError<Uncloseable>\<close> have no values: what the code
  does with one is the empty match, here undefined behaviour, and constructing the error panics
  with \<open>unreachable!()\<close>. Theorems about the queue show that neither is ever reached.
\<close>

datatype close_mode = Closeable | Uncloseable

fun CLOSE :: "close_mode \<Rightarrow> bool" where
  "CLOSE Closeable = True"
| "CLOSE Uncloseable = False"

text \<open>\<open>AcquireError { params }\<close> of flag-bearer-queue/src/acquire.rs.\<close>

datatype 'p acquire_error = AcquireError 'p

fun new_err :: "close_mode \<Rightarrow> 'p \<Rightarrow> (unit, 'p acquire_error) exec" where
  "new_err Closeable p = Ret () (AcquireError p)"
| "new_err Uncloseable p = Unwind ()"

text \<open>The closure given to \<open>map_err\<close> may panic, here \<open>None\<close>.\<close>

fun map_err :: "close_mode \<Rightarrow> 'p \<Rightarrow> ('p \<Rightarrow> 'r option) \<Rightarrow> (unit, 'r acquire_error) exec" where
  "map_err Closeable p f = (case f p of Some r \<Rightarrow> Ret () (AcquireError r) | None \<Rightarrow> Unwind ())"
| "map_err Uncloseable p f = UB"

lemma new_err_CLOSE: "CLOSE c \<Longrightarrow> new_err c p = Ret () (AcquireError p)"
  by (cases c) auto

lemma map_err_CLOSE: "CLOSE c \<Longrightarrow> map_err c p f =
  (case f p of Some r \<Rightarrow> Ret () (AcquireError r) | None \<Rightarrow> Unwind ())"
  by (cases c) auto

end
