(* ===== verification/Queue_State.thy ===== *)
theory Queue_State
  imports Sem_State Pin_List Wake_Batch Queue_Order Close_Mode
begin

text \<open>
  \<open>QueueState\<close> of flag-bearer-queue/src/lib.rs: the data behind the mutex, and the operations that
  run while it is held.
\<close>

section \<open>Data\<close>

text \<open>
  The parameters of \<open>SemaphoreQueue<R, S, C, O>\<close>: the dependencies \<open>pin-list\<close> and \<open>arrayvec\<close>, the
  user's \<open>SemaphoreState\<close> and \<open>Order\<close>, and the closing mode. A linked node protects
  \<open>(Option<Params>, Waker)\<close>; a removed one holds \<open>Result<Permit, Closed<Option<Params>>>\<close>.
\<close>

type_synonym ('p, 'w) waiting = "'p option \<times> 'w"
type_synonym ('p, 'a) removal = "'p option + 'a"

record ('m, 'v, 's, 'p, 'a, 'o, 'w) generics =
  pl :: "('m, ('p, 'w) waiting, ('p, 'a) removal) pin_list_api"
  av :: "('v, 'w) array_vec_api"
  sem :: "('s, 'p, 'a) semaphore_state"
  policy :: "'o order_policy"
  mode :: close_mode

text \<open>
  \<open>queue : Result<PinList, Closed<()>>\<close> is the field \<open>queue\<close>; the list of \<open>Ok\<close>, with the nodes
  that were ever registered in it, is the memory \<open>pins\<close>, which outlives the list. \<open>len\<close> counts nodes
  in memory, so it does not reach the bound of \<open>usize\<close>; its decrement is checked where it is made.
\<close>

datatype list_slot = Open | Discarded

record ('m, 's, 'o) queue_state =
  queue :: list_slot
  pins :: 'm
  poisoned :: bool
  closed :: bool
  len :: nat
  order :: 'o
  state :: 's

definition new_queue :: "('m, 'v, 's, 'p, 'a, 'o, 'w) generics \<Rightarrow> 's \<Rightarrow> 'o \<Rightarrow> ('m, 's, 'o) queue_state" where
  "new_queue G s ord = \<lparr>queue = Open, pins = pl_new (pl G), poisoned = False, closed = False,
     len = 0, order = ord, state = s\<rparr>"

section \<open>Operations under the mutex\<close>

text \<open>
  \<open>PoisonOnUnwind\<close> around a call into user code that was given \<open>&mut self.state\<close>: if the call
  unwinds the guard sets \<open>poisoned\<close>; if it returns the guard is forgotten and the flag stays.
\<close>

fun guarded :: "('m, 's, 'o) queue_state \<Rightarrow> ('s, 'r) call \<Rightarrow> (('m, 's, 'o) queue_state, 'r) call" where
  "guarded q (Returns s r) = Returns (q\<lparr>state := s\<rparr>) r"
| "guarded q (Panics s) = Panics (q\<lparr>state := s, poisoned := True\<rparr>)"

definition update_state ::
  "('s \<Rightarrow> ('s, 'r) call) \<Rightarrow> ('m, 's, 'o) queue_state \<Rightarrow> (('m, 's, 'o) queue_state, 'r) exec" where
  "update_state f q = (case guarded q (f (state q)) of
     Returns q' r \<Rightarrow> Ret q' r
   | Panics q' \<Rightarrow> Unwind q')"

text \<open>
  The loop of \<open>QueueState::check\<close>, at a cursor position. The queue and the batch are carried through
  every way out. It does not end if the list is cyclic, so it is a partial function.
\<close>

partial_function (option) check_loop ::
  "('m, 'v, 's, 'p, 'a, 'o, 'w) generics \<Rightarrow> nid option \<Rightarrow> ('m, 's, 'o) queue_state \<Rightarrow> 'v
    \<Rightarrow> (('m, 's, 'o) queue_state \<times> 'v, unit) exec option" where
  "check_loop G leader q wakes =
    (case pl_cursor_protected (pl G) (pins q) leader of
      None \<Rightarrow> Some (Ret (q, wakes) ())
    | Some (params, waker) \<Rightarrow>
      (case params of
        None \<Rightarrow> check_loop G (pl_move_next (pl G) (pins q) leader) q wakes
      | Some p \<Rightarrow>
        (let q1 = q\<lparr>pins := pl_cursor_store (pl G) (pins q) leader (None, waker)\<rparr>
         in case guarded q1 (acquire (sem G) (state q1) p) of
              Panics q2 \<Rightarrow> Some (Unwind (q2, wakes))
            | Returns q2 (Inr permit) \<Rightarrow>
              (case pl_remove_current (pl G) (pins q2) leader (Inr permit) of
                Inr ((_, waker'), leader', m) \<Rightarrow>
                  if len q2 = 0 then Some (Unwind (q2\<lparr>pins := m\<rparr>, wakes))
                  else (let q3 = q2\<lparr>pins := m, len := len q2 - 1\<rparr>
                    in case av_push (av G) wakes waker' of
                      None \<Rightarrow> Some (Unwind (q3, wakes))
                    | Some wakes' \<Rightarrow>
                        if av_is_full (av G) wakes' then Some (Ret (q3, wakes') ())
                        else check_loop G leader' q3 wakes')
              | Inl _ \<Rightarrow> Some UB)
            | Returns q2 (Inl p') \<Rightarrow>
                Some (Ret (q2\<lparr>pins := pl_cursor_store (pl G) (pins q2) leader (Some p', waker)\<rparr>, wakes) ()))))"

definition check ::
  "('m, 'v, 's, 'p, 'a, 'o, 'w) generics \<Rightarrow> ('m, 's, 'o) queue_state \<Rightarrow> 'v
    \<Rightarrow> (('m, 's, 'o) queue_state \<times> 'v, unit) exec option" where
  "check G q wakes =
    (if poisoned q \<or> (CLOSE (mode G) \<and> closed q) then Some (Ret (q, wakes) ())
     else case queue q of
       Discarded \<Rightarrow> Some (Ret (q, wakes) ())
     | Open \<Rightarrow> check_loop G (pl_cursor_front (pl G) (pins q)) q wakes)"

definition is_closed :: "('m, 's, 'o) queue_state \<Rightarrow> bool" where
  "is_closed q = closed q"

definition is_poisoned :: "('m, 's, 'o) queue_state \<Rightarrow> bool" where
  "is_poisoned q = poisoned q"

definition clear_poison :: "('m, 's, 'o) queue_state \<Rightarrow> ('m, 's, 'o) queue_state" where
  "clear_poison q = q\<lparr>poisoned := False\<rparr>"

text \<open>
  \<open>QueueState::close_one\<close>. The closure given to \<open>remove_current_with_or\<close> decrements \<open>len\<close> (checked
  in a debug build), keeps the waker and leaves \<open>Err(params)\<close> in the node; the other closure leaves
  \<open>Err(None)\<close> should the first one panic. The last line is the \<open>debug_assert_eq\<close>.
\<close>

definition close_one ::
  "('m, 'v, 's, 'p, 'a, 'o, 'w) generics \<Rightarrow> ('m, 's, 'o) queue_state
    \<Rightarrow> (('m, 's, 'o) queue_state, 'w option) exec" where
  "close_one G q0 =
    (let q = q0\<lparr>closed := True\<rparr>
     in case queue q of
       Discarded \<Rightarrow> Ret q None
     | Open \<Rightarrow>
       (case pl_remove_current_with_or (pl G) (pins q) (pl_cursor_front (pl G) (pins q))
            (\<lambda>(params, _). Inl params) (Inl None) of
         (gone, m) \<Rightarrow>
           (let q1 = q\<lparr>pins := m\<rparr>
            in if gone \<noteq> None \<and> len q1 = 0 then Unwind q1
               else
                 let q2 = (if gone = None then q1 else q1\<lparr>len := len q1 - 1\<rparr>);
                     waker = map_option snd gone
                 in if pl_is_empty (pl G) (pins q2)
                    then (let q3 = q2\<lparr>queue := Discarded\<rparr>
                          in if len q3 \<noteq> 0 then Unwind q3 else Ret q3 waker)
                    else Ret q2 waker)))"

section \<open>What the queue keeps\<close>

text \<open>
  The invariant of the data behind the mutex: \<open>len\<close> is the number of linked nodes; the list is
  discarded only when closed and empty; only a closeable queue is ever closed; a node that was
  removed without a permit was removed by closing.
\<close>

type_synonym ('m, 'p, 'a, 'w) queue_view = "('m, ('p, 'w) waiting, ('p, 'a) removal) pin_view"

definition queue_inv ::
  "('m, 'v, 's, 'p, 'a, 'o, 'w) generics \<Rightarrow> ('m, 'p, 'a, 'w) queue_view \<Rightarrow> ('m, 's, 'o) queue_state \<Rightarrow> bool"
  where
  "queue_inv G V q \<longleftrightarrow>
     ok V (pins q) \<and> len q = length (links V (pins q)) \<and>
     (queue q = Discarded \<longrightarrow> closed q \<and> links V (pins q) = []) \<and>
     (closed q \<longrightarrow> CLOSE (mode G)) \<and>
     (\<forall>n p. removed V (pins q) n = Some (Inl p) \<longrightarrow> closed q)"

section \<open>Specification of one batch\<close>

text \<open>
  What one locked round of \<open>check\<close> must do, on the plain list of waiters: go from the front, pass over
  waiters whose params were lost, hand permits out until one is refused, one panics, the list ends
  or \<open>k\<close> have been handed out. The result is the new state, the waiters left, the grants in order,
  and whether a call panicked.
\<close>

fun serve :: "('s \<Rightarrow> 'p \<Rightarrow> ('s, 'p + 'a) call) \<Rightarrow> nat \<Rightarrow> 's \<Rightarrow> (nid \<times> ('p, 'w) waiting) list
    \<Rightarrow> 's \<times> (nid \<times> ('p, 'w) waiting) list \<times> (nid \<times> 'a \<times> 'w) list \<times> bool" where
  "serve acq k s [] = (s, [], [], False)"
| "serve acq k s ((n, None, w) # xs) =
     (case serve acq k s xs of (s', rest, grants, b) \<Rightarrow> (s', (n, None, w) # rest, grants, b))"
| "serve acq k s ((n, Some p, w) # xs) =
     (case acq s p of
        Panics s' \<Rightarrow> (s', (n, None, w) # xs, [], True)
      | Returns s' (Inl p') \<Rightarrow> (s', (n, Some p', w) # xs, [], False)
      | Returns s' (Inr a) \<Rightarrow>
          if k \<le> 1 then (s', xs, [(n, a, w)], False)
          else (case serve acq (k - 1) s' xs of
            (s'', rest, grants, b) \<Rightarrow> (s'', rest, (n, a, w) # grants, b)))"

text \<open>The removed nodes after the grants \<open>gs\<close>: each holds its permit.\<close>

fun park :: "(nid \<Rightarrow> ('p, 'a) removal option) \<Rightarrow> (nid \<times> 'a \<times> 'w) list \<Rightarrow> nid \<Rightarrow> ('p, 'a) removal option"
  where
  "park rm [] = rm"
| "park rm ((n, a, w) # gs) = park (rm(n \<mapsto> Inr a)) gs"

definition grant_wakers :: "(nid \<times> 'a \<times> 'w) list \<Rightarrow> 'w list" where
  "grant_wakers gs = map (\<lambda>(_, _, w). w) gs"

lemma grant_wakers_simps [simp]:
  "grant_wakers [] = []" "grant_wakers ((n, a, w) # gs) = w # grant_wakers gs"
  "length (grant_wakers gs) = length gs"
  by (simp_all add: grant_wakers_def)

text \<open>What the loop of \<open>check\<close> must have done from a cursor with the nodes \<open>xs\<close> behind it, started with \<open>q\<close> and
  the batch \<open>wakes\<close>, when \<open>serve\<close> says \<open>(s', rest, gs, b)\<close>.\<close>

definition served_from :: "('m, 'p, 'a, 'w) queue_view \<Rightarrow> ('v \<Rightarrow> 'w list) \<Rightarrow> (nid \<times> ('p, 'w) waiting) list
    \<Rightarrow> ('m, 's, 'o) queue_state \<Rightarrow> 'v \<Rightarrow> 's \<times> (nid \<times> ('p, 'w) waiting) list \<times> (nid \<times> 'a \<times> 'w) list \<times> bool
    \<Rightarrow> (('m, 's, 'o) queue_state \<times> 'v, unit) exec option \<Rightarrow> bool" where
  "served_from V elems xs q wakes spec x \<longleftrightarrow> (case spec of (s', rest, gs, b) \<Rightarrow>
     \<exists>m' v'. x = Some
       (let q' = q\<lparr>pins := m', state := s', len := length xs + length rest, poisoned := poisoned q \<or> b\<rparr>
        in if b then Unwind (q', v') else Ret (q', v') ()) \<and>
       ok V m' \<and> links V m' = xs @ rest \<and> removed V m' = park (removed V (pins q)) gs \<and>
       elems v' = elems wakes @ grant_wakers gs)"

text \<open>A pass that stops where it started: the list keeps its length.\<close>

lemma served_stop:
  assumes "ok V m" and "links V m = xs @ rest" and "removed V m = removed V (pins q)"
    and "len q = length xs + length rest"
  shows "served_from V elems xs q wakes (s', rest, [], False) (Some (Ret (q\<lparr>pins := m, state := s'\<rparr>, wakes) ()))"
    and "served_from V elems xs q wakes (s', rest, [], True)
      (Some (Unwind (q\<lparr>pins := m, state := s', poisoned := True\<rparr>, wakes)))"
proof -
  have "q\<lparr>pins := m, state := s'\<rparr> =
      q\<lparr>pins := m, state := s', len := length xs + length rest, poisoned := poisoned q\<rparr>"
    "q\<lparr>pins := m, state := s', poisoned := True\<rparr> =
      q\<lparr>pins := m, state := s', len := length xs + length rest, poisoned := True\<rparr>"
    using assms(4) by (cases q; simp)+
  with assms(1-3)
  show "served_from V elems xs q wakes (s', rest, [], False) (Some (Ret (q\<lparr>pins := m, state := s'\<rparr>, wakes) ()))"
    and "served_from V elems xs q wakes (s', rest, [], True)
      (Some (Unwind (q\<lparr>pins := m, state := s', poisoned := True\<rparr>, wakes)))"
    unfolding served_from_def Let_def by (auto intro!: exI [of _ m] exI [of _ wakes])
qed

section \<open>The dependencies together\<close>

locale queue_deps =
  PL: pin_list_laws "pl G" "ok V" "links V" "removed V" + AV: array_vec_laws "av G" elems
  for G :: "('m, 'v, 's, 'p, 'a, 'o, 'w) generics"
    and V :: "('m, 'p, 'a, 'w) queue_view"
    and elems :: "'v \<Rightarrow> 'w list"
begin

lemma head_protected:
  assumes "ok V m" and "links V m = xs @ ys"
  shows "pl_cursor_protected (pl G) m (head_id ys) =
    (case ys of [] \<Rightarrow> None | y # _ \<Rightarrow> Some (snd y))"
proof (cases ys)
  case Nil
  then show ?thesis using PL.cursor_ghost [OF assms(1)] by simp
next
  case (Cons y ys')
  then show ?thesis
    using PL.cursor_protected [OF assms(1), of xs "fst y" "snd y" ys'] assms(2)
    by (cases y) simp
qed

text \<open>One pass of the loop of \<open>check\<close>, by what it finds at the cursor.\<close>

lemma check_loop_end:
  "ok V (pins q) \<Longrightarrow> check_loop G None q wakes = Some (Ret (q, wakes) ())"
  by (subst check_loop.simps) (simp add: PL.cursor_ghost)

lemma check_loop_skip:
  assumes "ok V (pins q)" and "links V (pins q) = xs @ (n, None, w) # ys"
  shows "check_loop G (Some n) q wakes = check_loop G (head_id ys) q wakes"
  using PL.cursor_protected [OF assms] PL.move_next [OF assms]
  by (subst check_loop.simps) simp

lemma check_loop_panic:
  assumes "ok V (pins q)" and "links V (pins q) = xs @ (n, Some p, w) # ys"
    and "acquire (sem G) (state q) p = Panics s1"
  shows "\<exists>m. check_loop G (Some n) q wakes =
      Some (Unwind (q\<lparr>pins := m, state := s1, poisoned := True\<rparr>, wakes)) \<and>
    ok V m \<and> links V m = xs @ (n, None, w) # ys \<and> removed V m = removed V (pins q)"
  using PL.cursor_protected [OF assms(1,2)] PL.cursor_store [OF assms(1,2), of "(None, w)"] assms(3)
  by (intro exI [of _ "pl_cursor_store (pl G) (pins q) (Some n) (None, w)"])
    (subst check_loop.simps, simp)

lemma check_loop_refuse:
  assumes "ok V (pins q)" and "links V (pins q) = xs @ (n, Some p, w) # ys"
    and "acquire (sem G) (state q) p = Returns s1 (Inl p')"
  shows "\<exists>m. check_loop G (Some n) q wakes = Some (Ret (q\<lparr>pins := m, state := s1\<rparr>, wakes) ()) \<and>
    ok V m \<and> links V m = xs @ (n, Some p', w) # ys \<and> removed V m = removed V (pins q)"
proof -
  define m1 where "m1 = pl_cursor_store (pl G) (pins q) (Some n) (None, w)"
  have "ok V m1" "links V m1 = xs @ (n, None, w) # ys" "removed V m1 = removed V (pins q)"
    using PL.cursor_store [OF assms(1,2), of "(None, w)"] by (simp_all add: m1_def)
  with PL.cursor_store [OF this(1,2), of "(Some p', w)"] PL.cursor_protected [OF assms(1,2)] assms(3)
  show ?thesis
    by (intro exI [of _ "pl_cursor_store (pl G) m1 (Some n) (Some p', w)"])
      (subst check_loop.simps, simp add: m1_def)
qed

lemma check_loop_grant:
  assumes "ok V (pins q)" and "links V (pins q) = xs @ (n, Some p, w) # ys"
    and "acquire (sem G) (state q) p = Returns s1 (Inr a)"
    and "len q = Suc l" and "length (elems wakes) < batch_cap"
  shows "\<exists>m v. check_loop G (Some n) q wakes =
      (if batch_cap \<le> Suc (length (elems wakes))
       then Some (Ret (q\<lparr>state := s1, pins := m, len := l\<rparr>, v) ())
       else check_loop G (head_id ys) (q\<lparr>state := s1, pins := m, len := l\<rparr>) v) \<and>
    ok V m \<and> links V m = xs @ ys \<and> removed V m = (removed V (pins q))(n \<mapsto> Inr a) \<and>
    elems v = elems wakes @ [w]"
proof -
  define m1 where "m1 = pl_cursor_store (pl G) (pins q) (Some n) (None, w)"
  have m1: "ok V m1" "links V m1 = xs @ (n, None, w) # ys" "removed V m1 = removed V (pins q)"
    using PL.cursor_store [OF assms(1,2), of "(None, w)"] by (simp_all add: m1_def)
  from PL.remove_current [OF m1(1,2), of "Inr a"] obtain m where
    rm: "pl_remove_current (pl G) m1 (Some n) (Inr a) = Inr ((None, w), head_id ys, m)"
    and m: "ok V m" "links V m = xs @ ys" "removed V m = (removed V m1)(n \<mapsto> Inr a)"
    by auto
  from AV.av_push [OF assms(5), of w] obtain v where
    v: "av_push (av G) wakes w = Some v" "elems v = elems wakes @ [w]" by blast
  show ?thesis
    using PL.cursor_protected [OF assms(1,2)] rm m m1(3) v assms(3,4)
    by (intro exI [of _ m] exI [of _ v])
      (subst check_loop.simps, simp add: m1_def [symmetric] AV.av_full)
qed

text \<open>After a grant the loop stops with a full batch, or goes on.\<close>

lemma served_grant:
  assumes "ok V (pins q)" and "links V (pins q) = xs @ (n, Some p, w) # ys"
    and "len q = Suc (length xs + length ys)" and "length (elems wakes) < batch_cap"
    and "acquire (sem G) (state q) p = Returns s1 (Inr a)"
    and "serve (acquire (sem G)) (batch_cap - length (elems wakes)) (state q) ((n, Some p, w) # ys) = (s', rest, gs, b)"
    and IH: "\<And>q1 v gs'. ok V (pins q1) \<Longrightarrow> links V (pins q1) = xs @ ys \<Longrightarrow> len q1 = length xs + length ys \<Longrightarrow>
      length (elems v) < batch_cap \<Longrightarrow>
      serve (acquire (sem G)) (batch_cap - length (elems v)) (state q1) ys = (s', rest, gs', b) \<Longrightarrow>
      served_from V elems xs q1 v (s', rest, gs', b) (check_loop G (head_id ys) q1 v)"
  shows "served_from V elems xs q wakes (s', rest, gs, b) (check_loop G (Some n) q wakes)"
proof -
  from check_loop_grant [OF assms(1,2,5,3,4)] obtain m v where
    step: "check_loop G (Some n) q wakes =
      (if batch_cap \<le> Suc (length (elems wakes))
       then Some (Ret (q\<lparr>state := s1, pins := m, len := length xs + length ys\<rparr>, v) ())
       else check_loop G (head_id ys) (q\<lparr>state := s1, pins := m, len := length xs + length ys\<rparr>) v)"
    and m: "ok V m" "links V m = xs @ ys" "removed V m = (removed V (pins q))(n \<mapsto> Inr a)"
    and v: "elems v = elems wakes @ [w]" by blast
  let ?q = "q\<lparr>state := s1, pins := m, len := length xs + length ys\<rparr>"
  show ?thesis
  proof (cases "batch_cap \<le> Suc (length (elems wakes))")
    case True
    then have "batch_cap - length (elems wakes) \<le> 1" by simp
    with assms(5,6) have "s' = s1" "rest = ys" "gs = [(n, a, w)]" "\<not> b" by auto
    moreover have "?q = q\<lparr>pins := m, state := s1, len := length xs + length ys, poisoned := poisoned q\<rparr>"
      by (cases q) simp
    ultimately show ?thesis
      using step True m v by (auto simp: served_from_def intro!: exI [of _ m] exI [of _ v])
  next
    case False
    with v have k: "batch_cap - length (elems v) = batch_cap - length (elems wakes) - 1"
      "\<not> batch_cap - length (elems wakes) \<le> 1" "length (elems v) < batch_cap" by simp_all
    with assms(5,6) obtain gs' where
      srv: "serve (acquire (sem G)) (batch_cap - length (elems v)) (state ?q) ys = (s', rest, gs', b)"
      and gs: "gs = (n, a, w) # gs'"
      by (auto split: prod.splits)
    have "served_from V elems xs ?q v (s', rest, gs', b) (check_loop G (head_id ys) ?q v)"
      using m k(3) srv by (intro IH) simp_all
    moreover have "?q\<lparr>pins := m', state := t, len := l, poisoned := c\<rparr> =
        q\<lparr>pins := m', state := t, len := l, poisoned := c\<rparr>" for m' t l c
      by (cases q) simp
    ultimately show ?thesis using step False m v gs by (auto simp: served_from_def)
  qed
qed

text \<open>The loop of \<open>check\<close> returns, and does to the list from the cursor on what \<open>serve\<close> says.\<close>

lemma check_loop_serve:
  assumes "ok V (pins q)" and "links V (pins q) = xs @ ys" and "len q = length xs + length ys"
    and "length (elems wakes) < batch_cap"
    and "serve (acquire (sem G)) (batch_cap - length (elems wakes)) (state q) ys = (s', rest, gs, b)"
  shows "served_from V elems xs q wakes (s', rest, gs, b) (check_loop G (head_id ys) q wakes)"
  using assms
proof (induction ys arbitrary: xs q wakes s' rest gs b)
  case Nil
  have "q\<lparr>pins := pins q, state := state q\<rparr> = q" by simp
  with served_stop(1) [of V "pins q" xs "[]" q elems wakes "state q"] Nil.prems(1-3)
  have "served_from V elems xs q wakes (state q, [], [], False) (Some (Ret (q, wakes) ()))" by simp
  with Nil.prems(1,5) show ?case by (auto simp: check_loop_end)
next
  case (Cons y ys)
  obtain n prm w where y: "y = (n, prm, w)" by (cases y) auto
  show ?case
  proof (cases prm)
    case None
    with Cons.prems(2) y have lk: "links V (pins q) = xs @ (n, None, w) # ys" by simp
    from Cons.prems(5) y None obtain rest' where
      srv: "serve (acquire (sem G)) (batch_cap - length (elems wakes)) (state q) ys = (s', rest', gs, b)"
      and rest: "rest = (n, None, w) # rest'"
      by (auto split: prod.splits)
    from Cons.IH [OF Cons.prems(1) _ _ Cons.prems(4) srv, of "xs @ [(n, None, w)]"]
    show ?thesis using lk Cons.prems(3) rest y check_loop_skip [OF Cons.prems(1) lk]
      by (simp add: served_from_def)
  next
    case (Some p)
    with Cons.prems(2) y have lk: "links V (pins q) = xs @ (n, Some p, w) # ys" by simp
    show ?thesis
    proof (cases "acquire (sem G) (state q) p" rule: attempt_cases)
      case (panic s1)
      with Cons.prems(5) y Some have "s' = s1" "rest = (n, None, w) # ys" "gs = []" "b" by auto
      with check_loop_panic [OF Cons.prems(1) lk panic, of wakes] Cons.prems(3) y
      show ?thesis by (auto intro!: served_stop)
    next
      case (refuse s1 p')
      with Cons.prems(5) y Some have "s' = s1" "rest = (n, Some p', w) # ys" "gs = []" "\<not> b" by auto
      with check_loop_refuse [OF Cons.prems(1) lk refuse, of wakes] Cons.prems(3) y
      show ?thesis by (auto intro!: served_stop)
    next
      case (grant s1 a)
      from served_grant [OF Cons.prems(1) lk _ Cons.prems(4) grant Cons.prems(5) [unfolded y Some]]
        Cons.IH Cons.prems(3) y Some show ?thesis by simp
    qed
  qed
qed

lemma check_active:
  assumes "queue_inv G V q" and "\<not> poisoned q" and "\<not> closed q"
    and "length (elems wakes) < batch_cap"
    and "serve (acquire (sem G)) (batch_cap - length (elems wakes)) (state q) (links V (pins q)) =
      (s', rest, gs, b)"
  shows "\<exists>m' v'. check G q wakes = Some
      (let q' = q\<lparr>pins := m', state := s', len := length rest, poisoned := poisoned q \<or> b\<rparr>
       in if b then Unwind (q', v') else Ret (q', v') ()) \<and>
    ok V m' \<and> links V m' = rest \<and> removed V m' = park (removed V (pins q)) gs \<and>
    elems v' = elems wakes @ grant_wakers gs"
proof -
  from assms(1) have q: "ok V (pins q)" "len q = length (links V (pins q))"
    by (simp_all add: queue_inv_def)
  have "queue q = Open"
    using assms(1,3) by (cases "queue q") (auto simp: queue_inv_def)
  then have "check G q wakes = check_loop G (head_id (links V (pins q))) q wakes"
    using assms(2,3) PL.cursor_front [OF q(1)] by (simp add: check_def)
  with check_loop_serve [OF q(1) _ _ assms(4,5), of "[]"] q(2) show ?thesis by (simp add: served_from_def)
qed

lemma close_one_empty:
  assumes "queue_inv G V q" and "links V (pins q) = []"
  shows "\<exists>m. close_one G q = Ret (q\<lparr>closed := True, pins := m, queue := Discarded\<rparr>) None \<and>
    ok V m \<and> links V m = [] \<and> removed V m = removed V (pins q)"
proof (cases "queue q")
  case Open
  from assms have q: "ok V (pins q)" "len q = 0" by (simp_all add: queue_inv_def)
  from PL.remove_with_ghost [OF q(1), of "\<lambda>(params, _). Inl params" "Inl None"] obtain m where m:
    "pl_remove_current_with_or (pl G) (pins q) None (\<lambda>(params, _). Inl params) (Inl None) = (None, m)"
    "ok V m" "links V m = []" "removed V m = removed V (pins q)"
    using assms(2) by auto
  with PL.is_empty [OF m(2)] PL.cursor_front [OF q(1)] assms(2) Open q show ?thesis
    by (intro exI [of _ m]) (simp add: close_one_def Let_def)
next
  case Discarded
  with assms show ?thesis
    by (intro exI [of _ "pins q"]) (cases q; simp add: close_one_def queue_inv_def)
qed

lemma close_one_head:
  assumes "queue_inv G V q" and "links V (pins q) = (n, prm, w) # ys"
  shows "\<exists>m. close_one G q = Ret (q\<lparr>closed := True, pins := m, len := length ys,
      queue := if ys = [] then Discarded else Open\<rparr>) (Some w) \<and>
    ok V m \<and> links V m = ys \<and> removed V m = (removed V (pins q))(n \<mapsto> Inl prm)"
proof -
  from assms have q: "ok V (pins q)" "len q = Suc (length ys)" "queue q = Open"
    by (cases "queue q"; simp add: queue_inv_def)+
  from PL.remove_with [OF q(1), of "[]" n "(prm, w)" ys "\<lambda>(params, _). Inl params" "Inl None"] assms(2)
  obtain m where m: "pl_remove_current_with_or (pl G) (pins q) (Some n)
      (\<lambda>(params, _). Inl params) (Inl None) = (Some (prm, w), m)"
    "ok V m" "links V m = ys" "removed V m = (removed V (pins q))(n \<mapsto> Inl prm)"
    by auto
  moreover have "q\<lparr>closed := True, pins := m, len := l\<rparr> =
      q\<lparr>closed := True, pins := m, len := l, queue := Open\<rparr>" for l
    using q(3) by (cases q) simp
  ultimately show ?thesis
    using PL.is_empty [OF m(2)] PL.cursor_front [OF q(1)] assms(2) q
    by (intro exI [of _ m]) (simp add: close_one_def Let_def)
qed

end

section \<open>Facts about the specification\<close>

lemma park_other: "n \<notin> fst ` set gs \<Longrightarrow> park rm gs n = rm n"
  by (induction gs arbitrary: rm) auto

lemma park_grant: "n \<in> fst ` set gs \<Longrightarrow> \<exists>a. park rm gs n = Some (Inr a)"
proof (induction gs arbitrary: rm)
  case (Cons g gs)
  obtain m a w where g: "g = (m, a, w)" by (cases g) auto
  show ?case
  proof (cases "n \<in> fst ` set gs")
    case True
    with Cons.IH g show ?thesis by (metis park.simps(2))
  next
    case False
    with Cons.prems g show ?thesis by (auto simp: park_other)
  qed
qed simp

lemma park_Inl: "park rm gs n = Some (Inl p) \<Longrightarrow> rm n = Some (Inl p)"
  by (metis Inl_Inr_False option.inject park_grant park_other)

text \<open>The waiters that can be served: those whose params are present, with their wakers, in order.\<close>

definition live :: "(nid \<times> ('p, 'w) waiting) list \<Rightarrow> (nid \<times> 'w) list" where
  "live xs = map (\<lambda>(n, _, w). (n, w)) (filter (\<lambda>(_, prm, _). prm \<noteq> None) xs)"

lemma live_simps [simp]:
  "live [] = []" "live ((n, None, w) # xs) = live xs" "live ((n, Some p, w) # xs) = (n, w) # live xs"
  by (simp_all add: live_def)

text \<open>Grants go to the first servable waiters, in order and without overtaking; the others stay, in
  order.\<close>

lemma serve_grants_prefix:
  "serve acq k s xs = (s', rest, gs, b) \<Longrightarrow>
    map (\<lambda>(n, _, w). (n, w)) gs = take (length gs) (live xs) \<and> length gs \<le> max 1 k \<and>
    length xs = length rest + length gs"
  by (induction acq k s xs arbitrary: s' rest gs b rule: serve.induct)
    (fastforce split: call.splits sum.splits prod.splits if_splits)+

lemma live_ids: "map fst (live xs) = map fst (filter (\<lambda>(_, prm, _). prm \<noteq> None) xs)"
  by (induction xs) (auto simp: live_def)

lemma serve_grants_distinct:
  assumes "serve acq k s xs = (s', rest, gs, b)" and "distinct (map fst xs)"
  shows "distinct (map fst gs)"
proof -
  have "map fst gs = map fst (map (\<lambda>(n, _, w). (n, w)) gs)" by auto
  also have "\<dots> = take (length gs) (map fst (live xs))"
    using serve_grants_prefix [OF assms(1)] by (simp add: take_map)
  finally show ?thesis
    using assms(2) by (simp add: live_ids distinct_map_filter distinct_take)
qed

lemma filter_id_fresh: "n \<notin> set ns \<Longrightarrow> filter (\<lambda>m. m \<noteq> n \<and> P m) ns = filter P ns"
  by (induction ns) auto

lemma serve_rest_distinct:
  "serve acq k s xs = (s', rest, gs, b) \<Longrightarrow> distinct (map fst xs) \<Longrightarrow>
    map fst rest = filter (\<lambda>n. n \<notin> fst ` set gs) (map fst xs) \<and> fst ` set gs \<subseteq> ids xs"
proof (induction acq k s xs arbitrary: s' rest gs b rule: serve.induct)
  case (1 acq k s)
  then show ?case by simp
next
  case (2 acq k s n w xs)
  from "2.prems" obtain rest' where "serve acq k s xs = (s', rest', gs, b)"
    and r: "rest = (n, None, w) # rest'" by (auto split: prod.splits)
  with "2.IH" "2.prems"(2)
  have "map fst rest' = filter (\<lambda>n. n \<notin> fst ` set gs) (map fst xs)" "fst ` set gs \<subseteq> ids xs"
    by simp_all
  moreover have "n \<notin> ids xs" using "2.prems"(2) by simp
  ultimately show ?case using r by auto
next
  case (3 acq k s n p w xs)
  consider (stop) "gs = []" "map fst rest = n # map fst xs"
    | (last) a where "gs = [(n, a, w)]" "rest = xs"
    | (more) s1 a gs' where "acq s p = Returns s1 (Inr a)" "\<not> k \<le> 1"
        "serve acq (k - 1) s1 xs = (s', rest, gs', b)" "gs = (n, a, w) # gs'"
    using "3.prems"(1) by (auto split: call.splits sum.splits prod.splits if_splits)
  then show ?case
  proof cases
    case stop
    then show ?thesis by simp
  next
    case last
    with "3.prems"(2) filter_id_fresh [of n "map fst xs" "\<lambda>_. True"] show ?thesis by auto
  next
    case more
    from "3.IH" [OF more(1) refl more(2,3)] "3.prems"(2)
    have "map fst rest = filter (\<lambda>n. n \<notin> fst ` set gs') (map fst xs)" "fst ` set gs' \<subseteq> ids xs"
      by simp_all
    with more(4) "3.prems"(2) filter_id_fresh [of n "map fst xs" "\<lambda>m. m \<notin> fst ` set gs'"]
    show ?thesis by auto
  qed
qed

section \<open>One locked round in full\<close>

context queue_deps
begin

lemma waiters_distinct: "queue_inv G V q \<Longrightarrow> distinct (map fst (links V (pins q)))"
  using PL.links_distinct by (simp add: queue_inv_def)

lemma check_idle:
  assumes "queue_inv G V q" and "poisoned q \<or> closed q"
  shows "check G q wakes = Some (Ret (q, wakes) ())"
  using assms by (auto simp: check_def queue_inv_def)

text \<open>Everything there is to say about \<open>check\<close>: it returns or unwinds, never with undefined behaviour,
  keeps the invariant, and leaves the list, the nodes and the batch as \<open>serve\<close> says, or as they were
  when the queue is poisoned or closed.\<close>

lemma check_result:
  assumes "queue_inv G V q" and "length (elems wakes) < batch_cap"
  obtains q' v' gs b where
    "check G q wakes = Some (if b then Unwind (q', v') else Ret (q', v') ())"
    "queue_inv G V q'"
    "removed V (pins q') = park (removed V (pins q)) gs"
    "elems v' = elems wakes @ grant_wakers gs"
    "poisoned q' = (poisoned q \<or> b)" "closed q' = closed q" "queue q' = queue q" "order q' = order q"
    "if poisoned q \<or> closed q then q' = q \<and> gs = [] \<and> \<not> b
     else serve (acquire (sem G)) (batch_cap - length (elems wakes)) (state q) (links V (pins q)) =
       (state q', links V (pins q'), gs, b)"
proof (cases "poisoned q \<or> closed q")
  case True
  with check_idle [OF assms(1) True] that [of False q wakes "[]"] assms(1) show ?thesis by simp
next
  case False
  obtain s' rest gs b where srv:
    "serve (acquire (sem G)) (batch_cap - length (elems wakes)) (state q) (links V (pins q)) =
      (s', rest, gs, b)" by (metis prod_cases4)
  from check_active [OF assms(1) _ _ assms(2) srv] False obtain m' v' where
    c: "check G q wakes = Some
      (let q' = q\<lparr>pins := m', state := s', len := length rest, poisoned := poisoned q \<or> b\<rparr>
       in if b then Unwind (q', v') else Ret (q', v') ())"
    and m: "ok V m'" "links V m' = rest" "removed V m' = park (removed V (pins q)) gs"
    and v: "elems v' = elems wakes @ grant_wakers gs" by auto
  let ?q = "q\<lparr>pins := m', state := s', len := length rest, poisoned := poisoned q \<or> b\<rparr>"
  have "queue_inv G V ?q"
    using assms(1) m False by (auto simp: queue_inv_def dest: park_Inl)
  then show ?thesis
    using that [of b ?q v' gs] c m v False srv by (simp add: Let_def)
qed

lemma check_total:
  assumes "queue_inv G V q" and "length (elems wakes) < batch_cap"
  shows "\<exists>x. check G q wakes = Some x \<and> exec_all (\<lambda>(q', _). queue_inv G V q') x \<and> x \<noteq> Abort"
  using assms by (rule check_result) auto

text \<open>Closing one waiter keeps the invariant and hands back the waker of the node it removed.\<close>

lemma close_one_result:
  assumes "queue_inv G V q" and "CLOSE (mode G)"
  obtains q' where
    "close_one G q = Ret q' (case links V (pins q) of [] \<Rightarrow> None | (_, _, w) # _ \<Rightarrow> Some w)"
    "queue_inv G V q'" "closed q'" "state q' = state q" "poisoned q' = poisoned q" "order q' = order q"
    "links V (pins q') = tl (links V (pins q))"
    "removed V (pins q') = (case links V (pins q) of [] \<Rightarrow> removed V (pins q)
      | (n, prm, _) # _ \<Rightarrow> (removed V (pins q))(n \<mapsto> Inl prm))"
    "queue q' = (if tl (links V (pins q)) = [] then Discarded else Open)"
proof (cases "links V (pins q)")
  case Nil
  from close_one_empty [OF assms(1) Nil] obtain m where
    c: "close_one G q = Ret (q\<lparr>closed := True, pins := m, queue := Discarded\<rparr>) None"
    and m: "ok V m" "links V m = []" "removed V m = removed V (pins q)" by blast
  then have "queue_inv G V (q\<lparr>closed := True, pins := m, queue := Discarded\<rparr>)"
    using assms Nil by (simp add: queue_inv_def)
  with that c m Nil show ?thesis by simp
next
  case (Cons x ys)
  obtain n prm w where x: "x = (n, prm, w)" by (cases x) auto
  let ?q = "\<lambda>m. q\<lparr>closed := True, pins := m, len := length ys,
      queue := if ys = [] then Discarded else Open\<rparr>"
  from close_one_head [OF assms(1) Cons [unfolded x]] obtain m where
    c: "close_one G q = Ret (?q m) (Some w)"
    and m: "ok V m" "links V m = ys" "removed V m = (removed V (pins q))(n \<mapsto> Inl prm)" by blast
  then have "queue_inv G V (?q m)"
    using assms by (simp add: queue_inv_def)
  with that [of "?q m"] c m Cons x show ?thesis by simp
qed

lemma new_queue_inv: "queue_inv G V (new_queue G s ord)"
  by (simp add: queue_inv_def new_queue_def PL.new)

end

section \<open>The reference dependencies\<close>

text \<open>A queue over the reference instances of \<open>pin-list\<close> and \<open>arrayvec\<close>, on which examples can be run.\<close>

definition plain_generics :: "('s, 'p, 'a) semaphore_state \<Rightarrow> 'o order_policy \<Rightarrow> close_mode \<Rightarrow>
    ((('p, 'w) waiting, ('p, 'a) removal) plain_list, 'w list, 's, 'p, 'a, 'o, 'w) generics" where
  "plain_generics S pol c = \<lparr>pl = plain_pin_list, av = plain_array_vec, sem = S, policy = pol, mode = c\<rparr>"

lemma plain_generics_simps [simp]:
  "pl (plain_generics S pol c) = plain_pin_list" "av (plain_generics S pol c) = plain_array_vec"
  "sem (plain_generics S pol c) = S" "policy (plain_generics S pol c) = pol"
  "mode (plain_generics S pol c) = c"
  by (simp_all add: plain_generics_def)

interpretation plain_queue: queue_deps "plain_generics S pol c" plain_view "\<lambda>v. v" for S pol c
  by (simp add: queue_deps_def plain.pin_list_laws_axioms plain_vec.array_vec_laws_axioms)

end
