(* ===== verification/Acquire_Future.thy ===== *)
theory Acquire_Future
  imports Queue_State
begin

text \<open>
  flag-bearer-queue/src/acquire.rs: the attempt to take a permit, the future \<open>Acquire\<close> that waits for
  one, and what dropping that future does to the queue. Each function here is what runs between one
  \<open>lock()\<close> of the mutex and its release.
\<close>

section \<open>The acquisition attempt\<close>

datatype ('p, 'a) outcome =
    Acquired 'a
  | Closed "'p acquire_error"
  | Poisoned 'p
  | Enqueue bool 'p

text \<open>\<open>Outcome::Closed(C::new_err(params))\<close>, which panics for an uncloseable queue.\<close>

definition closed_outcome ::
  "close_mode \<Rightarrow> 'p \<Rightarrow> ('m, 's, 'o) queue_state \<Rightarrow> (('m, 's, 'o) queue_state, ('p, 'a) outcome) exec" where
  "closed_outcome c p q = (case new_err c p of Ret _ e \<Rightarrow> Ret q (Closed e) | _ \<Rightarrow> Unwind q)"

definition acquire_or_enqueue ::
  "('m, 'v, 's, 'p, 'a, 'o, 'w) generics \<Rightarrow> 'p \<Rightarrow> bool \<Rightarrow> ('m, 's, 'o) queue_state
    \<Rightarrow> (('m, 's, 'o) queue_state, ('p, 'a) outcome) exec" where
  "acquire_or_enqueue G p fair q =
    (if poisoned q then Ret q (Poisoned p)
     else if CLOSE (mode G) \<and> closed q then closed_outcome (mode G) p q
     else case queue q of
       Discarded \<Rightarrow> closed_outcome (mode G) p q
     | Open \<Rightarrow>
       (let empty = pl_is_empty (pl G) (pins q)
        in case (if fair then policy G (order q) (len q) else Returns (order q) True) of
          Panics ord \<Rightarrow> Unwind (q\<lparr>order := ord\<rparr>)
        | Returns ord front \<Rightarrow>
          (let q1 = q\<lparr>order := ord\<rparr>
           in if \<not> (front \<or> empty) then Ret q1 (Enqueue front p)
              else case guarded q1 (acquire (sem G) (state q1) p) of
                Panics q2 \<Rightarrow> Unwind q2
              | Returns q2 (Inr permit) \<Rightarrow> Ret q2 (Acquired permit)
              | Returns q2 (Inl p') \<Rightarrow> Ret q2 (Enqueue front p'))))"

datatype 'p try_acquire_error =
    NoPermits 'p
  | TryClosed "'p acquire_error"
  | TryPoisoned 'p

definition try_acquire ::
  "('m, 'v, 's, 'p, 'a, 'o, 'w) generics \<Rightarrow> 'p \<Rightarrow> bool \<Rightarrow> ('m, 's, 'o) queue_state
    \<Rightarrow> (('m, 's, 'o) queue_state, 'p try_acquire_error + 'a) exec" where
  "try_acquire G p fair q = (case acquire_or_enqueue G p fair q of
     Ret q' (Acquired permit) \<Rightarrow> Ret q' (Inr permit)
   | Ret q' (Closed err) \<Rightarrow> Ret q' (Inl (TryClosed err))
   | Ret q' (Poisoned p') \<Rightarrow> Ret q' (Inl (TryPoisoned p'))
   | Ret q' (Enqueue _ p') \<Rightarrow> Ret q' (Inl (NoPermits p'))
   | Unwind q' \<Rightarrow> Unwind q'
   | Abort \<Rightarrow> Abort
   | UB \<Rightarrow> UB)"

text \<open>\<open>Display\<close> of the two errors.\<close>

fun try_acquire_error_display :: "'p try_acquire_error \<Rightarrow> string" where
  "try_acquire_error_display (TryClosed _) = ''semaphore closed''"
| "try_acquire_error_display (NoPermits _) = ''no permits available''"
| "try_acquire_error_display (TryPoisoned _) = ''semaphore poisoned''"

fun acquire_error_display :: "'p acquire_error \<Rightarrow> string" where
  "acquire_error_display (AcquireError _) = ''semaphore closed''"

section \<open>The future\<close>

text \<open>The struct \<open>Acquire\<close>: the identity of its pinned node, and the params until the first poll takes
  them. \<open>SemaphoreQueue::acquire\<close> only builds it.\<close>

record 'p acquire_future =
  fut_node :: nid
  fut_params :: "'p option"

definition queue_acquire :: "nid \<Rightarrow> 'p \<Rightarrow> 'p acquire_future" where
  "queue_acquire n p = \<lparr>fut_node = n, fut_params = Some p\<rparr>"

text \<open>The first poll: take the params, try, and join the list at the end the order chose.\<close>

definition poll_first ::
  "('m, 'v, 's, 'p, 'a, 'o, 'w) generics \<Rightarrow> 'w \<Rightarrow> 'p acquire_future \<Rightarrow> ('m, 's, 'o) queue_state
    \<Rightarrow> (('m, 's, 'o) queue_state \<times> 'p acquire_future, ('p acquire_error + 'a) poll) exec" where
  "poll_first G cx fut q =
    (case fut_params fut of
      None \<Rightarrow> Unwind (q, fut)
    | Some p \<Rightarrow>
      (let fut1 = fut\<lparr>fut_params := None\<rparr>; node = fut_node fut
       in case acquire_or_enqueue G p True q of
         Ret q1 (Acquired permit) \<Rightarrow> Ret (q1, fut1) (Ready (Inr permit))
       | Ret q1 (Closed err) \<Rightarrow> Ret (q1, fut1) (Ready (Inl err))
       | Ret q1 (Poisoned _) \<Rightarrow> Unwind (q1, fut1)
       | Ret q1 (Enqueue front p') \<Rightarrow>
         (case queue q1 of
           Discarded \<Rightarrow> UB
         | Open \<Rightarrow>
           (let m = (if front then pl_push_front (pl G) (pins q1) node (Some p', cx)
                     else pl_push_back (pl G) (pins q1) node (Some p', cx))
            in Ret (q1\<lparr>pins := m, len := len q1 + 1\<rparr>, fut1) Pending))
       | Unwind q1 \<Rightarrow> Unwind (q1, fut1)
       | Abort \<Rightarrow> Abort
       | UB \<Rightarrow> UB))"

text \<open>
  Taking the result out of a removed node: the permit, or the error of the closed queue with the
  params; \<open>expect\<close> panics where the params were lost.
\<close>

definition poll_removed ::
  "('m, 'v, 's, 'p, 'a, 'o, 'w) generics \<Rightarrow> 'p acquire_future \<Rightarrow> ('m, 's, 'o) queue_state
    \<Rightarrow> (('m, 's, 'o) queue_state \<times> 'p acquire_future, ('p acquire_error + 'a) poll) exec" where
  "poll_removed G fut q =
    (case pl_take_removed (pl G) (pins q) (fut_node fut) of
      None \<Rightarrow> UB
    | Some (permit, m) \<Rightarrow>
      (let q1 = q\<lparr>pins := m\<rparr>
       in case permit of
         Inr a \<Rightarrow> Ret (q1, fut) (Ready (Inr a))
       | Inl e \<Rightarrow> (case map_err (mode G) e (\<lambda>params. params) of
           Ret _ err \<Rightarrow> Ret (q1, fut) (Ready (Inl err))
         | Unwind _ \<Rightarrow> Unwind (q1, fut)
         | Abort \<Rightarrow> Abort
         | UB \<Rightarrow> UB)))"

text \<open>The rest of \<open>poll\<close> for an initialised node: a linked node only gets the new waker.\<close>

definition poll_waiting ::
  "('m, 'v, 's, 'p, 'a, 'o, 'w) generics \<Rightarrow> 'w \<Rightarrow> 'p acquire_future \<Rightarrow> ('m, 's, 'o) queue_state
    \<Rightarrow> (('m, 's, 'o) queue_state \<times> 'p acquire_future, ('p acquire_error + 'a) poll) exec" where
  "poll_waiting G cx fut q =
    (case (case queue q of Open \<Rightarrow> pl_node_protected (pl G) (pins q) (fut_node fut) | Discarded \<Rightarrow> None) of
      Some (prm, _) \<Rightarrow>
        Ret (q\<lparr>pins := pl_node_store (pl G) (pins q) (fut_node fut) (prm, cx)\<rparr>, fut) Pending
    | None \<Rightarrow> poll_removed G fut q)"

text \<open>\<open>Future::poll\<close>. Once the queue is closed, a node that is still linked leaves by itself.\<close>

definition poll ::
  "('m, 'v, 's, 'p, 'a, 'o, 'w) generics \<Rightarrow> 'w \<Rightarrow> 'p acquire_future \<Rightarrow> ('m, 's, 'o) queue_state
    \<Rightarrow> (('m, 's, 'o) queue_state \<times> 'p acquire_future, ('p acquire_error + 'a) poll) exec" where
  "poll G cx fut q =
    (if \<not> pl_initialized (pl G) (pins q) (fut_node fut) then poll_first G cx fut q
     else if CLOSE (mode G) \<and> closed q \<and> queue q = Open then
       (case pl_unlink (pl G) (pins q) (fut_node fut) of
         Some ((prm, _), m) \<Rightarrow>
           if len q = 0 then Unwind (q\<lparr>pins := m\<rparr>, fut)
           else
             (let q1 = q\<lparr>pins := m, len := len q - 1\<rparr>
              in case prm of
                None \<Rightarrow> Unwind (q1, fut)
              | Some p \<Rightarrow> (case new_err (mode G) p of
                  Ret _ err \<Rightarrow> Ret (q1, fut) (Ready (Inl err))
                | _ \<Rightarrow> Unwind (q1, fut)))
       | None \<Rightarrow> poll_waiting G cx fut q)
     else poll_waiting G cx fut q)"

section \<open>Dropping the future\<close>

text \<open>Giving a permit back, \<open>state.update_state(|state| state.release(permit))\<close>.\<close>

definition release_permit ::
  "('m, 'v, 's, 'p, 'a, 'o, 'w) generics \<Rightarrow> 'a \<Rightarrow> ('m, 's, 'o) queue_state
    \<Rightarrow> (('m, 's, 'o) queue_state, unit) exec" where
  "release_permit G permit q = update_state (\<lambda>s. release (sem G) s permit) q"

text \<open>
  The closure that \<open>PinnedDrop\<close> runs under the mutex for an initialised node. It returns the
  abandoned node data, which is dropped after the mutex is released.
\<close>

type_synonym ('p, 'a, 'w) abandoned = "(('p, 'w) waiting, ('p, 'a) removal) node_data option"

definition release_then_none ::
  "('m, 'v, 's, 'p, 'a, 'o, 'w) generics \<Rightarrow> 'a \<Rightarrow> ('m, 's, 'o) queue_state
    \<Rightarrow> (('m, 's, 'o) queue_state, ('p, 'a, 'w) abandoned) exec" where
  "release_then_none G permit q = (case release_permit G permit q of
     Ret q' _ \<Rightarrow> Ret q' None
   | Unwind q' \<Rightarrow> Unwind q'
   | Abort \<Rightarrow> Abort
   | UB \<Rightarrow> UB)"

definition drop_node ::
  "('m, 'v, 's, 'p, 'a, 'o, 'w) generics \<Rightarrow> nid \<Rightarrow> ('m, 's, 'o) queue_state
    \<Rightarrow> (('m, 's, 'o) queue_state, ('p, 'a, 'w) abandoned) exec" where
  "drop_node G node q =
    (case queue q of
      Open \<Rightarrow>
        (case pl_reset (pl G) (pins q) node of
          (Removed (Inr permit), m) \<Rightarrow> release_then_none G permit (q\<lparr>pins := m\<rparr>)
        | (Linked d, m) \<Rightarrow>
            if len q = 0 then Unwind (q\<lparr>pins := m\<rparr>)
            else Ret (q\<lparr>pins := m, len := len q - 1\<rparr>) (Some (Linked d))
        | (Removed (Inl e), m) \<Rightarrow> Ret (q\<lparr>pins := m\<rparr>) (Some (Removed (Inl e))))
    | Discarded \<Rightarrow>
        (case pl_take_removed (pl G) (pins q) node of
          None \<Rightarrow> UB
        | Some (Inr permit, m) \<Rightarrow> release_then_none G permit (q\<lparr>pins := m\<rparr>)
        | Some (Inl e, m) \<Rightarrow> Ret (q\<lparr>pins := m\<rparr>) (Some (Removed (Inl e)))))"

section \<open>What the attempt does\<close>

text \<open>The fields an attempt never writes.\<close>

definition same_list :: "('m, 's, 'o) queue_state \<Rightarrow> ('m, 's, 'o) queue_state \<Rightarrow> bool" where
  "same_list q q' \<longleftrightarrow> pins q' = pins q \<and> queue q' = queue q \<and> closed q' = closed q \<and> len q' = len q"

lemma same_list_refl [simp]: "same_list q q"
  by (simp add: same_list_def)

lemma same_list_upd [simp]:
  "same_list q (q'\<lparr>state := s\<rparr>) = same_list q q'" "same_list q (q'\<lparr>order := ord\<rparr>) = same_list q q'"
  "same_list q (q'\<lparr>poisoned := b\<rparr>) = same_list q q'"
  by (simp_all add: same_list_def)

lemma same_list_inv: "same_list q q' \<Longrightarrow> queue_inv G V q \<Longrightarrow> queue_inv G V q'"
  by (simp add: same_list_def queue_inv_def)

lemma guarded_same_list: "guarded q c = Returns q' r \<Longrightarrow> same_list q q'"
  "guarded q c = Panics q' \<Longrightarrow> same_list q q'"
  by (cases c; auto)+

context queue_deps
begin

lemma open_queue: "queue_inv G V q \<Longrightarrow> \<not> closed q \<Longrightarrow> queue q = Open"
  by (cases "queue q") (auto simp: queue_inv_def)

lemma acquire_poisoned: "poisoned q \<Longrightarrow> acquire_or_enqueue G p fair q = Ret q (Poisoned p)"
  by (simp add: acquire_or_enqueue_def)

lemma acquire_closed:
  "queue_inv G V q \<Longrightarrow> \<not> poisoned q \<Longrightarrow> closed q \<Longrightarrow>
    acquire_or_enqueue G p fair q = Ret q (Closed (AcquireError p))"
  by (auto simp: acquire_or_enqueue_def closed_outcome_def queue_inv_def new_err_CLOSE)

lemma acquire_open:
  assumes "queue_inv G V q" and "\<not> poisoned q" and "\<not> closed q"
  shows "acquire_or_enqueue G p fair q =
    (case (if fair then policy G (order q) (len q) else Returns (order q) True) of
      Panics ord \<Rightarrow> Unwind (q\<lparr>order := ord\<rparr>)
    | Returns ord front \<Rightarrow>
        (if \<not> front \<and> links V (pins q) \<noteq> [] then Ret (q\<lparr>order := ord\<rparr>) (Enqueue front p)
         else case acquire (sem G) (state q) p of
           Panics s \<Rightarrow> Unwind (q\<lparr>order := ord, state := s, poisoned := True\<rparr>)
         | Returns s (Inr a) \<Rightarrow> Ret (q\<lparr>order := ord, state := s\<rparr>) (Acquired a)
         | Returns s (Inl p') \<Rightarrow> Ret (q\<lparr>order := ord, state := s\<rparr>) (Enqueue front p')))"
proof -
  have "pl_is_empty (pl G) (pins q) \<longleftrightarrow> links V (pins q) = []"
    using assms(1) PL.is_empty by (simp add: queue_inv_def)
  with open_queue [OF assms(1,3)] assms(2,3) show ?thesis
    by (auto simp: acquire_or_enqueue_def Let_def split: call.splits sum.splits)
qed

text \<open>The attempt returns or unwinds, leaves the list alone, and says which case it was.\<close>

lemma acquire_or_enqueue_result:
  assumes "queue_inv G V q"
  obtains
    (poisoned) "acquire_or_enqueue G p fair q = Ret q (Poisoned p)" "poisoned q"
  | (closed) "acquire_or_enqueue G p fair q = Ret q (Closed (AcquireError p))"
      "\<not> poisoned q" "closed q"
  | (acquired) q' a where "acquire_or_enqueue G p fair q = Ret q' (Acquired a)" "same_list q q'"
      "\<not> poisoned q" "\<not> poisoned q'" "\<not> closed q"
      "acquire (sem G) (state q) p = Returns (state q') (Inr a)"
  | (refused) q' front p' where "acquire_or_enqueue G p fair q = Ret q' (Enqueue front p')"
      "same_list q q'" "\<not> poisoned q" "\<not> poisoned q'" "\<not> closed q" "front \<or> links V (pins q) = []"
      "acquire (sem G) (state q) p = Returns (state q') (Inl p')"
      "fair \<longrightarrow> policy G (order q) (len q) = Returns (order q') front"
  | (queued) q' where "acquire_or_enqueue G p fair q = Ret q' (Enqueue False p)" "same_list q q'"
      "\<not> poisoned q" "\<not> poisoned q'" "\<not> closed q" "links V (pins q) \<noteq> []" "state q' = state q"
      "fair \<longrightarrow> policy G (order q) (len q) = Returns (order q') False"
  | (unwound) q' where "acquire_or_enqueue G p fair q = Unwind q'" "same_list q q'"
      "\<not> poisoned q" "\<not> closed q"
      "state q' = state q \<and> \<not> poisoned q' \<or> acquire (sem G) (state q) p = Panics (state q') \<and> poisoned q'"
proof (cases "poisoned q \<or> closed q")
  case True
  then show ?thesis
    using acquire_poisoned [of q p fair] acquire_closed [OF assms, of p fair] poisoned closed by blast
next
  case False
  show ?thesis
  proof (cases "if fair then policy G (order q) (len q) else Returns (order q) True")
    case (Panics ord)
    with acquire_open [OF assms, of p fair] False unwound [of "q\<lparr>order := ord\<rparr>"] show ?thesis by simp
  next
    case (Returns ord front)
    then have pol: "fair \<longrightarrow> policy G (order q) (len q) = Returns ord front" by auto
    show ?thesis
    proof (cases "\<not> front \<and> links V (pins q) \<noteq> []")
      case True
      with acquire_open [OF assms, of p fair] False Returns pol queued [of "q\<lparr>order := ord\<rparr>"]
      show ?thesis by (cases fair) simp_all
    next
      case leader: False
      show ?thesis
      proof (cases "acquire (sem G) (state q) p" rule: attempt_cases)
        case (panic s)
        with acquire_open [OF assms, of p fair] False Returns leader
          unwound [of "q\<lparr>order := ord, state := s, poisoned := True\<rparr>"]
        show ?thesis by auto
      next
        case (refuse s p')
        with acquire_open [OF assms, of p fair] False Returns leader pol
          refused [of "q\<lparr>order := ord, state := s\<rparr>" front p']
        show ?thesis by auto
      next
        case (grant s a)
        with acquire_open [OF assms, of p fair] False Returns leader
          acquired [of "q\<lparr>order := ord, state := s\<rparr>" a]
        show ?thesis by auto
      qed
    qed
  qed
qed

section \<open>What a poll does\<close>

lemma initialized_iff:
  "queue_inv G V q \<Longrightarrow> pl_initialized (pl G) (pins q) n \<longleftrightarrow>
    n \<in> ids (links V (pins q)) \<or> removed V (pins q) n \<noteq> None"
  using PL.initialized by (simp add: queue_inv_def)

lemma linked_not_removed: "queue_inv G V q \<Longrightarrow> n \<in> ids (links V (pins q)) \<Longrightarrow> removed V (pins q) n = None"
  using PL.removed_not_linked [of "pins q" n] by (cases "removed V (pins q) n") (simp_all add: queue_inv_def)

lemma poll_removed_result:
  assumes "queue_inv G V q" and "removed V (pins q) (fut_node fut) = Some r"
  obtains m where
    "poll_removed G fut q = (case r of
       Inr a \<Rightarrow> Ret (q\<lparr>pins := m\<rparr>, fut) (Ready (Inr a))
     | Inl None \<Rightarrow> Unwind (q\<lparr>pins := m\<rparr>, fut)
     | Inl (Some p) \<Rightarrow> Ret (q\<lparr>pins := m\<rparr>, fut) (Ready (Inl (AcquireError p))))"
    "queue_inv G V (q\<lparr>pins := m\<rparr>)" "links V m = links V (pins q)"
    "removed V m = (removed V (pins q))(fut_node fut := None)"
proof -
  from assms(1) have q: "ok V (pins q)" by (simp add: queue_inv_def)
  from PL.take_removed [OF q assms(2)] obtain m where
    m: "pl_take_removed (pl G) (pins q) (fut_node fut) = Some (r, m)" "ok V m"
      "links V m = links V (pins q)" "removed V m = (removed V (pins q))(fut_node fut := None)" by blast
  have "CLOSE (mode G)" if "r = Inl e" for e
    using assms that by (auto simp: queue_inv_def)
  with m have "poll_removed G fut q = (case r of
       Inr a \<Rightarrow> Ret (q\<lparr>pins := m\<rparr>, fut) (Ready (Inr a))
     | Inl None \<Rightarrow> Unwind (q\<lparr>pins := m\<rparr>, fut)
     | Inl (Some p) \<Rightarrow> Ret (q\<lparr>pins := m\<rparr>, fut) (Ready (Inl (AcquireError p))))"
    by (auto simp: poll_removed_def Let_def map_err_CLOSE split: sum.splits option.splits)
  moreover have "queue_inv G V (q\<lparr>pins := m\<rparr>)"
    using assms(1) m by (auto simp: queue_inv_def)
  ultimately show ?thesis using that m by blast
qed

lemma poll_removed_eq:
  assumes "queue_inv G V q" and "removed V (pins q) (fut_node fut) = Some r"
  shows "poll G cx fut q = poll_removed G fut q"
proof -
  from assms(1) have q: "ok V (pins q)" by (simp add: queue_inv_def)
  have n: "fut_node fut \<notin> ids (links V (pins q))"
    by (rule PL.removed_not_linked [OF q assms(2)])
  then have "pl_node_protected (pl G) (pins q) (fut_node fut) = None"
    using PL.node_protected [OF q] by (simp add: map_of_eq_None_iff)
  then have "poll_waiting G cx fut q = poll_removed G fut q"
    by (cases "queue q") (simp_all add: poll_waiting_def)
  then show ?thesis
    using assms initialized_iff [OF assms(1)] PL.unlink_removed [OF q n] by (simp add: poll_def)
qed

lemma poll_linked_open:
  assumes "queue_inv G V q" and "links V (pins q) = xs @ (fut_node fut, prm, w) # ys" and "\<not> closed q"
  obtains m where "poll G cx fut q = Ret (q\<lparr>pins := m\<rparr>, fut) Pending"
    "queue_inv G V (q\<lparr>pins := m\<rparr>)" "links V m = xs @ (fut_node fut, prm, cx) # ys"
    "removed V m = removed V (pins q)"
proof -
  from assms(1) have q: "ok V (pins q)" by (simp add: queue_inv_def)
  let ?m = "pl_node_store (pl G) (pins q) (fut_node fut) (prm, cx)"
  have "pl_node_protected (pl G) (pins q) (fut_node fut) = Some (prm, w)"
    using PL.node_protected [OF q] PL.links_distinct [OF q] assms(2) map_of_mid by simp
  then have "poll G cx fut q = Ret (q\<lparr>pins := ?m\<rparr>, fut) Pending"
    using assms initialized_iff [OF assms(1)] open_queue [OF assms(1,3)]
    by (simp add: poll_def poll_waiting_def)
  moreover note st = PL.node_store [OF q assms(2), of "(prm, cx)"]
  moreover have "queue_inv G V (q\<lparr>pins := ?m\<rparr>)"
    using assms(1,2) st by (auto simp: queue_inv_def)
  ultimately show ?thesis using that [of ?m] by blast
qed

lemma poll_linked_closed:
  assumes "queue_inv G V q" and "links V (pins q) = xs @ (fut_node fut, prm, w) # ys" and "closed q"
  obtains m where
    "poll G cx fut q = (case prm of
       Some p \<Rightarrow> Ret (q\<lparr>pins := m, len := len q - 1\<rparr>, fut) (Ready (Inl (AcquireError p)))
     | None \<Rightarrow> Unwind (q\<lparr>pins := m, len := len q - 1\<rparr>, fut))"
    "queue_inv G V (q\<lparr>pins := m, len := len q - 1\<rparr>)" "links V m = xs @ ys"
    "removed V m = removed V (pins q)"
proof -
  from assms have q: "ok V (pins q)" "len q = length xs + Suc (length ys)" "CLOSE (mode G)"
    "queue q = Open"
    by (cases "queue q"; simp add: queue_inv_def)+
  from PL.unlink [OF q(1) assms(2)] obtain m where
    m: "pl_unlink (pl G) (pins q) (fut_node fut) = Some ((prm, w), m)" "ok V m"
      "links V m = xs @ ys" "removed V m = removed V (pins q)" by blast
  have "poll G cx fut q = (case prm of
       Some p \<Rightarrow> Ret (q\<lparr>pins := m, len := len q - 1\<rparr>, fut) (Ready (Inl (AcquireError p)))
     | None \<Rightarrow> Unwind (q\<lparr>pins := m, len := len q - 1\<rparr>, fut))"
    using m q assms initialized_iff [OF assms(1)]
    by (simp add: poll_def Let_def new_err_CLOSE split: option.splits)
  moreover have "queue_inv G V (q\<lparr>pins := m, len := len q - 1\<rparr>)"
    using assms(1,3) m q by (auto simp: queue_inv_def)
  ultimately show ?thesis using that m by blast
qed

text \<open>A first poll that joins the list.\<close>

lemma poll_push:
  assumes "queue_inv G V q" and "\<not> closed q"
    and "n \<notin> ids (links V (pins q))" and "removed V (pins q) n = None"
  shows "queue_inv G V (q\<lparr>pins := if front then pl_push_front (pl G) (pins q) n d
      else pl_push_back (pl G) (pins q) n d, len := len q + 1\<rparr>) \<and>
    links V (if front then pl_push_front (pl G) (pins q) n d else pl_push_back (pl G) (pins q) n d) =
      (if front then (n, d) # links V (pins q) else links V (pins q) @ [(n, d)]) \<and>
    removed V (if front then pl_push_front (pl G) (pins q) n d else pl_push_back (pl G) (pins q) n d) =
      removed V (pins q)"
  using assms PL.push_front [of "pins q" n d] PL.push_back [of "pins q" n d] open_queue
  by (auto simp: queue_inv_def)

text \<open>When the attempt says so, the poll puts the node where the policy wants it.\<close>

lemma poll_first_joins:
  assumes "queue_inv G V q" and "fut_params fut = Some p"
    and "fut_node fut \<notin> ids (links V (pins q))" and "removed V (pins q) (fut_node fut) = None"
    and "acquire_or_enqueue G p True q = Ret q1 (Enqueue front p')" and "same_list q q1" and "\<not> closed q"
  obtains q' where "poll_first G cx fut q = Ret (q', fut\<lparr>fut_params := None\<rparr>) Pending" "queue_inv G V q'"
    "links V (pins q') = (if front then (fut_node fut, Some p', cx) # links V (pins q)
       else links V (pins q) @ [(fut_node fut, Some p', cx)])"
    "removed V (pins q') = removed V (pins q)"
    "state q' = state q1" "poisoned q' = poisoned q1" "closed q' = closed q1" "order q' = order q1"
proof -
  let ?d = "(Some p', cx)"
  let ?m = "if front then pl_push_front (pl G) (pins q1) (fut_node fut) ?d
     else pl_push_back (pl G) (pins q1) (fut_node fut) ?d"
  have q1: "queue_inv G V q1" "\<not> closed q1" "pins q1 = pins q"
    using same_list_inv [OF assms(6,1)] assms(6,7) by (simp_all add: same_list_def)
  show thesis
    by (rule that [of "q1\<lparr>pins := ?m, len := len q1 + 1\<rparr>"])
      (use poll_push [OF q1(1,2), of "fut_node fut" front ?d] q1 assms(2-5) open_queue [OF q1(1,2)]
        in \<open>simp_all add: poll_first_def Let_def\<close>)
qed

lemma poll_first_result:
  assumes "queue_inv G V q" and "\<not> pl_initialized (pl G) (pins q) (fut_node fut)"
    and "fut_params fut = Some p"
  defines "fut1 \<equiv> fut\<lparr>fut_params := None\<rparr>"
  obtains
    (refused) "poll G cx fut q = Unwind (q, fut1)" "poisoned q"
  | (closed) "poll G cx fut q = Ret (q, fut1) (Ready (Inl (AcquireError p)))" "closed q" "\<not> poisoned q"
  | (acquired) q' a where "poll G cx fut q = Ret (q', fut1) (Ready (Inr a))" "same_list q q'"
      "\<not> poisoned q" "\<not> poisoned q'" "\<not> closed q"
      "acquire (sem G) (state q) p = Returns (state q') (Inr a)"
  | (unwound) q' where "poll G cx fut q = Unwind (q', fut1)" "same_list q q'"
      "\<not> poisoned q" "\<not> closed q"
      "state q' = state q \<and> \<not> poisoned q' \<or> acquire (sem G) (state q) p = Panics (state q') \<and> poisoned q'"
  | (joined) q' front p' where "poll G cx fut q = Ret (q', fut1) Pending"
      "queue_inv G V q'" "\<not> poisoned q" "\<not> closed q" "poisoned q' = poisoned q"
      "closed q' = closed q"
      "links V (pins q') = (if front then (fut_node fut, Some p', cx) # links V (pins q)
         else links V (pins q) @ [(fut_node fut, Some p', cx)])"
      "removed V (pins q') = removed V (pins q)"
      "acquire (sem G) (state q) p = Returns (state q') (Inl p') \<and> (front \<or> links V (pins q) = []) \<or>
       state q' = state q \<and> p' = p \<and> \<not> front \<and> links V (pins q) \<noteq> []"
      "policy G (order q) (len q) = Returns (order q') front"
proof -
  have fresh: "fut_node fut \<notin> ids (links V (pins q))" "removed V (pins q) (fut_node fut) = None"
    using assms(2) initialized_iff [OF assms(1)] by auto
  have eq: "poll G cx fut q = poll_first G cx fut q"
    using assms(2) by (simp add: poll_def)
  have join: thesis if "acquire_or_enqueue G p True q = Ret q1 (Enqueue front p')"
    and sl: "same_list q q1" and "\<not> poisoned q" "\<not> poisoned q1" "\<not> closed q"
    and "acquire (sem G) (state q) p = Returns (state q1) (Inl p') \<and> (front \<or> links V (pins q) = []) \<or>
       state q1 = state q \<and> p' = p \<and> \<not> front \<and> links V (pins q) \<noteq> []"
    and "policy G (order q) (len q) = Returns (order q1) front"
    for q1 front p'
    by (rule poll_first_joins [OF assms(1,3) fresh that(1,2,5), where cx = cx])
      (use that sl in \<open>simp add: joined eq fut1_def same_list_def\<close>)
  from assms(1) show thesis
  proof (rule acquire_or_enqueue_result [of q p True], goal_cases)
    case 1
    with assms(3) refused show ?case by (simp add: eq poll_first_def Let_def fut1_def)
  next
    case 2
    with assms(3) closed show ?case by (simp add: eq poll_first_def Let_def fut1_def)
  next
    case (3 q' a)
    with assms(3) acquired [of q' a] show ?case by (simp add: eq poll_first_def Let_def fut1_def)
  next
    case (4 q' front p')
    then show ?case using join [of q' front p'] by blast
  next
    case (5 q')
    then show ?case using join [of q' False p] by blast
  next
    case (6 q')
    with assms(3) unwound [of q'] show ?case by (simp add: eq poll_first_def Let_def fut1_def)
  qed
qed

text \<open>All there is to say about a poll, by where its node is: not in the queue yet, linked, or removed.\<close>

lemma poll_result:
  fixes fut :: "'p acquire_future"
  assumes "queue_inv G V q"
  defines "n \<equiv> fut_node fut" and "fut1 \<equiv> fut\<lparr>fut_params := None\<rparr>"
  obtains
    (spent) "poll G cx fut q = Unwind (q, fut)" "fut_params fut = None"
      "n \<notin> ids (links V (pins q))" "removed V (pins q) n = None"
  | (refused) "poll G cx fut q = Unwind (q, fut1)" "poisoned q"
      "n \<notin> ids (links V (pins q))" "removed V (pins q) n = None"
  | (rejected) p where "poll G cx fut q = Ret (q, fut1) (Ready (Inl (AcquireError p)))" "closed q" "\<not> poisoned q"
      "n \<notin> ids (links V (pins q))" "removed V (pins q) n = None"
  | (acquired) q' p a where "poll G cx fut q = Ret (q', fut1) (Ready (Inr a))" "same_list q q'" "queue_inv G V q'"
      "\<not> poisoned q" "\<not> poisoned q'" "\<not> closed q"
      "acquire (sem G) (state q) p = Returns (state q') (Inr a)"
      "n \<notin> ids (links V (pins q))" "removed V (pins q) n = None"
  | (unwound) q' p where "poll G cx fut q = Unwind (q', fut1)" "same_list q q'" "queue_inv G V q'"
      "\<not> poisoned q" "\<not> closed q"
      "state q' = state q \<and> \<not> poisoned q' \<or> acquire (sem G) (state q) p = Panics (state q') \<and> poisoned q'"
      "n \<notin> ids (links V (pins q))" "removed V (pins q) n = None"
  | (joined) q' front p p' where "poll G cx fut q = Ret (q', fut1) Pending"
      "queue_inv G V q'" "\<not> poisoned q" "\<not> closed q" "poisoned q' = poisoned q" "closed q' = closed q"
      "links V (pins q') = (if front then (n, Some p', cx) # links V (pins q)
         else links V (pins q) @ [(n, Some p', cx)])"
      "removed V (pins q') = removed V (pins q)"
      "acquire (sem G) (state q) p = Returns (state q') (Inl p') \<and> (front \<or> links V (pins q) = []) \<or>
       state q' = state q \<and> p' = p \<and> \<not> front \<and> links V (pins q) \<noteq> []"
      "policy G (order q) (len q) = Returns (order q') front"
      "n \<notin> ids (links V (pins q))" "removed V (pins q) n = None"
  | (repolled) m xs prm w ys where "poll G cx fut q = Ret (q\<lparr>pins := m\<rparr>, fut) Pending" "\<not> closed q"
      "queue_inv G V (q\<lparr>pins := m\<rparr>)" "links V (pins q) = xs @ (n, prm, w) # ys"
      "links V m = xs @ (n, prm, cx) # ys" "removed V m = removed V (pins q)"
      "n \<notin> ids (xs @ ys)" "removed V (pins q) n = None"
  | (left) m xs prm w ys where "poll G cx fut q = (case prm of
         Some p \<Rightarrow> Ret (q\<lparr>pins := m, len := len q - 1\<rparr>, fut) (Ready (Inl (AcquireError p)))
       | None \<Rightarrow> Unwind (q\<lparr>pins := m, len := len q - 1\<rparr>, fut))" "closed q"
      "queue_inv G V (q\<lparr>pins := m, len := len q - 1\<rparr>)" "links V (pins q) = xs @ (n, prm, w) # ys"
      "links V m = xs @ ys" "removed V m = removed V (pins q)"
      "n \<notin> ids (xs @ ys)" "removed V (pins q) n = None"
  | (claimed) m r where "poll G cx fut q = (case r of
         Inr a \<Rightarrow> Ret (q\<lparr>pins := m\<rparr>, fut) (Ready (Inr a))
       | Inl None \<Rightarrow> Unwind (q\<lparr>pins := m\<rparr>, fut)
       | Inl (Some p) \<Rightarrow> Ret (q\<lparr>pins := m\<rparr>, fut) (Ready (Inl (AcquireError p))))"
      "queue_inv G V (q\<lparr>pins := m\<rparr>)" "links V m = links V (pins q)"
      "removed V m = (removed V (pins q))(n := None)"
      "removed V (pins q) n = Some r" "n \<notin> ids (links V (pins q))" "case r of Inl _ \<Rightarrow> closed q | Inr _ \<Rightarrow> True"
proof -
  have ok: "ok V (pins q)" using assms(1) by (simp add: queue_inv_def)
  consider (initial) "\<not> pl_initialized (pl G) (pins q) n" "n \<notin> ids (links V (pins q))" "removed V (pins q) n = None"
    | (linked) "n \<in> ids (links V (pins q))" | (removed) r where "removed V (pins q) n = Some r"
    using initialized_iff [OF assms(1)] by blast
  then show thesis
  proof cases
    case initial
    show thesis
    proof (cases "fut_params fut")
      case None
      with initial spent show thesis by (simp add: poll_def poll_first_def n_def)
    next
      case (Some p)
      show thesis
        by (rule poll_first_result [OF assms(1) initial(1) [unfolded n_def] Some, where cx = cx, folded fut1_def n_def])
          (use initial(2,3) assms(1) in \<open>blast intro: refused rejected acquired unwound joined same_list_inv\<close>)+
    qed
  next
    case linked
    then obtain xs prm w ys where l: "links V (pins q) = xs @ (n, prm, w) # ys"
      by (metis ids_split prod.collapse)
    then have fresh: "n \<notin> ids (xs @ ys)" "removed V (pins q) n = None"
      using PL.links_distinct [OF ok] PL.removed_not_linked [OF ok, of n] by (auto 4 3)
    show thesis
    proof (cases "closed q")
      case True
      show thesis
        by (rule poll_linked_closed [OF assms(1) l [unfolded n_def] True, where cx = cx])
          (rule left [OF _ True _ l _ _ fresh])
    next
      case False
      show thesis
        by (rule poll_linked_open [OF assms(1) l [unfolded n_def] False, where cx = cx, folded n_def])
          (rule repolled [OF _ False _ l _ _ fresh])
    qed
  next
    case (removed r)
    have closed: "case r of Inl _ \<Rightarrow> closed q | Inr _ \<Rightarrow> True"
      using assms(1) removed by (auto simp: queue_inv_def split: sum.splits)
    show thesis
      by (rule poll_removed_result [OF assms(1) removed [unfolded n_def], folded n_def])
        (rule claimed [OF trans [OF poll_removed_eq [OF assms(1) removed [unfolded n_def]]] _ _ _ removed
          PL.removed_not_linked [OF ok removed] closed])
  qed
qed

text \<open>Every poll keeps the invariant and is defined behaviour.\<close>

lemma poll_safe:
  assumes "queue_inv G V q"
  shows "exec_all (\<lambda>(q', _). queue_inv G V q') (poll G cx fut q) \<and> poll G cx fut q \<noteq> Abort"
  by (rule poll_result [OF assms, where cx = cx and fut = fut]) (auto simp: assms split: option.splits sum.splits)

section \<open>What dropping does\<close>

lemma drop_linked:
  assumes "queue_inv G V q" and "links V (pins q) = xs @ (n, d) # ys"
  obtains m where "drop_node G n q = Ret (q\<lparr>pins := m, len := len q - 1\<rparr>) (Some (Linked d))"
    "queue_inv G V (q\<lparr>pins := m, len := len q - 1\<rparr>)" "links V m = xs @ ys"
    "removed V m = removed V (pins q)"
proof -
  from assms have q: "ok V (pins q)" "len q = Suc (length xs + length ys)" "queue q = Open"
    by (cases "queue q"; simp add: queue_inv_def)+
  from PL.reset_linked [OF q(1) assms(2)] obtain m where
    m: "pl_reset (pl G) (pins q) n = (Linked d, m)" "ok V m" "links V m = xs @ ys"
      "removed V m = removed V (pins q)" by blast
  then have "drop_node G n q = Ret (q\<lparr>pins := m, len := len q - 1\<rparr>) (Some (Linked d))"
    using q by (simp add: drop_node_def)
  moreover have "queue_inv G V (q\<lparr>pins := m, len := len q - 1\<rparr>)"
    using assms(1) m q by (auto simp: queue_inv_def)
  ultimately show ?thesis using that m by blast
qed

lemma drop_removed:
  assumes "queue_inv G V q" and "removed V (pins q) n = Some r"
  obtains m where
    "drop_node G n q = (case r of
       Inl e \<Rightarrow> Ret (q\<lparr>pins := m\<rparr>) (Some (Removed (Inl e)))
     | Inr a \<Rightarrow> (case release (sem G) (state q) a of
         Returns s _ \<Rightarrow> Ret (q\<lparr>pins := m, state := s\<rparr>) None
       | Panics s \<Rightarrow> Unwind (q\<lparr>pins := m, state := s, poisoned := True\<rparr>)))"
    "\<And>s b. queue_inv G V (q\<lparr>pins := m, state := s, poisoned := b\<rparr>)"
    "\<And>s. queue_inv G V (q\<lparr>pins := m, state := s\<rparr>)" "queue_inv G V (q\<lparr>pins := m\<rparr>)"
    "links V m = links V (pins q)"
    "removed V m = (removed V (pins q))(n := None)"
proof -
  from assms(1) have q: "ok V (pins q)" by (simp add: queue_inv_def)
  obtain m where m: "ok V m" "links V m = links V (pins q)"
      "removed V m = (removed V (pins q))(n := None)"
    and drp: "drop_node G n q = (case r of
       Inl e \<Rightarrow> Ret (q\<lparr>pins := m\<rparr>) (Some (Removed (Inl e)))
     | Inr a \<Rightarrow> release_then_none G a (q\<lparr>pins := m\<rparr>))"
  proof (cases "queue q")
    case Open
    from PL.reset_removed [OF q assms(2)] that Open show ?thesis
      by (fastforce simp: drop_node_def split: sum.splits)
  next
    case Discarded
    from PL.take_removed [OF q assms(2)] that Discarded show ?thesis
      by (fastforce simp: drop_node_def split: sum.splits)
  qed
  show ?thesis
  proof (rule that [of m])
    show "drop_node G n q = (case r of
       Inl e \<Rightarrow> Ret (q\<lparr>pins := m\<rparr>) (Some (Removed (Inl e)))
     | Inr a \<Rightarrow> (case release (sem G) (state q) a of
         Returns s _ \<Rightarrow> Ret (q\<lparr>pins := m, state := s\<rparr>) None
       | Panics s \<Rightarrow> Unwind (q\<lparr>pins := m, state := s, poisoned := True\<rparr>)))"
      by (simp add: drp release_then_none_def release_permit_def update_state_def
          split: sum.splits call.splits)
  qed (use assms(1) m in \<open>auto simp: queue_inv_def\<close>)
qed

text \<open>All there is to say about dropping an initialised node.\<close>

lemma drop_result:
  assumes "queue_inv G V q" and "pl_initialized (pl G) (pins q) n"
  obtains
    (linked) m xs prm w ys where
      "drop_node G n q = Ret (q\<lparr>pins := m, len := len q - 1\<rparr>) (Some (Linked (prm, w)))"
      "queue_inv G V (q\<lparr>pins := m, len := len q - 1\<rparr>)" "links V (pins q) = xs @ (n, prm, w) # ys"
      "links V m = xs @ ys" "removed V m = removed V (pins q)"
      "n \<notin> ids (xs @ ys)" "removed V (pins q) n = None"
  | (removed) m r where "drop_node G n q = (case r of
       Inl e \<Rightarrow> Ret (q\<lparr>pins := m\<rparr>) (Some (Removed (Inl e)))
     | Inr a \<Rightarrow> (case release (sem G) (state q) a of
         Returns s _ \<Rightarrow> Ret (q\<lparr>pins := m, state := s\<rparr>) None
       | Panics s \<Rightarrow> Unwind (q\<lparr>pins := m, state := s, poisoned := True\<rparr>)))"
      "\<And>s b. queue_inv G V (q\<lparr>pins := m, state := s, poisoned := b\<rparr>)"
      "\<And>s. queue_inv G V (q\<lparr>pins := m, state := s\<rparr>)" "queue_inv G V (q\<lparr>pins := m\<rparr>)"
      "links V m = links V (pins q)" "removed V m = (removed V (pins q))(n := None)"
      "removed V (pins q) n = Some r" "n \<notin> ids (links V (pins q))"
proof -
  have ok: "ok V (pins q)" using assms(1) by (simp add: queue_inv_def)
  consider (lnk) "n \<in> ids (links V (pins q))" | (rem) r where "removed V (pins q) n = Some r"
    using assms initialized_iff [OF assms(1)] by auto
  then show thesis
  proof cases
    case lnk
    then obtain xs prm w ys where l: "links V (pins q) = xs @ (n, prm, w) # ys"
      by (metis ids_split prod.collapse)
    then have fresh: "n \<notin> ids (xs @ ys)" "removed V (pins q) n = None"
      using PL.links_distinct [OF ok] PL.removed_not_linked [OF ok, of n] by (auto 4 3)
    show thesis
      by (rule drop_linked [OF assms(1) l]) (rule linked [OF _ _ l _ _ fresh])
  next
    case (rem r)
    show thesis
      by (rule drop_removed [OF assms(1) rem])
        (rule removed [OF _ _ _ _ _ _ rem PL.removed_not_linked [OF ok rem]])
  qed
qed

text \<open>Dropping an initialised node keeps the invariant and is defined behaviour.\<close>

lemma drop_node_safe:
  assumes "queue_inv G V q" and "pl_initialized (pl G) (pins q) n"
  shows "exec_all (queue_inv G V) (drop_node G n q) \<and> drop_node G n q \<noteq> Abort"
  by (rule drop_result [OF assms]) (simp_all split: sum.splits call.splits)

text \<open>A tried acquisition never waits and keeps the invariant.\<close>

lemma try_acquire_safe:
  assumes "queue_inv G V q"
  shows "exec_all (queue_inv G V) (try_acquire G p fair q) \<and> try_acquire G p fair q \<noteq> Abort"
  by (rule acquire_or_enqueue_result [OF assms, of p fair])
    (auto simp: try_acquire_def assms dest: same_list_inv [OF _ assms])

end

end
