(* ===== verification/Queue_Ops.thy ===== *)
theory Queue_Ops
  imports Acquire_Future
begin

text \<open>
  The public operations of \<open>SemaphoreQueue\<close> in flag-bearer-queue/src/lib.rs as whole calls: lock,
  work, unlock, wake, and again while a batch was full. Between two locked rounds the wakers run,
  given by \<open>run\<close> (see \<open>Wake_Batch\<close>): it stands for everything that happens to the queue while the
  mutex is free. The wakers invoked are recorded in order. A loop that \<open>run\<close> can feed for ever is a
  partial function.
\<close>

section \<open>Operations\<close>

text \<open>The loop of \<open>with_queue\<close>; when \<open>check\<close> unwinds, the guard is dropped before the batch.\<close>

partial_function (option) with_queue_loop ::
  "('m, 'v, 's, 'p, 'a, 'o, 'w) generics \<Rightarrow> ('w, ('m, 's, 'o) queue_state) run_wake
    \<Rightarrow> ('m, 's, 'o) queue_state \<Rightarrow> 'v \<Rightarrow> 'w list \<Rightarrow> 'r
    \<Rightarrow> (('m, 's, 'o) queue_state \<times> 'w list, 'r) exec option" where
  "with_queue_loop G run q wakes log result =
    (case check G q wakes of
      None \<Rightarrow> None
    | Some x \<Rightarrow>
      (case x of
        Ret (q1, wakes1) _ \<Rightarrow>
          (let more = av_is_full (av G) wakes1 \<and> len q1 \<noteq> 0
           in case batch_wake_all (av G) run wakes1 log q1 of
             Ret (q2, log2, wakes2) _ \<Rightarrow>
               if \<not> more then Some (batch_drop (av G) run wakes2 log2 q2 result)
               else with_queue_loop G run q2 wakes2 log2 result
           | Unwind (q2, log2, wakes2) \<Rightarrow> Some (batch_drop_unwinding (av G) run wakes2 log2 q2)
           | Abort \<Rightarrow> Some Abort
           | UB \<Rightarrow> Some UB)
      | Unwind (q1, wakes1) \<Rightarrow> Some (batch_drop_unwinding (av G) run wakes1 log q1)
      | Abort \<Rightarrow> Some Abort
      | UB \<Rightarrow> Some UB))"

definition with_queue ::
  "('m, 'v, 's, 'p, 'a, 'o, 'w) generics \<Rightarrow> ('w, ('m, 's, 'o) queue_state) run_wake
    \<Rightarrow> (('m, 's, 'o) queue_state \<Rightarrow> (('m, 's, 'o) queue_state, 'r) exec) \<Rightarrow> ('m, 's, 'o) queue_state
    \<Rightarrow> (('m, 's, 'o) queue_state \<times> 'w list, 'r) exec option" where
  "with_queue G run f q = (case f q of
     Ret q1 result \<Rightarrow>
       if len q1 = 0 then Some (Ret (q1, []) result)
       else with_queue_loop G run q1 (av_new (av G)) [] result
   | Unwind q1 \<Rightarrow> Some (Unwind (q1, []))
   | Abort \<Rightarrow> Some Abort
   | UB \<Rightarrow> Some UB)"

text \<open>\<open>SemaphoreQueue::with_state\<close>.\<close>

definition with_state ::
  "('m, 'v, 's, 'p, 'a, 'o, 'w) generics \<Rightarrow> ('w, ('m, 's, 'o) queue_state) run_wake
    \<Rightarrow> ('s \<Rightarrow> ('s, 'r) call) \<Rightarrow> ('m, 's, 'o) queue_state
    \<Rightarrow> (('m, 's, 'o) queue_state \<times> 'w list, 'r) exec option" where
  "with_state G run f q = with_queue G run (update_state f) q"

text \<open>\<open>SemaphoreQueue::is_closed\<close>.\<close>

definition queue_is_closed ::
  "('m, 'v, 's, 'p, 'a, 'o, 'w) generics \<Rightarrow> ('m, 's, 'o) queue_state \<Rightarrow> bool" where
  "queue_is_closed G q \<longleftrightarrow> CLOSE (mode G) \<and> is_closed q"

text \<open>\<open>PinnedDrop\<close> of the future: nothing for an initial node.\<close>

definition drop_acquire ::
  "('m, 'v, 's, 'p, 'a, 'o, 'w) generics \<Rightarrow> ('w, ('m, 's, 'o) queue_state) run_wake
    \<Rightarrow> 'p acquire_future \<Rightarrow> ('m, 's, 'o) queue_state
    \<Rightarrow> (('m, 's, 'o) queue_state \<times> 'w list, ('p, 'a, 'w) abandoned) exec option" where
  "drop_acquire G run fut q =
    (if \<not> pl_initialized (pl G) (pins q) (fut_node fut) then Some (Ret (q, []) None)
     else with_queue G run (drop_node G (fut_node fut)) q)"

text \<open>\<open>SemaphoreQueue::close\<close>: the inner loop that fills a batch under the mutex, and the outer one.\<close>

partial_function (option) close_fill ::
  "('m, 'v, 's, 'p, 'a, 'o, 'w) generics \<Rightarrow> ('m, 's, 'o) queue_state \<Rightarrow> 'v
    \<Rightarrow> (('m, 's, 'o) queue_state \<times> 'v, unit) exec option" where
  "close_fill G q wakes =
    (if av_is_full (av G) wakes then Some (Ret (q, wakes) ())
     else (case close_one G q of
       Ret q1 w \<Rightarrow>
         (case w of
           None \<Rightarrow> Some (Ret (q1, wakes) ())
         | Some waker \<Rightarrow>
           (case av_push (av G) wakes waker of
             None \<Rightarrow> Some (Unwind (q1, wakes))
           | Some wakes1 \<Rightarrow> close_fill G q1 wakes1))
     | Unwind q1 \<Rightarrow> Some (Unwind (q1, wakes))
     | Abort \<Rightarrow> Some Abort
     | UB \<Rightarrow> Some UB))"

partial_function (option) close_loop ::
  "('m, 'v, 's, 'p, 'a, 'o, 'w) generics \<Rightarrow> ('w, ('m, 's, 'o) queue_state) run_wake
    \<Rightarrow> ('m, 's, 'o) queue_state \<Rightarrow> 'v \<Rightarrow> 'w list
    \<Rightarrow> (('m, 's, 'o) queue_state \<times> 'w list, unit) exec option" where
  "close_loop G run q wakes log =
    (case close_fill G q wakes of
      None \<Rightarrow> None
    | Some x \<Rightarrow>
      (case x of
        Ret (q1, wakes1) _ \<Rightarrow>
          (let more = (queue q1 = Open)
           in case batch_wake_all (av G) run wakes1 log q1 of
             Ret (q2, log2, wakes2) _ \<Rightarrow>
               if \<not> more then Some (batch_drop (av G) run wakes2 log2 q2 ())
               else close_loop G run q2 wakes2 log2
           | Unwind (q2, log2, wakes2) \<Rightarrow> Some (batch_drop_unwinding (av G) run wakes2 log2 q2)
           | Abort \<Rightarrow> Some Abort
           | UB \<Rightarrow> Some UB)
      | Unwind (q1, wakes1) \<Rightarrow> Some (batch_drop_unwinding (av G) run wakes1 log q1)
      | Abort \<Rightarrow> Some Abort
      | UB \<Rightarrow> Some UB))"

definition close ::
  "('m, 'v, 's, 'p, 'a, 'o, 'w) generics \<Rightarrow> ('w, ('m, 's, 'o) queue_state) run_wake
    \<Rightarrow> ('m, 's, 'o) queue_state
    \<Rightarrow> (('m, 's, 'o) queue_state \<times> 'w list, unit) exec option" where
  "close G run q = close_loop G run q (av_new (av G)) []"

section \<open>Batches compose\<close>

text \<open>A full batch followed by another is one longer batch: cutting the service of the list into
  batches of \<open>k\<close> does not change what is served.\<close>

lemma serve_compose:
  "serve acq k s xs = (s1, rest1, gs1, b1) \<Longrightarrow> 0 < k \<Longrightarrow> k < K \<Longrightarrow>
    serve acq K s xs =
      (if \<not> b1 \<and> length gs1 = k
       then (case serve acq (K - k) s1 rest1 of (s2, rest2, gs2, b2) \<Rightarrow> (s2, rest2, gs1 @ gs2, b2))
       else (s1, rest1, gs1, b1))"
proof (induction acq k s xs arbitrary: K s1 rest1 gs1 b1 rule: serve.induct)
  case (1 acq k s)
  then show ?case by auto
next
  case (2 acq k s n w xs)
  then show ?case by (auto split: prod.splits)
next
  case (3 acq k s n p w xs)
  show ?case
  proof (cases "acq s p")
    case (Panics s')
    with "3.prems" show ?thesis by auto
  next
    case (Returns s' res)
    show ?thesis
    proof (cases res)
      case (Inl p')
      with Returns "3.prems" show ?thesis by auto
    next
      case (Inr a)
      show ?thesis
      proof (cases "k \<le> 1")
        case True
        with "3.prems" have "k = 1" by simp
        with Returns Inr "3.prems" show ?thesis by auto
      next
        case False
        with Returns Inr "3.prems"(1) obtain gs' where
          srv: "serve acq (k - 1) s' xs = (s1, rest1, gs', b1)" "gs1 = (n, a, w) # gs'"
          by (auto split: prod.splits)
        from "3.IH" [OF Returns Inr False srv(1), of "K - 1"] False "3.prems"(3)
        show ?thesis using Returns Inr srv(2) by (auto split: prod.splits)
      qed
    qed
  qed
qed

text \<open>With a batch as long as the list nothing is left over by the cut.\<close>

lemma serve_enough:
  assumes "length xs < K" and "length xs < K'"
  shows "serve acq K s xs = serve acq K' s xs"
  using assms
proof (induction acq K s xs arbitrary: K' rule: serve.induct)
  case (2 acq k s n w xs)
  from "2.IH" [of K'] "2.prems" have "serve acq k s xs = serve acq K' s xs" by simp
  then show ?case by (simp only: serve.simps)
next
  case (3 acq k s n p w xs)
  have "serve acq (k - 1) s' xs = serve acq (K' - 1) s' xs" if "acq s p = Returns s' (Inr a)" for s' a
    using "3.IH" [OF that refl, where K' = "K' - 1"] "3.prems" by simp
  with "3.prems" show ?case by (auto split: call.splits sum.splits)
qed auto

text \<open>The whole service of a list, without batches.\<close>

definition serve_all :: "('s \<Rightarrow> 'p \<Rightarrow> ('s, 'p + 'a) call) \<Rightarrow> 's \<Rightarrow> (nid \<times> ('p, 'w) waiting) list
    \<Rightarrow> 's \<times> (nid \<times> ('p, 'w) waiting) list \<times> (nid \<times> 'a \<times> 'w) list \<times> bool" where
  "serve_all acq s xs = serve acq (Suc (length xs)) s xs"

lemma serve_all_batch:
  assumes "serve acq k s xs = (s1, rest1, gs1, b1)" and "0 < k"
  shows "serve_all acq s xs =
    (if \<not> b1 \<and> length gs1 = k
     then (case serve_all acq s1 rest1 of (s2, rest2, gs2, b2) \<Rightarrow> (s2, rest2, gs1 @ gs2, b2))
     else (s1, rest1, gs1, b1))"
proof -
  let ?K = "Suc (length xs) + k"
  have "serve_all acq s xs = serve acq ?K s xs"
    unfolding serve_all_def by (rule serve_enough) auto
  moreover have "serve acq (?K - k) s1 rest1 = serve_all acq s1 rest1"
    unfolding serve_all_def using serve_grants_prefix [OF assms(1)] by (intro serve_enough) auto
  ultimately show ?thesis
    using serve_compose [OF assms, of ?K] by simp
qed

section \<open>Whole operations\<close>

text \<open>The removed nodes after closing took the waiters \<open>xs\<close>: each holds its params, if not lost.\<close>

fun revoke :: "(nid \<Rightarrow> ('p, 'a) removal option) \<Rightarrow> (nid \<times> ('p, 'w) waiting) list
    \<Rightarrow> nid \<Rightarrow> ('p, 'a) removal option" where
  "revoke rm [] = rm"
| "revoke rm ((n, prm, w) # xs) = revoke (rm(n \<mapsto> Inl prm)) xs"

text \<open>
  The doc comment of \<open>close\<close>: closing takes effect before any waker runs, so wakers cannot feed the
  loop. All they can do to a closed queue is to keep it closed and not to make its list longer.
\<close>

definition closing_bound :: "('m, 'v, 's, 'p, 'a, 'o, 'w) generics \<Rightarrow> ('m, 'p, 'a, 'w) queue_view
    \<Rightarrow> nat \<Rightarrow> ('m, 's, 'o) queue_state \<Rightarrow> bool" where
  "closing_bound G V k q \<longleftrightarrow> queue_inv G V q \<and> closed q \<and> len q \<le> k"

text \<open>Wakers that add no waiter: with these the loop of \<open>with_queue\<close> ends, since every further round
  follows a full batch.\<close>

definition waiting_bound :: "('m, 'v, 's, 'p, 'a, 'o, 'w) generics \<Rightarrow> ('m, 'p, 'a, 'w) queue_view
    \<Rightarrow> nat \<Rightarrow> ('m, 's, 'o) queue_state \<Rightarrow> bool" where
  "waiting_bound G V k q \<longleftrightarrow> queue_inv G V q \<and> len q \<le> k"

lemma park_append: "park rm (gs @ gs') = park (park rm gs) gs'"
  by (induction gs arbitrary: rm) auto

context queue_deps
begin

lemma batch_empty: "elems wakes = [] \<Longrightarrow> length (elems wakes) < batch_cap"
  by (simp add: batch_cap_def)

text \<open>One round of the loop, by what \<open>check\<close> does; and with wakers that leave the queue alone.\<close>

lemma with_queue_loop_round:
  assumes "check G q wakes = Some (if b then Unwind (q1, v1) else Ret (q1, v1) ())"
  shows "with_queue_loop G run q wakes log r =
    (if b then Some (batch_drop_unwinding (av G) run v1 log q1)
     else case batch_wake_all (av G) run v1 log q1 of
       Ret (q2, log2, v2) _ \<Rightarrow>
         if \<not> (batch_cap \<le> length (elems v1) \<and> len q1 \<noteq> 0) then Some (batch_drop (av G) run v2 log2 q2 r)
         else with_queue_loop G run q2 v2 log2 r
     | Unwind (q2, log2, v2) \<Rightarrow> Some (batch_drop_unwinding (av G) run v2 log2 q2)
     | Abort \<Rightarrow> Some Abort
     | UB \<Rightarrow> Some UB)"
  using assms by (subst with_queue_loop.simps) (simp add: Let_def AV.av_full del: neq0_conv)

lemma with_queue_loop_round_inert:
  assumes "inert run" and "check G q wakes = Some (if b then Unwind (q1, v1) else Ret (q1, v1) ())"
  shows "with_queue_loop G run q wakes log r =
    (if b then Some (Unwind (q1, log @ elems v1))
     else if batch_cap \<le> length (elems v1) \<and> len q1 \<noteq> 0
     then with_queue_loop G run q1 (snd (av_drain (av G) v1)) (log @ elems v1) r
     else Some (Ret (q1, log @ elems v1) r))"
  unfolding with_queue_loop_round [OF assms(2)]
  by (simp add: AV.batch_wake_all_inert [OF assms(1)] AV.batch_drop_unwinding_inert [OF assms(1)]
      AV.batch_drop_empty AV.av_drain(2) del: neq0_conv)

text \<open>When no waker touches the queue, the batched loop of \<open>with_queue\<close> returns and has done what one
  pass over the whole list does.\<close>

lemma with_queue_loop_inert:
  assumes "inert run"
  shows "queue_inv G V q \<Longrightarrow> elems wakes = [] \<Longrightarrow> \<not> poisoned q \<Longrightarrow> \<not> closed q \<Longrightarrow>
    serve_all (acquire (sem G)) (state q) (links V (pins q)) = (s', rest, gs, b) \<Longrightarrow>
    \<exists>q'. with_queue_loop G run q wakes log r =
        Some (if b then Unwind (q', log @ grant_wakers gs) else Ret (q', log @ grant_wakers gs) r) \<and>
      queue_inv G V q' \<and> state q' = s' \<and> links V (pins q') = rest \<and>
      removed V (pins q') = park (removed V (pins q)) gs \<and> poisoned q' = b \<and>
      closed q' = closed q \<and> queue q' = queue q \<and> order q' = order q"
proof (induction "length (links V (pins q))" arbitrary: q wakes log s' rest gs b rule: less_induct)
  case less
  from less.prems(1) batch_empty [OF less.prems(2)] show ?case
  proof (rule check_result)
    fix q1 v1 gs1 b1
    assume c: "check G q wakes = Some (if b1 then Unwind (q1, v1) else Ret (q1, v1) ())"
      and q1: "queue_inv G V q1" "removed V (pins q1) = park (removed V (pins q)) gs1"
        "elems v1 = elems wakes @ grant_wakers gs1" "poisoned q1 = (poisoned q \<or> b1)"
        "closed q1 = closed q" "queue q1 = queue q" "order q1 = order q"
      and "if poisoned q \<or> closed q then q1 = q \<and> gs1 = [] \<and> \<not> b1
        else serve (acquire (sem G)) (batch_cap - length (elems wakes)) (state q)
          (links V (pins q)) = (state q1, links V (pins q1), gs1, b1)"
    then have srv: "serve (acquire (sem G)) batch_cap (state q) (links V (pins q)) =
        (state q1, links V (pins q1), gs1, b1)" and v1: "elems v1 = grant_wakers gs1"
      using less.prems by simp_all
    have cap: "0 < batch_cap" by (simp add: batch_cap_def)
    note all = serve_all_batch [OF srv cap, unfolded less.prems(5)]
    note step = with_queue_loop_round_inert [OF assms c, of log r, unfolded v1]
    have short: "length gs1 \<le> batch_cap" "length (links V (pins q)) = length (links V (pins q1)) + length gs1"
      using serve_grants_prefix [OF srv] cap by simp_all
    have len: "len q1 = 0 \<longleftrightarrow> links V (pins q1) = []" using q1(1) by (simp add: queue_inv_def)
    show ?case
    proof (cases "\<not> b1 \<and> length gs1 = batch_cap \<and> links V (pins q1) \<noteq> []")
      case True
      obtain gs2 where srv2: "serve_all (acquire (sem G)) (state q1) (links V (pins q1)) = (s', rest, gs2, b)"
        and gs: "gs = gs1 @ gs2"
        using all True by (auto split: prod.splits)
      have "length (links V (pins q1)) < length (links V (pins q))"
        using short True cap by simp
      from less.hyps [OF this q1(1) AV.av_drain(2) _ _ srv2, of v1 "log @ grant_wakers gs1"] step True len q1(4,5) less.prems(3,4)
      obtain q' where "with_queue_loop G run q wakes log r =
          Some (if b then Unwind (q', (log @ grant_wakers gs1) @ grant_wakers gs2)
                else Ret (q', (log @ grant_wakers gs1) @ grant_wakers gs2) r)"
        "queue_inv G V q'" "state q' = s'" "links V (pins q') = rest"
        "removed V (pins q') = park (removed V (pins q1)) gs2" "poisoned q' = b"
        "closed q' = closed q1" "queue q' = queue q1" "order q' = order q1"
        by (auto simp del: append_assoc)
      then show ?thesis
        using gs q1 by (intro exI [of _ q']) (simp add: grant_wakers_def park_append)
    next
      case False
      then have "with_queue_loop G run q wakes log r =
          Some (if b1 then Unwind (q1, log @ grant_wakers gs1) else Ret (q1, log @ grant_wakers gs1) r)"
        using step len short(1) by auto
      moreover have "s' = state q1" "rest = links V (pins q1)" "gs = gs1" "b = b1"
        using all False by (auto simp: serve_all_def split: if_splits)
      ultimately show ?thesis using q1 less.prems by auto
    qed
  qed
qed

text \<open>Whatever the wakers do to the queue, as long as they keep its invariant so does the loop, and
  it is defined behaviour.\<close>

lemma with_queue_loop_safe:
  fixes r :: 'r
  assumes "with_queue_loop G run q wakes log r = Some x"
    and "keeps (queue_inv G V) run" and "queue_inv G V q" and "elems wakes = []"
  shows "exec_all (\<lambda>(q', _). queue_inv G V q') x"
proof -
  have "G = G \<longrightarrow> keeps (queue_inv G V) run \<longrightarrow> queue_inv G V q \<longrightarrow> elems wakes = [] \<longrightarrow>
    exec_all (\<lambda>(q', _). queue_inv G V q') x"
  proof (rule with_queue_loop.raw_induct [where P = "\<lambda>G' run q wakes log (r :: 'r) x. G' = G \<longrightarrow>
      keeps (queue_inv G V) run \<longrightarrow> queue_inv G V q \<longrightarrow> elems wakes = [] \<longrightarrow>
      exec_all (\<lambda>(q', _). queue_inv G V q') x", OF _ assms(1)], intro impI)
    fix loop :: "('m, 'v, 's, 'p, 'a, 'o, 'w) generics \<Rightarrow> ('w, ('m, 's, 'o) queue_state) run_wake
        \<Rightarrow> ('m, 's, 'o) queue_state \<Rightarrow> 'v \<Rightarrow> 'w list \<Rightarrow> 'r
        \<Rightarrow> (('m, 's, 'o) queue_state \<times> 'w list, 'r) exec option"
      and G' run q wakes log and r :: 'r and x
    assume IH: "\<And>G' run q wakes log r x. loop G' run q wakes log r = Some x \<Longrightarrow> G' = G \<longrightarrow>
        keeps (queue_inv G V) run \<longrightarrow> queue_inv G V q \<longrightarrow> elems wakes = [] \<longrightarrow>
        exec_all (\<lambda>(q', _). queue_inv G V q') x"
      and eq: "(case check G' q wakes of None \<Rightarrow> None
        | Some x \<Rightarrow> (case x of
            Ret (q1, wakes1) _ \<Rightarrow>
              (let more = av_is_full (av G') wakes1 \<and> len q1 \<noteq> 0
               in case batch_wake_all (av G') run wakes1 log q1 of
                 Ret (q2, log2, wakes2) _ \<Rightarrow>
                   if \<not> more then Some (batch_drop (av G') run wakes2 log2 q2 r)
                   else loop G' run q2 wakes2 log2 r
               | Unwind (q2, log2, wakes2) \<Rightarrow> Some (batch_drop_unwinding (av G') run wakes2 log2 q2)
               | Abort \<Rightarrow> Some Abort
               | UB \<Rightarrow> Some UB)
          | Unwind (q1, wakes1) \<Rightarrow> Some (batch_drop_unwinding (av G') run wakes1 log q1)
          | Abort \<Rightarrow> Some Abort
          | UB \<Rightarrow> Some UB)) = Some x"
      and G: "G' = G" and k: "keeps (queue_inv G V) run" and inv: "queue_inv G V q"
      and e: "elems wakes = []"
    from check_total [OF inv batch_empty [OF e]] obtain y where
      y: "check G q wakes = Some y" "exec_all (\<lambda>(q', _). queue_inv G V q') y" "y \<noteq> Abort" by blast
    show "exec_all (\<lambda>(q', _). queue_inv G V q') x"
    proof (cases y)
      case (Ret c u)
      obtain q1 v1 where c: "c = (q1, v1)" by (cases c)
      with y(2) Ret have "queue_inv G V q1" by simp
      from AV.batch_wake_all_keeps [OF k this, of v1 log]
      show ?thesis
        using eq [unfolded G y(1)] Ret c IH [OF _, of G run _ _ _ r x] k
        by (auto simp: Let_def AV.batch_drop_empty AV.batch_drop_unwinding_empty split: exec.splits prod.splits if_splits)
    next
      case (Unwind c)
      obtain q1 v1 where c: "c = (q1, v1)" by (cases c)
      with y(2) Unwind have inv1: "queue_inv G V q1" by simp
      have "x = batch_drop_unwinding (av G) run v1 log q1"
        using eq [unfolded G y(1)] Unwind c by simp
      then show ?thesis by (simp only: AV.batch_drop_unwinding_keeps [OF k inv1])
    qed (use y in simp_all)
  qed
  with assms(2-4) show ?thesis by blast
qed

lemma with_queue_safe:
  assumes "with_queue G run f q = Some x" and "keeps (queue_inv G V) run"
    and "exec_all (queue_inv G V) (f q)"
  shows "exec_all (\<lambda>(q', _). queue_inv G V q') x"
  using assms(1,3) with_queue_loop_safe [OF _ assms(2)] AV.av_new
  by (auto simp: with_queue_def split: exec.splits if_splits)

lemma with_queue_loop_total:
  assumes "\<And>k. keeps (waiting_bound G V k) run" and "queue_inv G V q" and "elems wakes = []"
  shows "\<exists>x. with_queue_loop G run q wakes log r = Some x"
  using assms(2,3)
proof (induction "length (links V (pins q))" arbitrary: q wakes log rule: less_induct)
  case less
  from less.prems(1) batch_empty [OF less.prems(2)] show ?case
  proof (rule check_result)
    fix q1 v1 gs b
    assume c: "check G q wakes = Some (if b then Unwind (q1, v1) else Ret (q1, v1) ())"
      and q1: "queue_inv G V q1" "elems v1 = elems wakes @ grant_wakers gs"
      and srv: "if poisoned q \<or> closed q then q1 = q \<and> gs = [] \<and> \<not> b
        else serve (acquire (sem G)) (batch_cap - length (elems wakes)) (state q)
          (links V (pins q)) = (state q1, links V (pins q1), gs, b)"
    have w1: "waiting_bound G V (len q1) q1" using q1 by (simp add: waiting_bound_def)
    note woken = AV.batch_wake_all_keeps [OF assms(1) w1, of v1 log]
    note step = with_queue_loop_round [OF c, of run log r]
    show ?case
    proof (cases "\<exists>q2 log2 v2 u. batch_wake_all (av G) run v1 log q1 = Ret (q2, log2, v2) u \<and>
        \<not> b \<and> batch_cap \<le> length (elems v1) \<and> len q1 \<noteq> 0")
      case False
      then show ?thesis
        unfolding step by (auto split: exec.splits prod.splits)
    next
      case True
      then obtain q2 log2 v2 u where
        w: "batch_wake_all (av G) run v1 log q1 = Ret (q2, log2, v2) u" and
        full: "\<not> b" "batch_cap \<le> length (elems v1)" "len q1 \<noteq> 0" by blast
      with woken have q2: "queue_inv G V q2" "len q2 \<le> len q1" "elems v2 = []"
        by (simp_all add: waiting_bound_def)
      from full q1 less.prems(2) have "batch_cap \<le> length gs" "gs \<noteq> []"
        by (auto simp: batch_cap_def)
      with srv have "serve (acquire (sem G)) (batch_cap - length (elems wakes)) (state q)
          (links V (pins q)) = (state q1, links V (pins q1), gs, b)"
        by (auto split: if_splits)
      from serve_grants_prefix [OF this] \<open>gs \<noteq> []\<close>
      have "length (links V (pins q1)) < length (links V (pins q))" by simp
      with q1 q2 have "length (links V (pins q2)) < length (links V (pins q))"
        by (simp add: queue_inv_def)
      from less.hyps [OF this q2(1,3)] show ?thesis
        unfolding step using w full by simp
    qed
  qed
qed

lemma with_queue_total:
  assumes "\<And>k. keeps (waiting_bound G V k) run" and "exec_all (queue_inv G V) (f q)"
  shows "\<exists>x. with_queue G run f q = Some x \<and> exec_all (\<lambda>(q', _). queue_inv G V q') x"
proof -
  have k: "keeps (queue_inv G V) run"
    unfolding keeps_def
  proof (intro allI impI)
    fix w log q
    assume "queue_inv G V q"
    with assms(1) [of "len q"] have "case run w log q of
        Returns q' _ \<Rightarrow> waiting_bound G V (len q) q' | Panics q' \<Rightarrow> waiting_bound G V (len q) q'"
      by (simp add: keeps_def waiting_bound_def)
    then show "case run w log q of Returns q' _ \<Rightarrow> queue_inv G V q' | Panics q' \<Rightarrow> queue_inv G V q'"
      by (auto simp: waiting_bound_def split: call.splits)
  qed
  have "\<exists>x. with_queue G run f q = Some x"
    using assms(2) with_queue_loop_total [OF assms(1) _ AV.av_new]
    by (cases "f q") (auto simp: with_queue_def)
  with with_queue_safe [where f = f and q = q, OF _ k assms(2)] show ?thesis by blast
qed

text \<open>The whole call with wakers that do not touch the queue.\<close>

lemma with_queue_inert:
  assumes "inert run" and "f q = Ret q1 r" and "queue_inv G V q1" and "\<not> poisoned q1"
    and "\<not> closed q1"
    and "serve_all (acquire (sem G)) (state q1) (links V (pins q1)) = (s', rest, gs, b)"
  obtains q' where
    "with_queue G run f q = Some (if b then Unwind (q', grant_wakers gs) else Ret (q', grant_wakers gs) r)"
    "queue_inv G V q'" "state q' = s'" "links V (pins q') = rest"
    "removed V (pins q') = park (removed V (pins q1)) gs" "poisoned q' = b"
    "closed q' = closed q1" "queue q' = queue q1" "order q' = order q1"
proof (cases "len q1 = 0")
  case True
  with assms(3) have "links V (pins q1) = []" by (simp add: queue_inv_def)
  with assms(6) have "s' = state q1" "rest = []" "gs = []" "\<not> b" by (auto simp: serve_all_def)
  with that [of q1] True assms show ?thesis
    by (simp add: with_queue_def \<open>links V (pins q1) = []\<close>)
next
  case False
  from with_queue_loop_inert [OF assms(1,3) AV.av_new assms(4-6), of "[]" r] obtain q' where
    "with_queue_loop G run q1 (av_new (av G)) [] r =
      Some (if b then Unwind (q', grant_wakers gs) else Ret (q', grant_wakers gs) r)"
    "queue_inv G V q'" "state q' = s'" "links V (pins q') = rest"
    "removed V (pins q') = park (removed V (pins q1)) gs" "poisoned q' = b"
    "closed q' = closed q1" "queue q' = queue q1" "order q' = order q1"
    by auto
  with that [of q'] False assms(2) show ?thesis by (simp add: with_queue_def)
qed

lemma with_state_inert:
  assumes "inert run" and "f (state q) = Returns s1 r" and "queue_inv G V q"
    and "\<not> poisoned q" and "\<not> closed q"
    and "serve_all (acquire (sem G)) s1 (links V (pins q)) = (s', rest, gs, b)"
  obtains q' where
    "with_state G run f q = Some (if b then Unwind (q', grant_wakers gs) else Ret (q', grant_wakers gs) r)"
    "queue_inv G V q'" "state q' = s'" "links V (pins q') = rest"
    "removed V (pins q') = park (removed V (pins q)) gs" "poisoned q' = b"
    "closed q' = closed q" "order q' = order q"
proof -
  let ?q = "q\<lparr>state := s1\<rparr>"
  have "update_state f q = Ret ?q r" "queue_inv G V ?q" "\<not> poisoned ?q" "\<not> closed ?q"
    using assms(2-5) by (simp_all add: update_state_def queue_inv_def)
  with that assms(6) show ?thesis
    unfolding with_state_def by (elim with_queue_inert [OF assms(1)]) auto
qed

section \<open>Closing\<close>

text \<open>The inner loop takes waiters from the front until the batch is full or none is left.\<close>

lemma close_fill_full: "batch_cap \<le> length (elems wakes) \<Longrightarrow> close_fill G q wakes = Some (Ret (q, wakes) ())"
  by (subst close_fill.simps) (simp add: AV.av_full)

text \<open>One iteration: the first waiter is revoked and its waker taken along.\<close>

lemma close_fill_step:
  assumes "queue_inv G V q" and "CLOSE (mode G)" and "length (elems wakes) < batch_cap"
    and "links V (pins q) = (n, prm, w) # ys"
  obtains q1 v1 where "close_fill G q wakes = close_fill G q1 v1"
    "elems v1 = elems wakes @ [w]"
    "queue_inv G V q1" "closed q1" "state q1 = state q" "poisoned q1 = poisoned q" "order q1 = order q"
    "links V (pins q1) = ys" "removed V (pins q1) = (removed V (pins q))(n \<mapsto> Inl prm)"
    "queue q1 = (if ys = [] then Discarded else Open)"
proof -
  from AV.av_push [OF assms(3), of w] obtain v1 where
    v1: "av_push (av G) wakes w = Some v1" "elems v1 = elems wakes @ [w]" by blast
  show thesis
    by (rule close_one_result [OF assms(1,2)])
      (rule that [of _ v1], use assms(3,4) v1 in \<open>simp_all add: close_fill.simps [of G q wakes] AV.av_full\<close>)
qed

lemma close_fill_last:
  assumes "queue_inv G V q" and "CLOSE (mode G)" and "length (elems wakes) < batch_cap"
    and "links V (pins q) = []"
  obtains q1 where "close_fill G q wakes = Some (Ret (q1, wakes) ())"
    "queue_inv G V q1" "closed q1" "state q1 = state q" "poisoned q1 = poisoned q" "order q1 = order q"
    "links V (pins q1) = []" "removed V (pins q1) = removed V (pins q)" "queue q1 = Discarded"
  by (rule close_one_result [OF assms(1,2)])
    (rule that, use assms(3,4) in \<open>simp_all add: close_fill.simps [of G q wakes] AV.av_full\<close>)

lemma close_fill_ex:
  "queue_inv G V q \<Longrightarrow> CLOSE (mode G) \<Longrightarrow> length (elems wakes) < batch_cap \<Longrightarrow>
    batch_cap - length (elems wakes) = k \<Longrightarrow>
    \<exists>q' v'. close_fill G q wakes = Some (Ret (q', v') ()) \<and>
      queue_inv G V q' \<and> closed q' \<and> state q' = state q \<and> poisoned q' = poisoned q \<and>
      order q' = order q \<and> links V (pins q') = drop k (links V (pins q)) \<and>
      removed V (pins q') = revoke (removed V (pins q)) (take k (links V (pins q))) \<and>
      elems v' = elems wakes @ map (snd \<circ> snd) (take k (links V (pins q))) \<and>
      (queue q' = Open \<longleftrightarrow> k < length (links V (pins q)))"
proof (induction k arbitrary: q wakes)
  case 0
  then show ?case by simp
next
  case (Suc k)
  show ?case
  proof (cases "links V (pins q)")
    case Nil
    show ?thesis
      by (rule close_fill_last [OF Suc.prems(1-3) Nil]) (simp add: Nil)
  next
    case (Cons x ys)
    then obtain n prm w where l: "links V (pins q) = (n, prm, w) # ys" by (cases x) auto
    from close_fill_step [OF Suc.prems(1-3) l] obtain q1 v1 where
      step: "close_fill G q wakes = close_fill G q1 v1" "elems v1 = elems wakes @ [w]"
      and q1: "queue_inv G V q1" "closed q1" "state q1 = state q" "poisoned q1 = poisoned q"
        "order q1 = order q" "links V (pins q1) = ys"
        "removed V (pins q1) = (removed V (pins q))(n \<mapsto> Inl prm)"
        "queue q1 = (if ys = [] then Discarded else Open)" by metis
    show ?thesis
    proof (cases k)
      case 0
      with step Suc.prems(3,4) q1 l show ?thesis by (simp add: close_fill_full fun_upd_def)
    next
      case (Suc k')
      with step(2) Suc.prems(3,4) have "length (elems v1) < batch_cap" "batch_cap - length (elems v1) = k"
        by simp_all
      from Suc.IH [OF q1(1) Suc.prems(2) this] step q1 l show ?thesis by (auto simp: fun_upd_def)
    qed
  qed
qed

lemma close_fill_result:
  assumes "queue_inv G V q" and "CLOSE (mode G)" and "elems wakes = []"
  obtains q' v' where "close_fill G q wakes = Some (Ret (q', v') ())"
    "queue_inv G V q'" "closed q'" "state q' = state q" "poisoned q' = poisoned q" "order q' = order q"
    "links V (pins q') = drop batch_cap (links V (pins q))"
    "removed V (pins q') = revoke (removed V (pins q)) (take batch_cap (links V (pins q)))"
    "elems v' = map (snd \<circ> snd) (take batch_cap (links V (pins q)))"
    "queue q' = Open \<longleftrightarrow> batch_cap < length (links V (pins q))"
  using close_fill_ex [OF assms(1,2) batch_empty [OF assms(3)], of batch_cap] assms(3) by auto

text \<open>Then \<open>close\<close> returns, whatever else the wakers do.\<close>

lemma close_loop_total:
  assumes "\<And>k. keeps (closing_bound G V k) run" and "queue_inv G V q" and "CLOSE (mode G)"
    and "elems wakes = []"
  shows "\<exists>x. close_loop G run q wakes log = Some x \<and>
    exec_all (\<lambda>(q', _). queue_inv G V q' \<and> closed q') x \<and>
    (\<forall>q' log' u. x = Ret (q', log') u \<longrightarrow> links V (pins q') = [])"
  using assms(2,4)
proof (induction "length (links V (pins q))" arbitrary: q wakes log rule: less_induct)
  case less
  from close_fill_result [OF less.prems(1) assms(3) less.prems(2)] obtain q1 v1 where
    c: "close_fill G q wakes = Some (Ret (q1, v1) ())"
    and q1: "queue_inv G V q1" "closed q1" "links V (pins q1) = drop batch_cap (links V (pins q))"
      "queue q1 = Open \<longleftrightarrow> batch_cap < length (links V (pins q))" by metis
  have b: "closing_bound G V (len q1) q1" using q1 by (simp add: closing_bound_def)
  note woken = AV.batch_wake_all_keeps [OF assms(1) b, of v1 log]
  have step: "close_loop G run q wakes log = (case batch_wake_all (av G) run v1 log q1 of
      Ret (q2, log2, wakes2) _ \<Rightarrow>
        if queue q1 \<noteq> Open then Some (batch_drop (av G) run wakes2 log2 q2 ())
        else close_loop G run q2 wakes2 log2
    | Unwind (q2, log2, wakes2) \<Rightarrow> Some (batch_drop_unwinding (av G) run wakes2 log2 q2)
    | Abort \<Rightarrow> Some Abort
    | UB \<Rightarrow> Some UB)"
    using c by (subst close_loop.simps) simp
  show ?case
  proof (cases "batch_wake_all (av G) run v1 log q1")
    case (Ret y u)
    obtain q2 log2 v2 where y: "y = (q2, log2, v2)" by (cases y)
    with woken Ret have q2: "queue_inv G V q2" "closed q2" "len q2 \<le> len q1" "elems v2 = []"
      by (simp_all add: closing_bound_def)
    show ?thesis
    proof (cases "queue q1 = Open")
      case True
      have "length (links V (pins q2)) < length (links V (pins q))"
        using q1 q2 True by (simp add: queue_inv_def batch_cap_def)
      from less.hyps [OF this q2(1,4)] step Ret y True show ?thesis by simp
    next
      case False
      then have "len q1 = 0" using q1 by (simp add: queue_inv_def)
      with q2 step Ret y False show ?thesis by (simp add: AV.batch_drop_empty queue_inv_def)
    qed
  next
    case (Unwind y)
    obtain q2 log2 v2 where y: "y = (q2, log2, v2)" by (cases y)
    with woken Unwind have "queue_inv G V q2" "closed q2" "elems v2 = []"
      by (simp_all add: closing_bound_def)
    with step Unwind y show ?thesis by (simp add: AV.batch_drop_unwinding_empty)
  qed (use woken step in simp_all)
qed

text \<open>Dropping a future when the wakers leave the queue alone: one whose permit is parked, and one that waits.\<close>

lemma drop_parked:
  assumes "inert run" and "queue_inv G V q" and "\<not> poisoned q" and "\<not> closed q"
    and "removed V (pins q) (fut_node fut) = Some (Inr a)" and "release (sem G) (state q) a = Returns s1 u"
    and "serve_all (acquire (sem G)) s1 (links V (pins q)) = (s', rest, gs, b)"
  obtains q' where "drop_acquire G run fut q =
      Some (if b then Unwind (q', grant_wakers gs) else Ret (q', grant_wakers gs) None)"
    "queue_inv G V q'" "state q' = s'" "links V (pins q') = rest"
    "removed V (pins q') = park ((removed V (pins q))(fut_node fut := None)) gs"
proof (rule drop_removed [OF assms(2,5)])
  fix m
  let ?q = "q\<lparr>pins := m, state := s1\<rparr>"
  assume d: "drop_node G (fut_node fut) q = (case Inr a of
      Inl e \<Rightarrow> Ret (q\<lparr>pins := m\<rparr>) (Some (Removed (Inl e)))
    | Inr a \<Rightarrow> (case release (sem G) (state q) a of
        Returns s _ \<Rightarrow> Ret (q\<lparr>pins := m, state := s\<rparr>) None
      | Panics s \<Rightarrow> Unwind (q\<lparr>pins := m, state := s, poisoned := True\<rparr>)))"
    and inv: "\<And>s. queue_inv G V (q\<lparr>pins := m, state := s\<rparr>)"
    and m: "links V m = links V (pins q)" "removed V m = (removed V (pins q))(fut_node fut := None)"
  have "drop_node G (fut_node fut) q = Ret ?q None" using d assms(6) by simp
  moreover have "queue_inv G V ?q" by (rule inv)
  moreover have "\<not> poisoned ?q" "\<not> closed ?q" using assms(3,4) by simp_all
  moreover have "serve_all (acquire (sem G)) (state ?q) (links V (pins ?q)) = (s', rest, gs, b)"
    using assms(7) m by simp
  ultimately obtain q' where "with_queue G run (drop_node G (fut_node fut)) q =
      Some (if b then Unwind (q', grant_wakers gs) else Ret (q', grant_wakers gs) None)"
    "queue_inv G V q'" "state q' = s'" "links V (pins q') = rest"
    "removed V (pins q') = park (removed V (pins ?q)) gs"
    by (rule with_queue_inert [OF assms(1)])
  moreover have "pl_initialized (pl G) (pins q) (fut_node fut)"
    using initialized_iff [OF assms(2)] assms(5) by simp
  ultimately show ?thesis using m by (auto simp: drop_acquire_def intro: that)
qed

lemma drop_waiting:
  assumes "inert run" and "queue_inv G V q" and "\<not> poisoned q" and "\<not> closed q"
    and "links V (pins q) = xs @ (fut_node fut, d) # ys"
    and "serve_all (acquire (sem G)) (state q) (xs @ ys) = (s', rest, gs, b)"
  obtains q' where "drop_acquire G run fut q =
      Some (if b then Unwind (q', grant_wakers gs) else Ret (q', grant_wakers gs) (Some (Linked d)))"
    "queue_inv G V q'" "state q' = s'" "links V (pins q') = rest"
    "removed V (pins q') = park (removed V (pins q)) gs"
proof (rule drop_linked [OF assms(2,5)])
  fix m
  let ?q = "q\<lparr>pins := m, len := len q - 1\<rparr>"
  assume d: "drop_node G (fut_node fut) q = Ret ?q (Some (Linked d))"
    and inv: "queue_inv G V ?q" and m: "links V m = xs @ ys" "removed V m = removed V (pins q)"
  have "serve_all (acquire (sem G)) (state ?q) (links V (pins ?q)) = (s', rest, gs, b)"
    using assms(6) m by simp
  moreover have "\<not> poisoned ?q" "\<not> closed ?q" using assms(3,4) by simp_all
  ultimately obtain q' where "with_queue G run (drop_node G (fut_node fut)) q =
      Some (if b then Unwind (q', grant_wakers gs) else Ret (q', grant_wakers gs) (Some (Linked d)))"
    "queue_inv G V q'" "state q' = s'" "links V (pins q') = rest"
    "removed V (pins q') = park (removed V (pins ?q)) gs"
    using d inv by (elim with_queue_inert [OF assms(1)])
  moreover have "pl_initialized (pl G) (pins q) (fut_node fut)"
    using initialized_iff [OF assms(2)] assms(5) by simp
  ultimately show ?thesis using m by (auto simp: drop_acquire_def intro: that)
qed

end

end
