(* ===== verification/Queue_System.thy ===== *)
theory Queue_System
  imports Queue_Ops
begin

text \<open>
  The queue among its users: futures that are polled and dropped, callers of \<open>try_acquire\<close>,
  \<open>with_state\<close>, \<open>close\<close> and \<open>clear_poison\<close>, and operations that are between two locked rounds with wakers
  left to invoke. Each step is one section under the mutex, or the invocation of one waker, of one
  participant; which one moves is not determined. Threads, and wakers that use the queue from
  within an operation, are both covered: while the mutex is free any other step may come in between.
\<close>

section \<open>State\<close>

text \<open>What an operation does when its batch is empty: return, run \<open>check\<close> again, or go on closing.\<close>

datatype resume = Stop | Recheck | Reclose

text \<open>
  \<open>frames\<close> are the operations in progress, each with the wakers still to invoke. Three fields record
  history: \<open>waker_of n\<close> is the waker of the last poll of \<open>n\<close> that returned pending; \<open>notified\<close> are the
  futures whose waker was invoked since then; \<open>owed\<close> says that the user has to follow up with
  another operation, after clearing poison or after a panic of a waker cut an operation short.
\<close>

record ('m, 's, 'p, 'o, 'w) sys =
  sq :: "('m, 's, 'o) queue_state"
  futs :: "nid \<Rightarrow> 'p acquire_future option"
  frames :: "('w list \<times> resume) list"
  waker_of :: "nid \<Rightarrow> 'w option"
  notified :: "nid set"
  owed :: bool

definition init_sys ::
  "('m, 'v, 's, 'p, 'a, 'o, 'w) generics \<Rightarrow> 's \<Rightarrow> 'o \<Rightarrow> ('m, 's, 'p, 'o, 'w) sys" where
  "init_sys G s ord = \<lparr>sq = new_queue G s ord, futs = Map.empty, frames = [],
     waker_of = Map.empty, notified = {}, owed = False\<rparr>"

section \<open>Locked rounds\<close>

text \<open>The first locked round of \<open>with_queue\<close>: the operation \<open>f\<close> and, if anyone waits, \<open>check\<close>.\<close>

definition first_round ::
  "('m, 'v, 's, 'p, 'a, 'o, 'w) generics \<Rightarrow> (('m, 's, 'o) queue_state \<Rightarrow> (('m, 's, 'o) queue_state, 'r) exec)
    \<Rightarrow> ('m, 's, 'o) queue_state \<Rightarrow> (('m, 's, 'o) queue_state \<times> 'v, unit) exec option" where
  "first_round G f q = (case f q of
     Ret q1 _ \<Rightarrow>
       if len q1 = 0 then Some (Ret (q1, av_new (av G)) ())
       else check G q1 (av_new (av G))
   | Unwind q1 \<Rightarrow> Some (Unwind (q1, av_new (av G)))
   | Abort \<Rightarrow> Some Abort
   | UB \<Rightarrow> Some UB)"

text \<open>Whether another round follows, decided before the mutex is released.\<close>

fun more_rounds :: "('m, 'v, 's, 'p, 'a, 'o, 'w) generics \<Rightarrow> resume \<Rightarrow> ('m, 's, 'o) queue_state \<Rightarrow> 'v \<Rightarrow> bool"
  where
  "more_rounds G Stop q wakes = False"
| "more_rounds G Recheck q wakes = (av_is_full (av G) wakes \<and> len q \<noteq> 0)"
| "more_rounds G Reclose q wakes = (queue q = Open)"

text \<open>The end of a round: the queue is unlocked, and the operation goes on as a frame. An unwinding
  operation still invokes the wakers of its batch.\<close>

fun round_end :: "('m, 'v, 's, 'p, 'a, 'o, 'w) generics \<Rightarrow> resume
    \<Rightarrow> (('m, 's, 'o) queue_state \<times> 'v, unit) exec \<Rightarrow> (('m, 's, 'o) queue_state \<times> 'w list \<times> resume) option"
  where
  "round_end G again (Ret (q, wakes) _) =
     Some (q, fst (av_drain (av G) wakes), if more_rounds G again q wakes then again else Stop)"
| "round_end G again (Unwind (q, wakes)) = Some (q, fst (av_drain (av G) wakes), Stop)"
| "round_end G again Abort = None"
| "round_end G again UB = None"

section \<open>Steps\<close>

text \<open>What a step means to the caller: a permit handed over, a change of the state by a closure, or neither.\<close>

datatype ('s, 'a) label = Quiet | Got 'a | Changed "'s \<Rightarrow> ('s, unit) call"

text \<open>What a participant does: the method, with its arguments, and what a poll or an attempt answers, where \<open>None\<close> is a
  panic. \<open>Checks\<close> is a further round of an operation in progress, \<open>Rests\<close> a step outside the mutex.\<close>

datatype ('s, 'p, 'a, 'w) deed =
    Creates nid 'p
  | Polls nid 'w "('p acquire_error + 'a) poll option"
  | Tries 'p bool "('p try_acquire_error + 'a) option"
  | Drops nid
  | Changes "'s \<Rightarrow> ('s, unit) call"
  | Closes
  | Clears
  | Checks
  | Rests

fun label_of :: "('s, 'p, 'a, 'w) deed \<Rightarrow> ('s, 'a) label" where
  "label_of (Polls n w (Some (Ready r))) = (case r of Inr a \<Rightarrow> Got a | Inl _ \<Rightarrow> Quiet)"
| "label_of (Tries p fair (Some r)) = (case r of Inr a \<Rightarrow> Got a | Inl _ \<Rightarrow> Quiet)"
| "label_of (Changes f) = Changed f"
| "label_of _ = Quiet"

inductive does ::
  "('m, 'v, 's, 'p, 'a, 'o, 'w) generics \<Rightarrow> ('s, 'p, 'a, 'w) deed
    \<Rightarrow> ('m, 's, 'p, 'o, 'w) sys \<Rightarrow> ('m, 's, 'p, 'o, 'w) sys \<Rightarrow> bool"
  for G where
  new_future: "futs s n = None \<Longrightarrow>
    does G (Creates n p) s (s\<lparr>futs := (futs s)(n \<mapsto> queue_acquire n p)\<rparr>)"
| poll_ready: "futs s n = Some fut \<Longrightarrow> poll G w fut (sq s) = Ret (q', fut') (Ready r) \<Longrightarrow>
    does G (Polls n w (Some (Ready r))) s (s\<lparr>sq := q', futs := (futs s)(n \<mapsto> fut')\<rparr>)"
| poll_pending: "futs s n = Some fut \<Longrightarrow> poll G w fut (sq s) = Ret (q', fut') Pending \<Longrightarrow>
    does G (Polls n w (Some Pending)) s (s\<lparr>sq := q', futs := (futs s)(n \<mapsto> fut'), waker_of := (waker_of s)(n \<mapsto> w),
      notified := notified s - {n}\<rparr>)"
| poll_unwind: "futs s n = Some fut \<Longrightarrow> poll G w fut (sq s) = Unwind (q', fut') \<Longrightarrow>
    does G (Polls n w None) s (s\<lparr>sq := q', futs := (futs s)(n \<mapsto> fut')\<rparr>)"
| try_return: "try_acquire G p fair (sq s) = Ret q' r \<Longrightarrow> does G (Tries p fair (Some r)) s (s\<lparr>sq := q'\<rparr>)"
| try_unwind: "try_acquire G p fair (sq s) = Unwind q' \<Longrightarrow> does G (Tries p fair None) s (s\<lparr>sq := q'\<rparr>)"
| drop_initial: "futs s n = Some fut \<Longrightarrow> \<not> pl_initialized (pl G) (pins (sq s)) (fut_node fut) \<Longrightarrow>
    does G (Drops n) s (s\<lparr>futs := (futs s)(n := None)\<rparr>)"
| drop_future: "futs s n = Some fut \<Longrightarrow> pl_initialized (pl G) (pins (sq s)) (fut_node fut) \<Longrightarrow>
    first_round G (drop_node G (fut_node fut)) (sq s) = Some x \<Longrightarrow>
    round_end G Recheck x = Some (q', frame) \<Longrightarrow>
    does G (Drops n) s (s\<lparr>sq := q', futs := (futs s)(n := None), frames := frame # frames s, owed := False\<rparr>)"
| change_state: "first_round G (update_state f) (sq s) = Some x \<Longrightarrow>
    round_end G Recheck x = Some (q', frame) \<Longrightarrow>
    does G (Changes f) s (s\<lparr>sq := q', frames := frame # frames s, owed := False\<rparr>)"
| start_close: "CLOSE (mode G) \<Longrightarrow> close_fill G (sq s) (av_new (av G)) = Some x \<Longrightarrow>
    round_end G Reclose x = Some (q', frame) \<Longrightarrow>
    does G Closes s (s\<lparr>sq := q', frames := frame # frames s\<rparr>)"
| clear: "does G Clears s (s\<lparr>sq := clear_poison (sq s), owed := True\<rparr>)"
| wake: "frames s = fs @ (w # ws, k) # gs \<Longrightarrow>
    does G Rests s (s\<lparr>frames := fs @ (ws, k) # gs,
      notified := notified s \<union> {n. waker_of s n = Some w}\<rparr>)"
| wake_unwind: "frames s = fs @ (w # ws, k) # gs \<Longrightarrow>
    does G Rests s (s\<lparr>frames := fs @ (ws, Stop) # gs,
      notified := notified s \<union> {n. waker_of s n = Some w}, owed := (owed s \<or> k = Recheck)\<rparr>)"
| recheck: "frames s = fs @ ([], Recheck) # gs \<Longrightarrow> check G (sq s) (av_new (av G)) = Some x \<Longrightarrow>
    round_end G Recheck x = Some (q', frame) \<Longrightarrow>
    does G Checks s (s\<lparr>sq := q', frames := fs @ frame # gs\<rparr>)"
| reclose: "CLOSE (mode G) \<Longrightarrow> frames s = fs @ ([], Reclose) # gs \<Longrightarrow> close_fill G (sq s) (av_new (av G)) = Some x \<Longrightarrow>
    round_end G Reclose x = Some (q', frame) \<Longrightarrow>
    does G Closes s (s\<lparr>sq := q', frames := fs @ frame # gs\<rparr>)"
| finish: "frames s = fs @ ([], Stop) # gs \<Longrightarrow> does G Rests s (s\<lparr>frames := fs @ gs\<rparr>)"

text \<open>A step of the system is an action of some participant.\<close>

definition act ::
  "('m, 'v, 's, 'p, 'a, 'o, 'w) generics \<Rightarrow> ('s, 'a) label
    \<Rightarrow> ('m, 's, 'p, 'o, 'w) sys \<Rightarrow> ('m, 's, 'p, 'o, 'w) sys \<Rightarrow> bool" where
  "act G l s t \<longleftrightarrow> (\<exists>d. does G d s t \<and> label_of d = l)"

definition sys_step ::
  "('m, 'v, 's, 'p, 'a, 'o, 'w) generics \<Rightarrow> ('m, 's, 'p, 'o, 'w) sys \<Rightarrow> ('m, 's, 'p, 'o, 'w) sys \<Rightarrow> bool" where
  "sys_step G s t \<longleftrightarrow> (\<exists>l. act G l s t)"

lemma sys_step_does: "sys_step G s t \<longleftrightarrow> (\<exists>d. does G d s t)"
  by (auto simp: sys_step_def act_def)

lemma does_act: "does G d s t \<Longrightarrow> act G (label_of d) s t"
  by (auto simp: act_def)

lemma act_step: "act G l s t \<Longrightarrow> sys_step G s t"
  by (auto simp: sys_step_def)

lemma does_step: "does G d s t \<Longrightarrow> sys_step G s t"
  by (auto simp: sys_step_does)

inductive reachable ::
  "('m, 'v, 's, 'p, 'a, 'o, 'w) generics \<Rightarrow> ('m, 's, 'p, 'o, 'w) sys \<Rightarrow> bool" for G where
  start: "reachable G (init_sys G s ord)"
| step: "reachable G s \<Longrightarrow> sys_step G s t \<Longrightarrow> reachable G t"

section \<open>Invariant\<close>

text \<open>The wakers that operations in progress still have to invoke.\<close>

definition pending_wakes :: "('w list \<times> resume) list \<Rightarrow> 'w set" where
  "pending_wakes fs = (\<Union>fr \<in> set fs. set (fst fr))"

text \<open>
  The queue is well formed; the nodes belong to the futures that exist and were polled; a linked
  node carries the waker of the last poll; and a node that left the list was notified or its
  waker is about to be invoked.
\<close>

definition sys_inv ::
  "('m, 'v, 's, 'p, 'a, 'o, 'w) generics \<Rightarrow> ('m, 'p, 'a, 'w) queue_view \<Rightarrow> ('m, 's, 'p, 'o, 'w) sys \<Rightarrow> bool"
  where
  "sys_inv G V s \<longleftrightarrow>
     queue_inv G V (sq s) \<and>
     (\<forall>n fut. futs s n = Some fut \<longrightarrow> fut_node fut = n) \<and>
     (\<forall>n prm w. (n, prm, w) \<in> set (links V (pins (sq s))) \<longrightarrow> waker_of s n = Some w \<and> futs s n \<noteq> None) \<and>
     (\<forall>n r. removed V (pins (sq s)) n = Some r \<longrightarrow> futs s n \<noteq> None \<and>
        (n \<in> notified s \<or> (\<exists>w. waker_of s n = Some w \<and> w \<in> pending_wakes (frames s))))"

text \<open>A section that comes to an end, by return or by unwinding.\<close>

definition completes :: "('q, 'r) exec option \<Rightarrow> bool" where
  "completes x \<longleftrightarrow> (\<exists>y. x = Some y \<and> y \<noteq> Abort \<and> y \<noteq> UB)"

section \<open>What a section does to the nodes\<close>

text \<open>Linked nodes stay, with their waker, or leave; a node leaves into the removed state only with its
  waker among \<open>W\<close>.\<close>

definition moved :: "('m, 'p, 'a, 'w) queue_view \<Rightarrow> ('m, 's, 'o) queue_state \<Rightarrow> ('m, 's, 'o) queue_state
    \<Rightarrow> 'w set \<Rightarrow> bool" where
  "moved V q q' W \<longleftrightarrow>
     (\<forall>n prm w. (n, prm, w) \<in> set (links V (pins q')) \<longrightarrow> (\<exists>prm'. (n, prm', w) \<in> set (links V (pins q)))) \<and>
     (\<forall>n r. removed V (pins q') n = Some r \<longrightarrow> removed V (pins q) n \<noteq> None \<or>
        (\<exists>prm w. (n, prm, w) \<in> set (links V (pins q)) \<and> w \<in> W))"

lemma moved_refl: "pins q' = pins q \<Longrightarrow> moved V q q' W"
  by (auto simp: moved_def)

lemma moved_trans:
  assumes "moved V q q1 {}" and "moved V q1 q2 W"
  shows "moved V q q2 W"
  using assms unfolding moved_def by (metis empty_iff option.exhaust)

lemma moved_fresh:
  assumes "moved V q q' W" and "n \<notin> ids (links V (pins q))" and "removed V (pins q) n = None"
  shows "n \<notin> ids (links V (pins q')) \<and> removed V (pins q') n = None"
proof -
  have fresh: "(n, prm, w) \<notin> set (links V (pins q))" for prm w
    using assms(2) by force
  then have "(n, prm, w) \<notin> set (links V (pins q'))" for prm w
    using assms(1) unfolding moved_def by blast
  moreover have "removed V (pins q') n \<noteq> Some r" for r
    using assms(1,3) fresh unfolding moved_def by blast
  ultimately show ?thesis by auto
qed

lemma serve_grants_in:
  assumes "serve acq k s xs = (s', rest, gs, b)" and "(n, a, w) \<in> set gs"
  shows "\<exists>prm. (n, prm, w) \<in> set xs"
proof -
  have "(n, w) \<in> set (map (\<lambda>(n, _, w). (n, w)) gs)"
    using assms(2) by force
  then have "(n, w) \<in> set (live xs)"
    using serve_grants_prefix [OF assms(1)] by (metis in_set_takeD)
  then show ?thesis by (auto simp: live_def)
qed

lemma serve_rest_sub:
  "serve acq k s xs = (s', rest, gs, b) \<Longrightarrow>
    (\<lambda>(n, _, w). (n, w)) ` set rest \<subseteq> (\<lambda>(n, _, w). (n, w)) ` set xs"
proof (induction acq k s xs arbitrary: s' rest gs b rule: serve.induct)
  case (1 acq k s)
  then show ?case by simp
next
  case (2 acq k s n w xs)
  then show ?case by (fastforce split: prod.splits)
next
  case (3 acq k s n p w xs)
  consider (stop) "(\<lambda>(n, _, w). (n, w)) ` set rest \<subseteq> insert (n, w) ((\<lambda>(n, _, w). (n, w)) ` set xs)"
    | (more) s1 a gs' where "acq s p = Returns s1 (Inr a)" "\<not> k \<le> 1"
        "serve acq (k - 1) s1 xs = (s', rest, gs', b)"
    using "3.prems"(1) by (auto split: call.splits sum.splits prod.splits if_splits)
  then show ?case
  proof cases
    case stop
    then show ?thesis by simp
  next
    case more
    from "3.IH" [OF more(1) refl more(2,3)] show ?thesis by auto
  qed
qed

lemma serve_rest_in:
  assumes "serve acq k s xs = (s', rest, gs, b)" and "(n, prm, w) \<in> set rest"
  shows "\<exists>prm'. (n, prm', w) \<in> set xs"
proof -
  have "(n, w) \<in> (\<lambda>(n, _, w). (n, w)) ` set rest"
    using assms(2) by force
  with serve_rest_sub [OF assms(1)] show ?thesis by fastforce
qed

lemma revoke_Some: "revoke rm xs n = Some r \<Longrightarrow> rm n = Some r \<or> (\<exists>prm w. (n, prm, w) \<in> set xs)"
proof (induction rm xs rule: revoke.induct)
  case (2 rm m prm w xs)
  have "revoke (rm(m \<mapsto> Inl prm)) xs n = Some r"
    using "2.prems" by simp
  from "2.IH" [OF this] show ?case by (auto split: if_splits)
qed simp

lemma park_Some: "park rm gs n = Some r \<Longrightarrow> rm n = Some r \<or> (\<exists>a w. (n, a, w) \<in> set gs)"
  by (cases "n \<in> fst ` set gs") (auto simp: park_other)

lemma pending_wakes_simps [simp]:
  "pending_wakes [] = {}"
  "pending_wakes (fr # fs) = set (fst fr) \<union> pending_wakes fs"
  "pending_wakes (fs @ gs) = pending_wakes fs \<union> pending_wakes gs"
  by (auto simp: pending_wakes_def)

text \<open>A step that moves nodes only as \<open>moved\<close> says, and owes the wakers of those it removed to a frame.\<close>

lemma sys_inv_move:
  assumes "sys_inv G V s" and "queue_inv G V (sq t)" and "moved V (sq s) (sq t) W"
    and "W \<union> pending_wakes (frames s) \<subseteq> pending_wakes (frames t)"
    and "waker_of t = waker_of s" and "notified s \<subseteq> notified t"
    and "\<And>n fut. futs t n = Some fut \<Longrightarrow> fut_node fut = n"
    and "\<And>n. futs s n \<noteq> None \<Longrightarrow> futs t n = None \<Longrightarrow>
      n \<notin> ids (links V (pins (sq t))) \<and> removed V (pins (sq t)) n = None"
  shows "sys_inv G V t"
  unfolding sys_inv_def
proof (intro conjI allI impI)
  have linked: "waker_of s n = Some w \<and> futs s n \<noteq> None" if "(n, prm, w) \<in> set (links V (pins (sq s)))" for n prm w
    using assms(1) that by (auto simp: sys_inv_def)
  show "queue_inv G V (sq t)" by (rule assms(2))
  show "fut_node fut = n" if "futs t n = Some fut" for n fut
    using assms(7) that .
  fix n prm w
  assume l: "(n, prm, w) \<in> set (links V (pins (sq t)))"
  then obtain prm' where "(n, prm', w) \<in> set (links V (pins (sq s)))"
    using assms(3) unfolding moved_def by blast
  with linked have "waker_of s n = Some w" "futs s n \<noteq> None" by blast+
  moreover have "n \<in> ids (links V (pins (sq t)))" using l by force
  ultimately show "waker_of t n = Some w" "futs t n \<noteq> None"
    using assms(5,8) by metis+
next
  fix n r
  assume r: "removed V (pins (sq t)) n = Some r"
  consider (old) "removed V (pins (sq s)) n \<noteq> None"
    | (new) prm w where "(n, prm, w) \<in> set (links V (pins (sq s)))" "w \<in> W"
    using assms(3) r unfolding moved_def by blast
  then have "futs s n \<noteq> None \<and>
      (n \<in> notified s \<or> (\<exists>w. waker_of s n = Some w \<and> w \<in> W \<union> pending_wakes (frames s)))"
    using assms(1) by cases (auto simp: sys_inv_def)
  then show "futs t n \<noteq> None" "n \<in> notified t \<or> (\<exists>w. waker_of t n = Some w \<and> w \<in> pending_wakes (frames t))"
    using assms(4-6) assms(8) [of n] r by auto
qed

context queue_deps
begin

lemma check_moved:
  assumes "queue_inv G V q" and "length (elems wakes) < batch_cap"
  obtains q' v' b where "check G q wakes = Some (if b then Unwind (q', v') else Ret (q', v') ())"
    "queue_inv G V q'" "moved V q q' (set (elems v'))"
  using assms
proof (rule check_result)
  fix q' v' gs b
  assume c: "check G q wakes = Some (if b then Unwind (q', v') else Ret (q', v') ())"
      "queue_inv G V q'" "removed V (pins q') = park (removed V (pins q)) gs"
      "elems v' = elems wakes @ grant_wakers gs"
    and srv: "if poisoned q \<or> closed q then q' = q \<and> gs = [] \<and> \<not> b
     else serve (acquire (sem G)) (batch_cap - length (elems wakes)) (state q) (links V (pins q)) =
       (state q', links V (pins q'), gs, b)"
  have "moved V q q' (set (elems v'))"
  proof (cases "poisoned q \<or> closed q")
    case True
    with srv show ?thesis by (simp add: moved_refl)
  next
    case False
    with srv have s: "serve (acquire (sem G)) (batch_cap - length (elems wakes)) (state q) (links V (pins q)) =
       (state q', links V (pins q'), gs, b)" by simp
    have "w \<in> set (elems v')" if "(n, a, w) \<in> set gs" for n a w
      using that c(4) by (force simp: grant_wakers_def)
    then show ?thesis
      unfolding moved_def c(3)
      using serve_rest_in [OF s] serve_grants_in [OF s] by (blast dest: park_Some)
  qed
  with c that show ?thesis by blast
qed

text \<open>A round that ends moves nodes as \<open>moved\<close> says, with the wakers of its frame.\<close>

lemma check_round:
  assumes "queue_inv G V q" and "check G q (av_new (av G)) = Some x"
    and "round_end G k x = Some (q', ws, k')"
  shows "queue_inv G V q' \<and> moved V q q' (set ws)"
proof (rule check_moved [OF assms(1), of "av_new (av G)"])
  show "length (elems (av_new (av G))) < batch_cap" by (simp add: batch_cap_def AV.av_new)
qed (use assms(2,3) AV.av_drain in \<open>auto split: if_splits\<close>)

lemma first_round_cases:
  assumes "first_round G f q = Some x" and "round_end G k x = Some (q', frame)"
  obtains (plain) r where "f q = Ret q' r" "len q' = 0"
  | (unwound) "f q = Unwind q'"
  | (served) q1 r where "f q = Ret q1 r" "check G q1 (av_new (av G)) = Some x"
  using assms by (auto simp: first_round_def split: exec.splits if_splits)

lemma first_round_moved:
  assumes "first_round G f q = Some x" and "round_end G k x = Some (q', ws, k')"
    and "\<And>q1 r. f q = Ret q1 r \<or> f q = Unwind q1 \<Longrightarrow> queue_inv G V q1 \<and> P q1"
  obtains q1 where "P q1" "queue_inv G V q1" "queue_inv G V q'" "moved V q1 q' (set ws)"
  using assms(1,2)
proof (cases rule: first_round_cases)
  case (plain r)
  with assms(3) that [of q'] show ?thesis by (simp add: moved_refl)
next
  case unwound
  with assms(3) that [of q'] show ?thesis by (simp add: moved_refl)
next
  case (served q1 r)
  with assms(3) have "queue_inv G V q1" "P q1" by auto
  with check_round [OF this(1) served(2) assms(2)] that show ?thesis by blast
qed

lemma close_round:
  assumes "queue_inv G V q" and "CLOSE (mode G)" and "close_fill G q (av_new (av G)) = Some x"
    and "round_end G k x = Some (q', ws, k')"
  shows "queue_inv G V q' \<and> moved V q q' (set ws) \<and> closed q' \<and>
    links V (pins q') = drop batch_cap (links V (pins q)) \<and>
    removed V (pins q') = revoke (removed V (pins q)) (take batch_cap (links V (pins q))) \<and>
    state q' = state q \<and> poisoned q' = poisoned q"
proof (rule close_fill_result [OF assms(1,2) AV.av_new])
  fix q1 v1
  assume c: "close_fill G q (av_new (av G)) = Some (Ret (q1, v1) ())"
    and q1: "queue_inv G V q1" "closed q1" "state q1 = state q" "poisoned q1 = poisoned q"
      "links V (pins q1) = drop batch_cap (links V (pins q))"
      "removed V (pins q1) = revoke (removed V (pins q)) (take batch_cap (links V (pins q)))"
      "elems v1 = map (snd \<circ> snd) (take batch_cap (links V (pins q)))"
  have "moved V q q1 (set (elems v1))"
    unfolding moved_def q1
    by (force dest!: revoke_Some dest: in_set_dropD in_set_takeD)
  with c q1 assms(3,4) AV.av_drain(1) [of v1] show ?thesis by auto
qed

lemma drop_moved:
  assumes "queue_inv G V q" and "pl_initialized (pl G) (pins q) n"
    and "drop_node G n q = Ret q1 r \<or> drop_node G n q = Unwind q1"
  shows "queue_inv G V q1 \<and> moved V q q1 {} \<and>
    n \<notin> ids (links V (pins q1)) \<and> removed V (pins q1) n = None"
  by (rule drop_result [OF assms(1,2)])
    (use assms(3) in \<open>auto simp: moved_def split: sum.splits call.splits if_splits\<close>)

text \<open>A poll that does not wait takes at most its own node; a poll that waits leaves its node linked,
  with the waker it was given.\<close>

lemma poll_done:
  assumes "queue_inv G V q"
    and "poll G cx fut q = Ret (q', fut') (Ready r) \<or> poll G cx fut q = Unwind (q', fut')"
  shows "queue_inv G V q' \<and> moved V q q' {} \<and> fut_node fut' = fut_node fut"
  by (rule poll_result [OF assms(1), where cx = cx and fut = fut])
    (use assms in \<open>auto simp: same_list_def moved_def split: option.splits sum.splits if_splits\<close>)

lemma poll_waits:
  assumes "queue_inv G V q" and "poll G cx fut q = Ret (q', fut') Pending"
  shows "queue_inv G V q' \<and> fut_node fut' = fut_node fut \<and> removed V (pins q') = removed V (pins q) \<and>
    removed V (pins q') (fut_node fut) = None \<and>
    (\<forall>m prm w. (m, prm, w) \<in> set (links V (pins q')) \<longrightarrow>
      m = fut_node fut \<and> w = cx \<or> m \<noteq> fut_node fut \<and> (m, prm, w) \<in> set (links V (pins q)))"
  by (rule poll_result [OF assms(1), where cx = cx and fut = fut])
    (use assms(2) in \<open>force split: option.splits sum.splits\<close>)+

lemma try_done:
  assumes "queue_inv G V q" and "try_acquire G p fair q = Ret q' r \<or> try_acquire G p fair q = Unwind q'"
  shows "queue_inv G V q' \<and> same_list q q'"
  by (rule acquire_or_enqueue_result [OF assms(1), of p fair])
    (use assms in \<open>auto simp: try_acquire_def dest: same_list_inv [OF _ assms(1)]\<close>)

lemma update_state_done:
  assumes "queue_inv G V q" and "update_state f q = Ret q' r \<or> update_state f q = Unwind q'"
  shows "queue_inv G V q' \<and> same_list q q'"
  using assms by (cases "f (state q)")
    (auto simp: update_state_def same_list_def queue_inv_def)

text \<open>Every step keeps the invariant of the system: first those of one future, then the others.\<close>

lemma sys_inv_at: "sys_inv G V s \<Longrightarrow> futs s n = Some fut \<Longrightarrow> fut_node fut = n"
  by (simp add: sys_inv_def)

lemma sys_inv_queue: "sys_inv G V s \<Longrightarrow> queue_inv G V (sq s)"
  by (simp add: sys_inv_def)

lemma poll_sys_inv:
  assumes "sys_inv G V s" and "futs s n = Some fut"
  shows "poll G w fut (sq s) = Ret (q', fut') (Ready r) \<or> poll G w fut (sq s) = Unwind (q', fut') \<Longrightarrow>
      sys_inv G V (s\<lparr>sq := q', futs := (futs s)(n \<mapsto> fut')\<rparr>)"
    and "poll G w fut (sq s) = Ret (q', fut') Pending \<Longrightarrow>
      sys_inv G V (s\<lparr>sq := q', futs := (futs s)(n \<mapsto> fut'), waker_of := (waker_of s)(n \<mapsto> w),
        notified := notified s - {n}\<rparr>)"
proof -
  note inv = sys_inv_queue [OF assms(1)] and at = sys_inv_at [OF assms(1)]
  show "sys_inv G V (s\<lparr>sq := q', futs := (futs s)(n \<mapsto> fut')\<rparr>)"
    if "poll G w fut (sq s) = Ret (q', fut') (Ready r) \<or> poll G w fut (sq s) = Unwind (q', fut')"
    using poll_done [OF inv that] at [OF assms(2)]
    by (intro sys_inv_move [OF assms(1), where W = "{}"]) (auto simp: at split: if_splits)
  assume poll: "poll G w fut (sq s) = Ret (q', fut') Pending"
  from poll_waits [OF inv poll] at [OF assms(2)] have
    q: "queue_inv G V q'" "fut_node fut' = n" "removed V (pins q') = removed V (pins (sq s))"
      "removed V (pins q') n = None"
    and l: "\<And>m prm w'. (m, prm, w') \<in> set (links V (pins q')) \<Longrightarrow>
      m = n \<and> w' = w \<or> m \<noteq> n \<and> (m, prm, w') \<in> set (links V (pins (sq s)))" by auto
  show "sys_inv G V (s\<lparr>sq := q', futs := (futs s)(n \<mapsto> fut'), waker_of := (waker_of s)(n \<mapsto> w),
      notified := notified s - {n}\<rparr>)"
    unfolding sys_inv_def using q assms(1) at
    by (auto simp: sys_inv_def dest!: l split: if_splits)
qed

lemma drop_sys_inv:
  assumes "sys_inv G V s" and "futs s n = Some fut" and "pl_initialized (pl G) (pins (sq s)) (fut_node fut)"
    and "first_round G (drop_node G (fut_node fut)) (sq s) = Some x" and "round_end G k x = Some (q', ws, k')"
  shows "sys_inv G V (s\<lparr>sq := q', futs := (futs s)(n := None), frames := (ws, k') # frames s, owed := False\<rparr>)"
proof -
  note inv = sys_inv_queue [OF assms(1)] and at = sys_inv_at [OF assms(1)]
  let ?P = "\<lambda>q1. moved V (sq s) q1 {} \<and> n \<notin> ids (links V (pins q1)) \<and> removed V (pins q1) n = None"
  have drp: "queue_inv G V q1 \<and> ?P q1"
    if "drop_node G (fut_node fut) (sq s) = Ret q1 r \<or> drop_node G (fut_node fut) (sq s) = Unwind q1" for q1 r
    using drop_moved [OF inv assms(3) that] at [OF assms(2)] by simp
  from assms(4,5) drp obtain q1 where q1: "?P q1" and q': "queue_inv G V q'" "moved V q1 q' (set ws)"
    by (rule first_round_moved [where P = ?P])
  from moved_fresh [OF q'(2)] q1 have "n \<notin> ids (links V (pins q'))" "removed V (pins q') n = None"
    by simp_all
  moreover have "moved V (sq s) q' (set ws)"
    using q1 q'(2) by (blast intro: moved_trans)
  ultimately show ?thesis
    using q'(1) at by (intro sys_inv_move [OF assms(1), where W = "set ws"]) (auto split: if_splits)
qed

lemma change_moved:
  assumes "queue_inv G V q" and "first_round G (update_state f) q = Some x" and "round_end G k x = Some (q', ws, k')"
  shows "queue_inv G V q' \<and> moved V q q' (set ws)"
proof -
  from assms(2,3) update_state_done [OF assms(1)] obtain q1 where
    q1: "same_list q q1" "queue_inv G V q'" "moved V q1 q' (set ws)"
    by (rule first_round_moved [where P = "same_list q"])
  moreover have "moved V q q' (set ws)"
    using q1(1) by (intro moved_trans [OF _ q1(3)] moved_refl) (simp add: same_list_def)
  ultimately show ?thesis by blast
qed

lemma step_sys_inv:
  assumes "sys_inv G V s" and "sys_step G s t"
  shows "sys_inv G V t"
proof -
  note inv = sys_inv_queue [OF assms(1)] and at = sys_inv_at [OF assms(1)]
  note move = sys_inv_move [OF assms(1)]
  from assms(2) obtain d where "does G d s t" by (auto simp: sys_step_does)
  then show ?thesis
  proof cases
    case (new_future n p)
    show ?thesis
      by (rule move [where W = "{}"])
        (use inv at new_future in \<open>auto simp: moved_refl queue_acquire_def split: if_splits\<close>)
  next
    case (try_return p fair q' r)
    with try_done [OF inv, of p fair q' r] show ?thesis
      by (intro move [where W = "{}"]) (auto simp: at same_list_def moved_refl)
  next
    case (try_unwind p fair q')
    with try_done [OF inv, of p fair q'] show ?thesis
      by (intro move [where W = "{}"]) (auto simp: at same_list_def moved_refl)
  next
    case (drop_initial n fut)
    with initialized_iff [OF inv, of n] at show ?thesis
      by (intro move [where W = "{}"]) (auto simp: inv moved_refl split: if_splits)
  next
    case (drop_future n fut x q' frame)
    then show ?thesis
      using drop_sys_inv [OF assms(1) drop_future(3-5), of Recheck q' "fst frame" "snd frame"] by simp
  next
    case (change_state f x q' frame)
    with change_moved [OF inv, of f x Recheck q' "fst frame" "snd frame"] at show ?thesis
      by (intro move [where W = "set (fst frame)"]) auto
  next
    case (start_close x q' frame)
    with close_round [OF inv start_close(3,4), of Reclose q' "fst frame" "snd frame"] at show ?thesis
      by (intro move [where W = "set (fst frame)"]) auto
  next
    case clear
    with inv at show ?thesis
      by (intro move [where W = "{}"]) (auto simp: clear_poison_def queue_inv_def moved_refl)
  next
    case (recheck fs gs x q' frame)
    with check_round [OF inv recheck(4), of Recheck q' "fst frame" "snd frame"] at show ?thesis
      by (intro move [where W = "set (fst frame)"]) auto
  next
    case (reclose fs gs x q' frame)
    with close_round [OF inv reclose(3,5), of Reclose q' "fst frame" "snd frame"] at show ?thesis
      by (intro move [where W = "set (fst frame)"]) auto
  next
    case (finish fs gs)
    with inv at show ?thesis
      by (intro move [where W = "{}"]) (auto simp: moved_refl)
  next
    case (poll_ready n fut w q' fut' r)
    with poll_sys_inv(1) [OF assms(1) poll_ready(3), of w q' fut' r] show ?thesis by simp
  next
    case (poll_pending n fut w q' fut')
    with poll_sys_inv(2) [OF assms(1) poll_pending(3), of w q' fut'] show ?thesis by simp
  next
    case (poll_unwind n fut w q' fut')
    with poll_sys_inv(1) [OF assms(1) poll_unwind(3), of w q' fut' undefined] show ?thesis by simp
  qed (use assms(1) in \<open>(force simp: sys_inv_def)+\<close>)
qed

text \<open>The sections end, in defined behaviour and without aborting.\<close>

lemma check_completes:
  assumes "queue_inv G V q"
  shows "completes (check G q (av_new (av G)))"
proof -
  have "length (elems (av_new (av G))) < batch_cap" by (simp add: batch_cap_def AV.av_new)
  from check_total [OF assms this] show ?thesis by (auto simp: completes_def dest: exec_all_not_UB)
qed

lemma first_round_total:
  assumes "exec_all (queue_inv G V) (f q)" and "f q \<noteq> Abort"
  shows "completes (first_round G f q)"
proof -
  from assms show ?thesis
    by (cases "f q") (auto simp: first_round_def completes_def dest: check_completes [unfolded completes_def])
qed

lemma close_fill_total:
  assumes "queue_inv G V q" and "CLOSE (mode G)"
  shows "completes (close_fill G q (av_new (av G)))"
  by (rule close_fill_result [OF assms AV.av_new]) (simp add: completes_def)

lemma reachable_sys_inv: "reachable G s \<Longrightarrow> sys_inv G V s"
proof (induction rule: reachable.induct)
  case (start s ord)
  have "links V (pl_new (pl G)) = []" "removed V (pl_new (pl G)) = Map.empty"
    by (rule PL.new)+
  then show ?case
    using new_queue_inv [of s ord] by (simp add: sys_inv_def init_sys_def new_queue_def)
next
  case (step s t)
  then show ?case by (blast intro: step_sys_inv)
qed

end

section \<open>Reasoning section by section\<close>

text \<open>
  An interface for relations between the queue before and after an action: if each kind of section has it,
  and serving the list afterwards keeps it, every action has it. The label says what the
  action hands over or changes.
\<close>

locale queue_sections = queue_deps G V elems
  for G :: "('m, 'v, 's, 'p, 'a, 'o, 'w) generics"
    and V :: "('m, 'p, 'a, 'w) queue_view"
    and elems :: "'v \<Rightarrow> 'w list" +
  fixes R :: "('s, 'a) label \<Rightarrow> ('m, 's, 'o) queue_state \<Rightarrow> ('m, 's, 'o) queue_state \<Rightarrow> bool"
  assumes idle: "R Quiet q q"
    and cleared: "R Quiet q (clear_poison q)"
    and polled: "queue_inv G V q \<Longrightarrow> poll G cx fut q = Ret (q', fut') r \<Longrightarrow>
      R (case r of Ready (Inr a) \<Rightarrow> Got a | _ \<Rightarrow> Quiet) q q'"
    and poll_unwound: "queue_inv G V q \<Longrightarrow> poll G cx fut q = Unwind (q', fut') \<Longrightarrow> R Quiet q q'"
    and tried: "queue_inv G V q \<Longrightarrow> try_acquire G p fair q = Ret q' t \<Longrightarrow>
      R (case t of Inr a \<Rightarrow> Got a | Inl _ \<Rightarrow> Quiet) q q'"
    and try_unwound: "queue_inv G V q \<Longrightarrow> try_acquire G p fair q = Unwind q' \<Longrightarrow> R Quiet q q'"
    and dropped: "queue_inv G V q \<Longrightarrow> pl_initialized (pl G) (pins q) n \<Longrightarrow>
      drop_node G n q = Ret q' d \<or> drop_node G n q = Unwind q' \<Longrightarrow> R Quiet q q'"
    and changed: "queue_inv G V q \<Longrightarrow> update_state f q = Ret q' u \<or> update_state f q = Unwind q' \<Longrightarrow> R (Changed f) q q'"
    and served: "queue_inv G V q1 \<Longrightarrow> R l q q1 \<Longrightarrow> check G q1 (av_new (av G)) = Some x \<Longrightarrow>
      round_end G k x = Some (q', frame) \<Longrightarrow> R l q q'"
    and closed: "queue_inv G V q \<Longrightarrow> CLOSE (mode G) \<Longrightarrow> close_fill G q (av_new (av G)) = Some x \<Longrightarrow>
      round_end G k x = Some (q', frame) \<Longrightarrow> R Quiet q q'"
begin

lemma round_has:
  assumes "first_round G f q = Some x" and "round_end G k x = Some (q', frame)"
    and "\<And>q1 r. f q = Ret q1 r \<or> f q = Unwind q1 \<Longrightarrow> queue_inv G V q1 \<and> R l q q1"
  shows "R l q q'"
  using assms(1,2)
proof (cases rule: first_round_cases)
  case (served q1 r)
  with assms(3) have "queue_inv G V q1" "R l q q1" by auto
  from queue_sections.served [OF queue_sections_axioms this served(2) assms(2)] show ?thesis .
qed (use assms(3) in auto)

lemma act_has:
  assumes "sys_inv G V s" and "act G l s t"
  shows "R l (sq s) (sq t)"
proof -
  have inv: "queue_inv G V (sq s)" using assms(1) by (simp add: sys_inv_def)
  from assms(2) obtain d where d: "does G d s t" "label_of d = l" by (auto simp: act_def)
  from d(1) have "R (label_of d) (sq s) (sq t)"
  proof cases
    case (poll_ready n fut w q' fut' r)
    with polled [OF inv poll_ready(4)] show ?thesis by simp
  next
    case (poll_pending n fut w q' fut')
    with polled [OF inv poll_pending(4)] show ?thesis by simp
  next
    case (drop_future n fut x q' frame)
    have "queue_inv G V q1 \<and> R (label_of d) (sq s) q1"
      if "drop_node G (fut_node fut) (sq s) = Ret q1 r \<or> drop_node G (fut_node fut) (sq s) = Unwind q1" for q1 r
      using drop_moved [OF inv drop_future(4) that] dropped [OF inv drop_future(4) that] drop_future(1) by simp
    from round_has [OF drop_future(5,6) this] drop_future(2) show ?thesis by simp
  next
    case (change_state f x q' frame)
    have "queue_inv G V q1 \<and> R (label_of d) (sq s) q1"
      if "update_state f (sq s) = Ret q1 r \<or> update_state f (sq s) = Unwind q1" for q1 r
      using update_state_done [OF inv that] changed [OF inv that] change_state(1) by simp
    from round_has [OF change_state(3,4) this] change_state(2) show ?thesis by simp
  qed (use inv in \<open>auto intro: idle cleared poll_unwound tried try_unwound closed served [OF _ idle]\<close>)
  with d(2) show ?thesis by simp
qed

end

end
