(* ===== verification/Work_Conservation.thy ===== *)
theory Work_Conservation
  imports Queue_System
begin

text \<open>
  No permit stays idle: with a state that keeps the contract \<open>lawful_state\<close>, whenever the queue is
  open, not poisoned and nobody owes it a follow-up call, either the waiter at the head of the list
  is refused by the current state or an operation in progress is about to run \<open>check\<close> again.
\<close>

section \<open>The head of the list\<close>

text \<open>Nobody waits, or the head of the list is refused.\<close>

fun stuck :: "('s \<Rightarrow> 'p \<Rightarrow> ('s, 'p + 'a) call) \<Rightarrow> 's \<Rightarrow> (nid \<times> ('p, 'w) waiting) list \<Rightarrow> bool" where
  "stuck acq s [] = True"
| "stuck acq s ((n, None, w) # xs) = False"
| "stuck acq s ((n, Some p, w) # xs) = (acq s p = Returns s (Inl p))"

lemma stuck_append: "xs \<noteq> [] \<Longrightarrow> stuck acq s (xs @ ys) = stuck acq s xs"
  by (induction acq s xs rule: stuck.induct) auto

text \<open>No waiter has lost its params.\<close>

definition all_live :: "(nid \<times> ('p, 'w) waiting) list \<Rightarrow> bool" where
  "all_live xs \<longleftrightarrow> (\<forall>(n, prm, w) \<in> set xs. prm \<noteq> None)"

lemma all_live_simps [simp]:
  "all_live []" "all_live ((n, prm, w) # xs) \<longleftrightarrow> prm \<noteq> None \<and> all_live xs"
  "all_live (xs @ ys) \<longleftrightarrow> all_live xs \<and> all_live ys"
  by (simp_all add: all_live_def ball_Un)

definition conserving ::
  "('m, 'v, 's, 'p, 'a, 'o, 'w) generics \<Rightarrow> ('m, 'p, 'a, 'w) queue_view \<Rightarrow> ('m, 's, 'p, 'o, 'w) sys \<Rightarrow> bool"
  where
  "conserving G V s \<longleftrightarrow> all_live (links V (pins (sq s))) \<and>
     (\<not> poisoned (sq s) \<and> \<not> closed (sq s) \<and> \<not> owed s \<longrightarrow>
       stuck (acquire (sem G)) (state (sq s)) (links V (pins (sq s))) \<or>
       (\<exists>ws. (ws, Recheck) \<in> set (frames s)))"

text \<open>The other sections leave a refused head refused: they take permits, or change the waiters behind it.\<close>

definition keeps_head :: "('m, 'v, 's, 'p, 'a, 'o, 'w) generics \<Rightarrow> ('m, 'p, 'a, 'w) queue_view
    \<Rightarrow> ('m, 's, 'o) queue_state \<Rightarrow> ('m, 's, 'o) queue_state \<Rightarrow> bool" where
  "keeps_head G V q q' \<longleftrightarrow> all_live (links V (pins q')) \<and>
     (\<not> poisoned q' \<and> \<not> closed q' \<longrightarrow> \<not> poisoned q \<and> \<not> closed q \<and>
       (stuck (acquire (sem G)) (state q) (links V (pins q)) \<longrightarrow>
        stuck (acquire (sem G)) (state q') (links V (pins q'))))"

locale lawful_queue = queue_deps G V elems + ST: lawful_state "sem G"
  for G :: "('m, 'v, 's, 'p, 'a, 'o, 'w) generics"
    and V :: "('m, 'p, 'a, 'w) queue_view"
    and elems :: "'v \<Rightarrow> 'w list"
begin

lemma stuck_after_grant:
  "acquire (sem G) s p = Returns s' (Inr a) \<Longrightarrow> stuck (acquire (sem G)) s xs \<Longrightarrow>
    stuck (acquire (sem G)) s' xs"
  by (induction "acquire (sem G)" s xs rule: stuck.induct) (auto dest: ST.grant_keeps_refusal)

lemma refused_again: "acquire (sem G) s p = Returns s' (Inl p') \<Longrightarrow>
    acquire (sem G) s' p' = Returns s' (Inl p') \<and> s' = s \<and> p' = p"
  using ST.refusal by auto

text \<open>A batch that was not filled stopped at a refused head.\<close>

lemma serve_lawful:
  "serve (acquire (sem G)) k s xs = (s', rest, gs, b) \<Longrightarrow> all_live xs \<Longrightarrow>
    \<not> b \<and> all_live rest \<and> (length gs < max 1 k \<longrightarrow> stuck (acquire (sem G)) s' rest)"
proof (induction "acquire (sem G)" k s xs arbitrary: s' rest gs b rule: serve.induct)
  case (3 k s n p w xs)
  consider (refuse) s1 p' where "acquire (sem G) s p = Returns s1 (Inl p')"
    | (grant) s1 a where "acquire (sem G) s p = Returns s1 (Inr a)"
    using ST.acquire_returns by (metis call.exhaust sum.exhaust)
  then show ?case
  proof cases
    case refuse
    with ST.refusal [OF refuse] "3.prems" show ?thesis by auto
  next
    case grant
    show ?thesis
    proof (cases "k \<le> 1")
      case True
      with grant "3.prems" show ?thesis by auto
    next
      case False
      with grant "3.prems"(1) obtain gs' where
        srv: "serve (acquire (sem G)) (k - 1) s1 xs = (s', rest, gs', b)" and gs: "gs = (n, a, w) # gs'"
        by (auto split: prod.splits)
      from "3.hyps" [OF grant refl False srv] "3.prems"(2) gs False show ?thesis by auto
    qed
  qed
qed auto

lemma check_conserves:
  assumes "queue_inv G V q" and "elems wakes = []" and "all_live (links V (pins q))"
  obtains q' v' where "check G q wakes = Some (Ret (q', v') ())" "queue_inv G V q'"
    "all_live (links V (pins q'))" "poisoned q' = poisoned q" "closed q' = closed q"
    "\<not> poisoned q \<and> \<not> closed q \<Longrightarrow> \<not> more_rounds G Recheck q' v' \<Longrightarrow>
      stuck (acquire (sem G)) (state q') (links V (pins q'))"
  using assms(1) batch_empty [OF assms(2)]
proof (rule check_result)
  fix q' v' gs b
  assume c: "check G q wakes = Some (if b then Unwind (q', v') else Ret (q', v') ())"
      "queue_inv G V q'" "elems v' = elems wakes @ grant_wakers gs"
      "poisoned q' = (poisoned q \<or> b)" "closed q' = closed q"
    and srv: "if poisoned q \<or> closed q then q' = q \<and> gs = [] \<and> \<not> b
     else serve (acquire (sem G)) (batch_cap - length (elems wakes)) (state q) (links V (pins q)) =
       (state q', links V (pins q'), gs, b)"
  show ?thesis
  proof (cases "poisoned q \<or> closed q")
    case True
    with c srv that assms(3) show ?thesis by auto
  next
    case False
    with srv assms(2) have s: "serve (acquire (sem G)) batch_cap (state q) (links V (pins q)) =
       (state q', links V (pins q'), gs, b)" by simp
    note l = serve_lawful [OF s assms(3)]
    have "stuck (acquire (sem G)) (state q') (links V (pins q'))" if "\<not> more_rounds G Recheck q' v'"
    proof (cases "length gs < batch_cap")
      case True
      with l show ?thesis by simp
    next
      case full: False
      with that c(2,3) assms(2) show ?thesis by (auto simp: AV.av_full queue_inv_def)
    qed
    with that [of q' v'] c l show ?thesis by simp
  qed
qed

text \<open>A round that runs \<open>check\<close> leaves the head refused, or the frame that will check again.\<close>

lemma round_conserves:
  assumes "queue_inv G V q" and "all_live (links V (pins q))"
    and "check G q (av_new (av G)) = Some x" and "round_end G Recheck x = Some (q', frame)"
  shows "all_live (links V (pins q')) \<and> poisoned q' = poisoned q \<and> closed q' = closed q \<and>
    (\<not> poisoned q \<and> \<not> closed q \<longrightarrow>
      stuck (acquire (sem G)) (state q') (links V (pins q')) \<or> (\<exists>ws. frame = (ws, Recheck)))"
  by (rule check_conserves [OF assms(1) AV.av_new assms(2)]) (use assms(3,4) in \<open>auto split: if_splits\<close>)

lemma first_round_conserves:
  assumes "first_round G f q = Some x" and "round_end G Recheck x = Some (q', frame)"
    and "\<And>q1 r. f q = Ret q1 r \<Longrightarrow> queue_inv G V q1 \<and> all_live (links V (pins q1))"
    and "\<And>q1. f q = Unwind q1 \<Longrightarrow> poisoned q1 \<and> all_live (links V (pins q1))"
  shows "all_live (links V (pins q')) \<and> (\<not> poisoned q' \<and> \<not> closed q' \<longrightarrow>
      stuck (acquire (sem G)) (state q') (links V (pins q')) \<or> (\<exists>ws. frame = (ws, Recheck)))"
  using assms(1,2)
proof (cases rule: first_round_cases)
  case (plain r)
  with assms(3) show ?thesis by (auto simp: queue_inv_def)
next
  case unwound
  with assms(4) show ?thesis by simp
next
  case (served q1 r)
  with assms(3) have "queue_inv G V q1" "all_live (links V (pins q1))" by blast+
  from round_conserves [OF this served(2) assms(2)] show ?thesis by simp
qed

lemma stuck_repoll: "stuck acq s (xs @ (n, prm, w) # ys) = stuck acq s (xs @ (n, prm, w') # ys)"
  by (cases "xs = []"; cases prm) (auto simp: stuck_append)

lemma attempt_keeps_head:
  assumes "queue_inv G V q" and "all_live (links V (pins q))"
  shows "exec_all (keeps_head G V q) (acquire_or_enqueue G p fair q)"
  by (rule acquire_or_enqueue_result [OF assms(1), of p fair])
    (use assms(2) in \<open>auto simp: keeps_head_def same_list_def ST.acquire_returns
      dest: stuck_after_grant refused_again\<close>)

lemma try_keeps_head:
  assumes "queue_inv G V q" and "all_live (links V (pins q))"
  shows "exec_all (keeps_head G V q) (try_acquire G p fair q)"
  using attempt_keeps_head [OF assms, of p fair]
  by (auto simp: try_acquire_def split: exec.splits outcome.splits)

lemma poll_keeps_head:
  assumes "queue_inv G V q" and "all_live (links V (pins q))"
  shows "exec_all (\<lambda>(q', _). keeps_head G V q q') (poll G cx fut q)"
proof (rule poll_result [OF assms(1), where cx = cx and fut = fut])
  fix m xs prm w ys
  assume "poll G cx fut q = Ret (q\<lparr>pins := m\<rparr>, fut) Pending" "links V (pins q) = xs @ (fut_node fut, prm, w) # ys"
    "links V m = xs @ (fut_node fut, prm, cx) # ys"
  with assms(2) show ?thesis
    by (auto simp: keeps_head_def intro: stuck_repoll [THEN iffD1])
qed (use assms(2) in \<open>auto simp: keeps_head_def same_list_def ST.acquire_returns stuck_append
      dest: stuck_after_grant refused_again split: option.splits sum.splits\<close>)

lemma drop_live:
  assumes "queue_inv G V q" and "all_live (links V (pins q))" and "pl_initialized (pl G) (pins q) n"
  shows "drop_node G n q = Ret q1 r \<Longrightarrow> queue_inv G V q1 \<and> all_live (links V (pins q1))"
    and "drop_node G n q = Unwind q1 \<Longrightarrow> poisoned q1 \<and> all_live (links V (pins q1))"
  by (rule drop_result [OF assms(1,3)]; use assms(2) in \<open>auto split: sum.splits call.splits\<close>)+

lemma update_state_live:
  assumes "queue_inv G V q" and "all_live (links V (pins q))"
  shows "update_state f q = Ret q1 r \<Longrightarrow> queue_inv G V q1 \<and> all_live (links V (pins q1))"
    and "update_state f q = Unwind q1 \<Longrightarrow> poisoned q1 \<and> all_live (links V (pins q1))"
  using assms by (cases "f (state q)"; auto simp: update_state_def queue_inv_def)+

text \<open>A section that keeps the head keeps the invariant of the system, with the same frames.\<close>

lemma conserving_move:
  assumes "conserving G V s" and "keeps_head G V (sq s) (sq t)" and "frames t = frames s" and "owed t = owed s"
  shows "conserving G V t"
  using assms by (auto simp: conserving_def keeps_head_def)

lemma keeps_head_refl: "all_live (links V (pins q)) \<Longrightarrow> keeps_head G V q q"
  by (simp add: keeps_head_def)

lemma close_live:
  assumes "queue_inv G V q" and "all_live (links V (pins q))" and "CLOSE (mode G)"
    and "close_fill G q (av_new (av G)) = Some x" and "round_end G k x = Some (q', frame)"
  shows "closed q' \<and> all_live (links V (pins q'))"
  using close_round [OF assms(1,3,4), of k q' "fst frame" "snd frame"] assms(2,5)
  by (auto simp: all_live_def dest: in_set_dropD)

lemma step_conserving:
  assumes "sys_inv G V s" and "conserving G V s" and "sys_step G s t"
  shows "conserving G V t"
proof -
  have inv: "queue_inv G V (sq s)" and live: "all_live (links V (pins (sq s)))"
    and at: "\<And>n fut. futs s n = Some fut \<Longrightarrow> fut_node fut = n"
    using assms(1,2) by (simp_all add: sys_inv_def conserving_def)
  note move = conserving_move [OF assms(2)]
  from assms(3) obtain d where "does G d s t" by (auto simp: sys_step_does)
  then show ?thesis
  proof cases
    case (poll_ready n fut w q' fut' r)
    with poll_keeps_head [OF inv live, of w fut] show ?thesis by (intro move) auto
  next
    case (poll_pending n fut w q' fut')
    with poll_keeps_head [OF inv live, of w fut] show ?thesis by (intro move) auto
  next
    case (poll_unwind n fut w q' fut')
    with poll_keeps_head [OF inv live, of w fut] show ?thesis by (intro move) auto
  next
    case (try_return p fair q' r)
    with try_keeps_head [OF inv live, of p fair] show ?thesis by (intro move) auto
  next
    case (try_unwind p fair q')
    with try_keeps_head [OF inv live, of p fair] show ?thesis by (intro move) auto
  next
    case (drop_future n fut x q' frame)
    from first_round_conserves [OF drop_future(5,6) drop_live [OF inv live drop_future(4)]]
    have "all_live (links V (pins q')) \<and> (\<not> poisoned q' \<and> \<not> closed q' \<longrightarrow>
      stuck (acquire (sem G)) (state q') (links V (pins q')) \<or> (\<exists>ws. frame = (ws, Recheck)))" .
    with drop_future(2) show ?thesis by (auto simp: conserving_def)
  next
    case (change_state f x q' frame)
    from first_round_conserves [OF change_state(3,4) update_state_live [OF inv live]]
    have "all_live (links V (pins q')) \<and> (\<not> poisoned q' \<and> \<not> closed q' \<longrightarrow>
      stuck (acquire (sem G)) (state q') (links V (pins q')) \<or> (\<exists>ws. frame = (ws, Recheck)))" .
    with change_state(2) show ?thesis by (auto simp: conserving_def)
  next
    case (start_close x q' frame)
    with close_live [OF inv live start_close(3-5)] show ?thesis by (simp add: conserving_def)
  next
    case (wake fs w ws k gs)
    with assms(2) show ?thesis by (auto simp: conserving_def)
  next
    case (wake_unwind fs w ws k gs)
    with assms(2) show ?thesis by (auto simp: conserving_def)
  next
    case (recheck fs gs x q' frame)
    from round_conserves [OF inv live recheck(4,5)] recheck(2,3)
    show ?thesis by (auto simp: conserving_def)
  next
    case (reclose fs gs x q' frame)
    with close_live [OF inv live reclose(3,5,6)] show ?thesis by (simp add: conserving_def)
  qed (use assms(2) in \<open>auto simp: conserving_def clear_poison_def\<close>)
qed

lemma reachable_conserving: "reachable G s \<Longrightarrow> conserving G V s"
proof (induction rule: reachable.induct)
  case (start s ord)
  have "links V (pl_new (pl G)) = []" by (rule PL.new)
  then show ?case by (simp add: conserving_def init_sys_def new_queue_def)
next
  case (step s t)
  then show ?case by (blast intro: step_conserving reachable_sys_inv)
qed

end

end
