(* ===== verification/Ledger.thy ===== *)
theory Ledger
  imports Queue_System "HOL-Library.Multiset"
begin

text \<open>
  The account of the permits. With a state that measures what it hands out, every interleaving keeps
  the balance: what is left in the state, what is parked in nodes for futures to claim, and what the
  callers hold add up to what there was at the start. In particular no release of a permit
  that was handed out ever overflows, and the queue is never poisoned.
\<close>

section \<open>Runs of callers that keep to the rules\<close>

text \<open>
  A run with the multiset of permits that callers hold: a permit enters it when a poll or an attempt hands it over,
  and leaves it when its guard is dropped, which is a change of the state by \<open>release\<close>. Closures given
  to \<open>with_state\<close> do not panic and leave the units alone: they read, or move a limit.
  \<open>Permit::take\<close> and \<open>Permit::out_of_thin_air\<close>, which remove and add permits, are not used.
\<close>

inductive ledger ::
  "('m, 'v, 's, 'p, 'a, 'o, 'w) generics \<Rightarrow> ('s \<Rightarrow> int) \<Rightarrow> 's \<Rightarrow> ('m, 's, 'p, 'o, 'w) sys \<Rightarrow> 'a multiset \<Rightarrow> bool"
  for G units s0 where
  ledger_start: "ledger G units s0 (init_sys G s0 ord) {#}"
| ledger_quiet: "ledger G units s0 s held \<Longrightarrow> act G Quiet s t \<Longrightarrow> ledger G units s0 t held"
| ledger_got: "ledger G units s0 s held \<Longrightarrow> act G (Got a) s t \<Longrightarrow> ledger G units s0 t (add_mset a held)"
| ledger_back: "ledger G units s0 s held \<Longrightarrow> a \<in># held \<Longrightarrow>
    act G (Changed (\<lambda>st. release (sem G) st a)) s t \<Longrightarrow> ledger G units s0 t (held - {#a#})"
| ledger_tune: "ledger G units s0 s held \<Longrightarrow> act G (Changed f) s t \<Longrightarrow>
    f (state (sq s)) = Returns st () \<Longrightarrow> units st = units (state (sq s)) \<Longrightarrow> ledger G units s0 t held"

lemma ledger_reachable: "ledger G units s0 s held \<Longrightarrow> reachable G s"
  by (induction rule: ledger.induct) (blast intro: reachable.intros act_step)+

section \<open>The worth of the parked permits\<close>

definition parked_cost :: "('a \<Rightarrow> 'b::comm_monoid_add) \<Rightarrow> ('p, 'a) removal \<Rightarrow> 'b" where
  "parked_cost cost r = (case r of Inl _ \<Rightarrow> 0 | Inr a \<Rightarrow> cost a)"

definition parked :: "('a \<Rightarrow> 'b::comm_monoid_add) \<Rightarrow> (nid \<Rightarrow> ('p, 'a) removal option) \<Rightarrow> 'b" where
  "parked cost rm = sum_over (parked_cost cost) rm"

definition held_cost :: "('a \<Rightarrow> int) \<Rightarrow> 'a multiset \<Rightarrow> int" where
  "held_cost cost held = (\<Sum>a\<in>#held. cost a)"

lemma held_cost_simps [simp]: "held_cost cost {#} = 0"
  "held_cost cost (add_mset a held) = cost a + held_cost cost held"
  "a \<in># held \<Longrightarrow> held_cost cost (held - {#a#}) = held_cost cost held - cost a"
  by (simp_all add: held_cost_def) (metis add_diff_cancel_left' image_mset_add_mset insert_DiffM sum_mset.insert)

lemma parked_empty [simp]: "parked cost Map.empty = 0"
  by (simp add: parked_def)

lemma parked_put:
  assumes "finite (dom rm)" and "rm n = None"
  shows "parked cost (rm(n \<mapsto> r)) = parked cost rm + parked_cost cost r"
proof -
  have "rm(n := None) = rm" using assms(2) by auto
  with sum_over_put [OF assms(1), of "parked_cost cost" n r] show ?thesis by (simp add: parked_def add.commute)
qed

lemma parked_take:
  "finite (dom rm) \<Longrightarrow> rm n = Some r \<Longrightarrow> parked cost rm = parked cost (rm(n := None)) + parked_cost cost r"
  unfolding parked_def by (subst sum_over_at) (simp_all add: add.commute)

lemma parked_nonneg: "(\<And>a. 0 \<le> cost a) \<Longrightarrow> 0 \<le> parked cost rm" for cost :: "'a \<Rightarrow> int"
  by (simp add: parked_def sum_over_def sum_nonneg parked_cost_def split: sum.splits)

lemma held_nonneg: "(\<And>a. 0 \<le> cost a) \<Longrightarrow> 0 \<le> held_cost cost held"
  by (induction held) simp_all

lemma parked_park:
  "finite (dom rm) \<Longrightarrow> distinct (map fst gs) \<Longrightarrow> \<forall>n \<in> fst ` set gs. rm n = None \<Longrightarrow>
    finite (dom (park rm gs)) \<and> parked cost (park rm gs) = parked cost rm + (\<Sum>(_, a, _)\<leftarrow>gs. cost a)"
proof (induction gs arbitrary: rm)
  case (Cons g gs)
  obtain n a w where g: "g = (n, a, w)" by (cases g) auto
  have "finite (dom (rm(n \<mapsto> Inr a)))" "\<forall>m \<in> fst ` set gs. (rm(n \<mapsto> Inr a)) m = None"
    using Cons.prems g by auto
  with Cons.IH [of "rm(n \<mapsto> Inr a)"] Cons.prems g show ?case
    by (simp add: parked_put parked_cost_def add.assoc del: fun_upd_apply)
qed simp

lemma parked_revoke:
  "finite (dom rm) \<Longrightarrow> distinct (map fst xs) \<Longrightarrow> \<forall>n \<in> ids xs. rm n = None \<Longrightarrow>
    finite (dom (revoke rm xs)) \<and> parked cost (revoke rm xs) = parked cost rm"
proof (induction xs arbitrary: rm)
  case (Cons x xs)
  obtain n prm w where x: "x = (n, prm, w)" by (cases x) auto
  have "finite (dom (rm(n \<mapsto> Inl prm)))" "\<forall>m \<in> ids xs. (rm(n \<mapsto> Inl prm)) m = None"
    using Cons.prems x by auto
  with Cons.IH [of "rm(n \<mapsto> Inl prm)"] Cons.prems x show ?case
    by (simp add: parked_put parked_cost_def del: fun_upd_apply)
qed simp

section \<open>Every section keeps the account\<close>

context measured_state
begin

lemma serve_units:
  "serve (acquire S) k s xs = (s', rest, gs, b) \<Longrightarrow> \<not> b \<Longrightarrow>
    units s = units s' + sum_list (map (\<lambda>(_, a, _). cost a) gs)"
proof (induction "acquire S" k s xs arbitrary: s' rest gs rule: serve.induct)
  case (3 k s n p w xs)
  show ?case
  proof (cases "acquire S s p" rule: attempt_cases)
    case (panic s1)
    with "3.prems" show ?thesis by simp
  next
    case (refuse s1 p')
    with "3.prems" refuse_units [OF refuse] show ?thesis by auto
  next
    case (grant s1 a)
    show ?thesis
    proof (cases "k \<le> 1")
      case True
      with "3.prems" grant grant_units [OF grant] show ?thesis by auto
    next
      case False
      with grant "3.prems"(1) obtain gs' where
        srv: "serve (acquire S) (k - 1) s1 xs = (s', rest, gs', b)" and gs: "gs = (n, a, w) # gs'"
        by (auto split: prod.splits)
      from "3.hyps" [OF grant refl False srv "3.prems"(2)] gs grant_units [OF grant] show ?thesis by simp
    qed
  qed
qed (auto split: prod.splits)

end

text \<open>The account of a queue: not poisoned, and \<open>c\<close> units in the state and in its nodes.\<close>

definition books :: "('m, 'p, 'a, 'w) queue_view \<Rightarrow> ('s \<Rightarrow> int) \<Rightarrow> ('a \<Rightarrow> int) \<Rightarrow> int
    \<Rightarrow> ('m, 's, 'o) queue_state \<Rightarrow> bool" where
  "books V units cost c q \<longleftrightarrow> \<not> poisoned q \<and> finite (dom (removed V (pins q))) \<and>
     units (state q) + parked cost (removed V (pins q)) = c"

text \<open>What an attempt or a poll hands over.\<close>

definition handed :: "('a \<Rightarrow> int) \<Rightarrow> 'e + 'a \<Rightarrow> int" where
  "handed cost r = (case r of Inl _ \<Rightarrow> 0 | Inr a \<Rightarrow> cost a)"

lemma handed_simps [simp]: "handed cost (Inl e) = 0" "handed cost (Inr a) = cost a"
  by (simp_all add: handed_def)

text \<open>A poll that waits hands over nothing.\<close>

definition polled :: "('a \<Rightarrow> int) \<Rightarrow> ('e + 'a) poll \<Rightarrow> int" where
  "polled cost r = (case r of Pending \<Rightarrow> 0 | Ready r \<Rightarrow> handed cost r)"

lemma polled_simps [simp]: "polled cost Pending = 0" "polled cost (Ready r) = handed cost r"
  by (simp_all add: polled_def)

text \<open>Taking the value out of a removed node.\<close>

lemma books_take:
  assumes "books V units cost c q" and "removed V (pins q) n = Some r"
    and "removed V m = (removed V (pins q))(n := None)"
  shows "books V units cost (c - parked_cost cost r) (q\<lparr>pins := m\<rparr>)"
  using assms parked_take [of "removed V (pins q)" n r cost] by (simp add: books_def)

locale budget_queue = queue_deps G V elems + B: budget_state "sem G" units cost cap
  for G :: "('m, 'v, 's, 'p, 'a, 'o, 'w) generics"
    and V :: "('m, 'p, 'a, 'w) queue_view"
    and elems :: "'v \<Rightarrow> 'w list" and units cost cap
begin

lemma serve_returns: "serve (acquire (sem G)) k s xs = (s', rest, gs, b) \<Longrightarrow> \<not> b"
  by (induction "acquire (sem G)" k s xs arbitrary: s' rest gs b rule: serve.induct)
    (auto simp: B.acquire_returns split: call.splits sum.splits prod.splits if_splits)

lemma check_books:
  assumes "queue_inv G V q" and "books V units cost c q" and "elems wakes = []"
    and "check G q wakes = Some x"
  obtains q' v' where "x = Ret (q', v') ()" "queue_inv G V q'" "books V units cost c q'"
proof (rule check_result [OF assms(1) batch_empty [OF assms(3)]])
  fix q' v' gs b
  assume c: "check G q wakes = Some (if b then Unwind (q', v') else Ret (q', v') ())"
      "queue_inv G V q'" "removed V (pins q') = park (removed V (pins q)) gs" "poisoned q' = (poisoned q \<or> b)"
    and srv: "if poisoned q \<or> closed q then q' = q \<and> gs = [] \<and> \<not> b
     else serve (acquire (sem G)) (batch_cap - length (elems wakes)) (state q) (links V (pins q)) =
       (state q', links V (pins q'), gs, b)"
  have q: "\<not> poisoned q" "finite (dom (removed V (pins q)))"
    using assms(2) by (simp_all add: books_def)
  show thesis
  proof (cases "closed q")
    case True
    with srv c assms(2,4) that show thesis by auto
  next
    case False
    with srv q assms(3) have s: "serve (acquire (sem G)) batch_cap (state q) (links V (pins q)) =
       (state q', links V (pins q'), gs, b)" by simp
    note nb = serve_returns [OF s]
    have "distinct (map fst gs)" by (rule serve_grants_distinct [OF s waiters_distinct [OF assms(1)]])
    moreover have "\<forall>n \<in> fst ` set gs. removed V (pins q) n = None"
      by (intro ballI linked_not_removed [OF assms(1)]
        subsetD [OF serve_rest_distinct [OF s waiters_distinct [OF assms(1)], THEN conjunct2]])
    ultimately have "books V units cost c q'"
      using parked_park [of "removed V (pins q)" gs cost] q c nb assms(2) B.serve_units [OF s nb]
      by (simp add: books_def)
    with that c nb assms(4) show thesis by simp
  qed
qed

text \<open>The end of a round.\<close>

lemma round_books:
  assumes "queue_inv G V q" and "books V units cost c q" and "check G q (av_new (av G)) = Some x"
    and "round_end G k x = Some (q', frame)"
  shows "books V units cost c q'"
  by (rule check_books [OF assms(1,2) AV.av_new assms(3)]) (use assms(4) in simp)

lemma close_books:
  assumes "queue_inv G V q" and "books V units cost c q" and "CLOSE (mode G)"
    and "close_fill G q (av_new (av G)) = Some x" and "round_end G k x = Some (q', frame)"
  shows "books V units cost c q'"
proof -
  obtain ws k' where frame: "frame = (ws, k')" by (cases frame)
  let ?out = "take batch_cap (links V (pins q))"
  have "distinct (map fst ?out)"
    using waiters_distinct [OF assms(1)] by (simp add: take_map [symmetric])
  moreover have "\<forall>n \<in> ids ?out. removed V (pins q) n = None"
    by (intro ballI linked_not_removed [OF assms(1)]) (auto dest: in_set_takeD)
  ultimately show ?thesis
    using close_round [OF assms(1,3,4) assms(5) [unfolded frame]] assms(2)
      parked_revoke [of "removed V (pins q)" ?out cost]
    by (simp add: books_def)
qed

lemma attempt_units: "acquire (sem G) s p = Returns s' (Inr a) \<Longrightarrow> units s' = units s - cost a"
  using B.grant_units [of s p s' a] by simp

lemma refusal_units: "acquire (sem G) s p = Returns s' (Inl p') \<Longrightarrow> units s' = units s - 0"
  using B.refuse_units [of s p s' p'] by simp

lemma try_books:
  assumes "queue_inv G V q" and "books V units cost c q"
  shows "try_acquire G p fair q = Ret q' r \<Longrightarrow> books V units cost (c - handed cost r) q'"
    and "try_acquire G p fair q = Unwind q' \<Longrightarrow> books V units cost c q'"
  by (rule acquire_or_enqueue_result [OF assms(1), of p fair];
      use assms(2) B.acquire_returns in \<open>auto simp: try_acquire_def books_def same_list_def dest!: attempt_units refusal_units\<close>)+

lemma poll_books:
  assumes "queue_inv G V q" and "books V units cost c q"
  shows "poll G cx fut q = Ret (q', fut') r \<Longrightarrow> books V units cost (c - polled cost r) q'"
    and "poll G cx fut q = Unwind (q', fut') \<Longrightarrow> books V units cost c q'"
proof -
  have "(\<forall>r. poll G cx fut q = Ret (q', fut') r \<longrightarrow> books V units cost (c - polled cost r) q') \<and>
    (poll G cx fut q = Unwind (q', fut') \<longrightarrow> books V units cost c q')"
  proof (rule poll_result [OF assms(1), where cx = cx and fut = fut])
    fix m r
    assume "poll G cx fut q = (case r of
         Inr a \<Rightarrow> Ret (q\<lparr>pins := m\<rparr>, fut) (Ready (Inr a))
       | Inl None \<Rightarrow> Unwind (q\<lparr>pins := m\<rparr>, fut)
       | Inl (Some p) \<Rightarrow> Ret (q\<lparr>pins := m\<rparr>, fut) (Ready (Inl (AcquireError p))))"
      and rm: "removed V m = (removed V (pins q))(fut_node fut := None)" "removed V (pins q) (fut_node fut) = Some r"
    with books_take [OF assms(2) rm(2,1)] show ?thesis
      by (auto simp: parked_cost_def split: sum.splits option.splits)
  qed (use assms(2) B.acquire_returns in \<open>auto simp: books_def same_list_def split: option.splits
    dest!: attempt_units refusal_units\<close>)
  then show "poll G cx fut q = Ret (q', fut') r \<Longrightarrow> books V units cost (c - polled cost r) q'"
    and "poll G cx fut q = Unwind (q', fut') \<Longrightarrow> books V units cost c q'" by blast+
qed

lemma units_le: "books V units cost c q \<Longrightarrow> units (state q) \<le> c"
  using parked_nonneg [of cost "removed V (pins q)", OF B.cost_nonneg] by (simp add: books_def)

lemma drop_books:
  assumes "queue_inv G V q" and "books V units cost c q" and "c \<le> cap" and "pl_initialized (pl G) (pins q) n"
    and "drop_node G n q = Ret q1 r \<or> drop_node G n q = Unwind q1"
  shows "books V units cost c q1"
proof (rule drop_result [OF assms(1,4)])
  fix m r
  assume drp: "drop_node G n q = (case r of
       Inl e \<Rightarrow> Ret (q\<lparr>pins := m\<rparr>) (Some (Removed (Inl e)))
     | Inr a \<Rightarrow> (case release (sem G) (state q) a of
         Returns s _ \<Rightarrow> Ret (q\<lparr>pins := m, state := s\<rparr>) None
       | Panics s \<Rightarrow> Unwind (q\<lparr>pins := m, state := s, poisoned := True\<rparr>)))"
    and rm: "removed V m = (removed V (pins q))(n := None)" "removed V (pins q) n = Some r"
  note taken = books_take [OF assms(2) rm(2,1)]
  show ?thesis
  proof (cases r)
    case (Inl e)
    with drp assms(5) taken show ?thesis by (auto simp: parked_cost_def)
  next
    case (Inr a)
    with units_le [OF taken] assms(3) have "units (state q) + cost a \<le> cap" by (simp add: parked_cost_def)
    from B.release_fits [OF this] obtain s' where rel: "release (sem G) (state q) a = Returns s' ()" ..
    with drp Inr assms(5) have "q1 = q\<lparr>pins := m, state := s'\<rparr>" by auto
    with taken Inr B.release_units [OF rel] show ?thesis by (simp add: books_def parked_cost_def)
  qed
qed (use assms(2,5) in \<open>auto simp: books_def\<close>)

end

text \<open>What a label means for the account of a queue, and that every action changes the account by it.\<close>

definition gain :: "('s \<Rightarrow> int) \<Rightarrow> ('a \<Rightarrow> int) \<Rightarrow> 's \<Rightarrow> ('s, 'a) label \<Rightarrow> int \<Rightarrow> bool" where
  "gain units cost st l d = (case l of Quiet \<Rightarrow> d = 0 | Got a \<Rightarrow> d = - cost a
     | Changed f \<Rightarrow> \<exists>st'. f st = Returns st' () \<and> units st' = units st + d)"

lemma gain_simps [simp]: "gain units cost st Quiet d \<longleftrightarrow> d = 0" "gain units cost st (Got a) d \<longleftrightarrow> d = - cost a"
  "gain units cost st (Changed f) d \<longleftrightarrow> (\<exists>st'. f st = Returns st' () \<and> units st' = units st + d)"
  by (simp_all add: gain_def)

lemma gain_handed: "gain units cost st (case t of Inr a \<Rightarrow> Got a | Inl _ \<Rightarrow> Quiet) d \<longleftrightarrow> d = - handed cost t"
  by (cases t) simp_all

lemma gain_polled: "gain units cost st (case r of Ready (Inr a) \<Rightarrow> Got a | _ \<Rightarrow> Quiet) d \<longleftrightarrow> d = - polled cost r"
  by (simp split: poll.splits sum.splits)

definition accounts :: "('m, 'p, 'a, 'w) queue_view \<Rightarrow> ('s \<Rightarrow> int) \<Rightarrow> ('a \<Rightarrow> int) \<Rightarrow> int \<Rightarrow> ('s, 'a) label
    \<Rightarrow> ('m, 's, 'o) queue_state \<Rightarrow> ('m, 's, 'o) queue_state \<Rightarrow> bool" where
  "accounts V units cost cap l q q' \<longleftrightarrow> (\<forall>c d. c \<le> cap \<and> books V units cost c q \<and> gain units cost (state q) l d \<longrightarrow>
     books V units cost (c + d) q')"

lemma books_poison: "books V units cost c q \<Longrightarrow> books V units cost c (clear_poison q)"
  by (simp add: books_def clear_poison_def)

sublocale budget_queue \<subseteq> account: queue_sections G V elems "accounts V units cost cap"
proof unfold_locales
  show "accounts V units cost cap (Changed f) q q'"
    if "queue_inv G V q" "update_state f q = Ret q' u \<or> update_state f q = Unwind q'" for f q q' u
    using update_state_done [OF that] that(2) by (auto simp: accounts_def books_def update_state_def)
  show "accounts V units cost cap l q q'"
    if "queue_inv G V q1" "accounts V units cost cap l q q1" "check G q1 (av_new (av G)) = Some x"
      "round_end G k x = Some (q', frame)" for q1 l q x k q' and frame :: "'w list \<times> resume"
    using that(2) round_books [OF that(1) _ that(3,4)] by (auto simp: accounts_def)
qed (auto simp: accounts_def gain_handed gain_polled intro: books_poison
    dest: poll_books(1) poll_books(2) try_books(1) try_books(2) drop_books close_books)

context budget_queue
begin

lemma act_books:
  assumes "sys_inv G V s" and "books V units cost c (sq s)" and "c \<le> cap" and "act G l s t"
    and "gain units cost (state (sq s)) l d"
  shows "books V units cost (c + d) (sq t)"
  using account.act_has [OF assms(1,4)] assms(2,3,5) by (simp add: accounts_def)

lemma ledger_books:
  assumes "units s0 \<le> cap"
  shows "ledger G units s0 s held \<Longrightarrow> books V units cost (units s0 - held_cost cost held) (sq s)"
proof (induction rule: ledger.induct)
  case (ledger_start ord)
  have "removed V (pl_new (pl G)) = Map.empty" by (rule PL.new)
  then show ?case by (simp add: books_def init_sys_def new_queue_def)
next
  case (ledger_quiet s held t)
  from act_books [OF reachable_sys_inv [OF ledger_reachable [OF ledger_quiet(1)]] ledger_quiet(3) _ ledger_quiet(2), of 0]
    assms held_nonneg [of cost held, OF B.cost_nonneg] show ?case by simp
next
  case (ledger_got s held a t)
  from act_books [OF reachable_sys_inv [OF ledger_reachable [OF ledger_got(1)]] ledger_got(3) _ ledger_got(2), of "- cost a"]
    assms held_nonneg [of cost held, OF B.cost_nonneg] show ?case by (simp add: algebra_simps)
next
  case (ledger_back s held a t)
  note b = ledger_back(4)
  have "held_cost cost held \<ge> cost a"
    using held_nonneg [of cost "held - {#a#}", OF B.cost_nonneg] ledger_back(2) by simp
  with units_le [OF b] assms have "units (state (sq s)) + cost a \<le> cap" by linarith
  from B.release_fits [OF this] obtain st where rel: "release (sem G) (state (sq s)) a = Returns st ()" ..
  from act_books [OF reachable_sys_inv [OF ledger_reachable [OF ledger_back(1)]] b _ ledger_back(3), of "cost a"]
    rel B.release_units [OF rel] assms held_nonneg [of cost held, OF B.cost_nonneg] ledger_back(2)
  show ?case by (simp add: algebra_simps)
next
  case (ledger_tune s held f t st)
  from act_books [OF reachable_sys_inv [OF ledger_reachable [OF ledger_tune(1)]] ledger_tune(5) _ ledger_tune(2), of 0]
    ledger_tune(3,4) assms held_nonneg [of cost held, OF B.cost_nonneg] show ?case by simp
qed

end

end
