(* ===== verification/Task_Queue.thy ===== *)
theory Task_Queue
  imports Work_Conservation Ledger
begin

text \<open>
  What one locked section does to a queue whose state knows which permits are out, in a program that never
  closes the semaphore. The laws are asked only of states that agree with some permits out, so that a state that
  misbehaves elsewhere, such as a counter that could overflow under an absurd limit, has them too.
\<close>

section \<open>States that agree with the permits that are out\<close>

text \<open>\<open>out s M\<close>: the state \<open>s\<close> is one in which the permits \<open>M\<close> are out. \<open>fits p\<close>: a request that is granted when
  no permit is.\<close>

locale task_state =
  fixes S :: "('s, 'p, 'a) semaphore_state"
    and out :: "'s \<Rightarrow> 'a multiset \<Rightarrow> bool"
    and fits :: "'p \<Rightarrow> bool"
  assumes out_returns: "out s M \<Longrightarrow> acquire S s p \<noteq> Panics s'"
    and out_grant: "out s M \<Longrightarrow> acquire S s p = Returns s' (Inr a) \<Longrightarrow> out s' (add_mset a M)"
    and out_refusal: "out s M \<Longrightarrow> acquire S s p = Returns s' (Inl p') \<Longrightarrow> s' = s \<and> p' = p"
    and out_keeps_refusal: "out s M \<Longrightarrow> acquire S s p = Returns s' (Inr a) \<Longrightarrow>
      acquire S s q = Returns s (Inl q) \<Longrightarrow> acquire S s' q = Returns s' (Inl q)"
    and out_release: "out s M \<Longrightarrow> a \<in># M \<Longrightarrow> \<exists>s'. release S s a = Returns s' () \<and> out s' (M - {#a#})"
    and out_fits: "out s {#} \<Longrightarrow> fits p \<Longrightarrow> \<exists>s' a. acquire S s p = Returns s' (Inr a)"
begin

lemma stuck_grant:
  "out s M \<Longrightarrow> acquire S s p = Returns s' (Inr a) \<Longrightarrow> stuck (acquire S) s xs \<Longrightarrow> stuck (acquire S) s' xs"
  by (induction "acquire S" s xs rule: stuck.induct) (auto dest: out_keeps_refusal)

text \<open>A batch: nobody panics, what is granted is out, and one that is not full stops at a refused head.\<close>

lemma serve_out:
  "serve (acquire S) k s xs = (s', rest, gs, b) \<Longrightarrow> out s M \<Longrightarrow> all_live xs \<Longrightarrow>
    \<not> b \<and> out s' (M + (\<Sum>(_, a, _)\<leftarrow>gs. {#a#})) \<and> set rest \<subseteq> set xs \<and>
    ids xs = ids rest \<union> fst ` set gs \<and>
    (length gs < max 1 k \<longrightarrow> stuck (acquire S) s' rest)"
proof (induction "acquire S" k s xs arbitrary: s' rest gs b M rule: serve.induct)
  case (3 k s n p w xs)
  show ?case
  proof (cases "acquire S s p" rule: attempt_cases)
    case (panic s1)
    with out_returns [OF "3.prems"(2)] show ?thesis by simp
  next
    case (refuse s1 p')
    with out_refusal [OF "3.prems"(2) refuse] "3.prems" show ?thesis by auto
  next
    case (grant s1 a)
    show ?thesis
    proof (cases "k \<le> 1")
      case True
      with grant "3.prems" out_grant [OF "3.prems"(2) grant] show ?thesis by auto
    next
      case False
      with grant "3.prems"(1) obtain gs' where
        srv: "serve (acquire S) (k - 1) s1 xs = (s', rest, gs', b)" and gs: "gs = (n, a, w) # gs'"
        by (auto split: prod.splits)
      from "3.hyps" [OF grant refl False srv out_grant [OF "3.prems"(2) grant]] "3.prems"(3) gs False
      show ?thesis by auto
    qed
  qed
qed auto

end

section \<open>Sections of a queue in use\<close>

lemma park_dom: "dom (park rm gs) = dom rm \<union> fst ` set gs"
  by (induction rm gs rule: park.induct) (simp_all del: fun_upd_apply)

abbreviation one :: "'a \<Rightarrow> 'a multiset" where
  "one a \<equiv> {#a#}"

text \<open>Nodes and wakers are named alike: the waker of a task is the task.\<close>

definition in_use :: "('m, 'v, 's, 'p, 'a, 'o, nat) generics \<Rightarrow> ('m, 'p, 'a, nat) queue_view
    \<Rightarrow> ('s \<Rightarrow> 'a multiset \<Rightarrow> bool) \<Rightarrow> ('p \<Rightarrow> bool) \<Rightarrow> ('m, 's, 'o) queue_state \<Rightarrow> 'a multiset \<Rightarrow> bool" where
  "in_use G V out fits q M \<longleftrightarrow> queue_inv G V q \<and> \<not> poisoned q \<and> \<not> closed q \<and>
     finite (dom (removed V (pins q))) \<and> out (state q) (M + parked one (removed V (pins q))) \<and>
     (\<forall>(n, prm, w) \<in> set (links V (pins q)). w = n \<and> (\<exists>p. prm = Some p \<and> fits p))"

definition waits_at :: "('m, 'p, 'a, 'w) queue_view \<Rightarrow> ('m, 's, 'o) queue_state \<Rightarrow> nid \<Rightarrow> bool" where
  "waits_at V q n \<longleftrightarrow> n \<in> ids (links V (pins q)) \<or> removed V (pins q) n \<noteq> None"

abbreviation head_stuck :: "('m, 'v, 's, 'p, 'a, 'o, 'w) generics \<Rightarrow> ('m, 'p, 'a, 'w) queue_view
    \<Rightarrow> ('m, 's, 'o) queue_state \<Rightarrow> bool" where
  "head_stuck G V q \<equiv> stuck (acquire (sem G)) (state q) (links V (pins q))"

locale task_queue = queue_deps G V elems + TS: task_state "sem G" out fits
  for G :: "('m, 'v, 's, 'p, 'a, 'o, nat) generics" and V :: "('m, 'p, 'a, nat) queue_view"
    and elems :: "'v \<Rightarrow> nat list" and out fits +
  assumes policy_returns: "policy G ord n \<noteq> Panics ord'"
begin

abbreviation used :: "('m, 's, 'o) queue_state \<Rightarrow> 'a multiset \<Rightarrow> bool" where
  "used \<equiv> in_use G V out fits"

lemma used_live: "used q M \<Longrightarrow> all_live (links V (pins q))"
  by (fastforce simp: in_use_def all_live_def)

lemma used_waker: "used q M \<Longrightarrow> (n, prm, w) \<in> set (links V (pins q)) \<Longrightarrow> w = n \<and> (\<exists>p. prm = Some p \<and> fits p)"
  by (auto simp: in_use_def)

lemma used_new: "out s {#} \<Longrightarrow> used (new_queue G s ord) {#} \<and> links V (pins (new_queue G s ord)) = [] \<and>
    removed V (pins (new_queue G s ord)) = Map.empty"
  using new_queue_inv [of s ord] PL.new by (simp add: in_use_def new_queue_def)

text \<open>A round: grants leave the list, their wakers go into the frame, and unless another round is due
  the head is refused.\<close>

definition round_of :: "('m, 's, 'o) queue_state \<Rightarrow> ('m, 's, 'o) queue_state \<Rightarrow> nat list \<Rightarrow> resume \<Rightarrow> bool" where
  "round_of q q' ws k \<longleftrightarrow> ids (links V (pins q)) = ids (links V (pins q')) \<union> set ws \<and>
     length (links V (pins q)) = length (links V (pins q')) + length ws \<and>
     dom (removed V (pins q')) = dom (removed V (pins q)) \<union> set ws \<and>
     (k = Recheck \<and> ws \<noteq> [] \<or> k = Stop \<and> head_stuck G V q')"

lemma check_used:
  assumes "used q M"
  obtains q' v ws k where "check G q (av_new (av G)) = Some (Ret (q', v) ())"
    "round_end G Recheck (Ret (q', v) ()) = Some (q', ws, k)" "used q' M" "round_of q q' ws k"
proof -
  from assms have inv: "queue_inv G V q" and q: "\<not> poisoned q" "\<not> closed q" "finite (dom (removed V (pins q)))"
    "out (state q) (M + parked one (removed V (pins q)))" by (simp_all add: in_use_def)
  show thesis
  proof (rule check_result [OF inv batch_empty [OF AV.av_new]])
    fix q' v gs b
    assume c: "check G q (av_new (av G)) = Some (if b then Unwind (q', v) else Ret (q', v) ())"
      and q': "queue_inv G V q'" "removed V (pins q') = park (removed V (pins q)) gs"
        "elems v = elems (av_new (av G)) @ grant_wakers gs" "poisoned q' = (poisoned q \<or> b)" "closed q' = closed q"
      and "if poisoned q \<or> closed q then q' = q \<and> gs = [] \<and> \<not> b
        else serve (acquire (sem G)) (batch_cap - length (elems (av_new (av G)))) (state q) (links V (pins q)) =
          (state q', links V (pins q'), gs, b)"
    then have srv: "serve (acquire (sem G)) batch_cap (state q) (links V (pins q)) =
        (state q', links V (pins q'), gs, b)" using q by (simp add: AV.av_new)
    note o = TS.serve_out [OF srv q(4) used_live [OF assms]]
    have grants: "w = n \<and> n \<in> ids (links V (pins q))" if "(n, a, w) \<in> set gs" for n a w
      using serve_grants_in [OF srv that] used_waker [OF assms] by force
    have ws: "grant_wakers gs = map fst gs" using grants by (auto simp: grant_wakers_def)
    have fresh: "\<forall>n \<in> fst ` set gs. removed V (pins q) n = None"
      using grants linked_not_removed [OF inv] by fastforce
    note park = parked_park [OF q(3) serve_grants_distinct [OF srv waiters_distinct [OF inv]] fresh, of one]
    have "used q' M"
      using assms o q' park q by (auto simp: in_use_def add.assoc)
    moreover have "round_of q q' (map fst gs) (if more_rounds G Recheck q' v then Recheck else Stop)"
      unfolding round_of_def
    proof (intro conjI)
      show "ids (links V (pins q)) = ids (links V (pins q')) \<union> set (map fst gs)" using o by simp
      show "length (links V (pins q)) = length (links V (pins q')) + length (map fst gs)"
        using serve_grants_prefix [OF srv] by simp
      show "dom (removed V (pins q')) = dom (removed V (pins q)) \<union> set (map fst gs)"
        by (simp add: q'(2) park_dom)
      have "gs \<noteq> []" if "more_rounds G Recheck q' v"
        using that q'(3) by (auto simp: AV.av_full AV.av_new batch_cap_def)
      moreover have "head_stuck G V q'" if "\<not> more_rounds G Recheck q' v"
      proof (cases "length gs < batch_cap")
        case False
        with that q'(1,3) have "links V (pins q') = []" by (auto simp: AV.av_full AV.av_new queue_inv_def)
        then show ?thesis by simp
      qed (use o in simp)
      ultimately show "(if more_rounds G Recheck q' v then Recheck else Stop) = Recheck \<and> map fst gs \<noteq> [] \<or>
          (if more_rounds G Recheck q' v then Recheck else Stop) = Stop \<and> head_stuck G V q'" by simp
    qed
    moreover have "round_end G Recheck (Ret (q', v) ()) =
        Some (q', map fst gs, if more_rounds G Recheck q' v then Recheck else Stop)"
      using q'(3) ws by (simp add: AV.av_drain AV.av_new)
    ultimately show thesis using that c o by simp
  qed
qed

text \<open>A call of \<open>with_state\<close> with a closure that returns in a state that agrees with \<open>M'\<close>.\<close>

lemma change_used:
  assumes "used q M" and "f (state q) = Returns st r" and "out st (M' + parked one (removed V (pins q)))"
  obtains q' v ws k where "first_round G (update_state f) q = Some (Ret (q', v) ())"
    "round_end G Recheck (Ret (q', v) ()) = Some (q', ws, k)" "used q' M'" "round_of q q' ws k"
proof -
  let ?q = "q\<lparr>state := st\<rparr>"
  have upd: "update_state f q = Ret ?q r" using assms(2) by (simp add: update_state_def)
  have used: "used ?q M'" using assms(1,3) by (auto simp: in_use_def queue_inv_def)
  show thesis
  proof (cases "len q = 0")
    case True
    then have "links V (pins q) = []" using assms(1) by (simp add: in_use_def queue_inv_def)
    then show thesis
      using that [of ?q "av_new (av G)" "[]" Stop] True upd used
      by (simp add: first_round_def AV.av_drain AV.av_new AV.av_full batch_cap_def round_of_def)
  next
    case False
    show thesis
      by (rule check_used [OF used]) (use that upd False in \<open>simp add: first_round_def round_of_def\<close>)
  qed
qed

text \<open>Polls. A first poll gets a permit or joins the line; a later one claims its permit or waits on.\<close>

lemma attempt_used:
  assumes "used q M"
  shows "acquire_or_enqueue G p True q \<noteq> Unwind q' \<and> acquire_or_enqueue G p True q \<noteq> Ret q' (Poisoned p')"
proof -
  have q: "queue_inv G V q" "\<not> poisoned q" "\<not> closed q" using assms by (simp_all add: in_use_def)
  show ?thesis
    using acquire_open [OF q, of p True] assms TS.out_returns policy_returns
    by (auto simp: in_use_def split: call.splits sum.splits)
qed

lemma poll_first_used:
  assumes "used q M" and "\<not> waits_at V q n" and "fits p"
  obtains (granted) q' fut a where "poll G n (queue_acquire n p) q = Ret (q', fut) (Ready (Inr a))"
      "used q' (add_mset a M)" "pins q' = pins q" "head_stuck G V q \<Longrightarrow> head_stuck G V q'"
  | (joined) q' fut where "poll G n (queue_acquire n p) q = Ret (q', fut) Pending"
      "fut_node fut = n" "fut_params fut = None" "used q' M"
      "ids (links V (pins q')) = insert n (ids (links V (pins q)))"
      "length (links V (pins q')) = Suc (length (links V (pins q)))" "removed V (pins q') = removed V (pins q)"
      "head_stuck G V q \<Longrightarrow> head_stuck G V q'"
proof -
  let ?fut = "queue_acquire n p"
  have q: "queue_inv G V q" "\<not> poisoned q" "\<not> closed q" and
    o: "out (state q) (M + parked one (removed V (pins q)))" using assms(1) by (simp_all add: in_use_def)
  have fresh: "\<not> pl_initialized (pl G) (pins q) (fut_node ?fut)"
    using assms(2) initialized_iff [OF q(1)] by (simp add: waits_at_def queue_acquire_def)
  show thesis
  proof (rule poll_first_result [OF q(1) fresh, of p n])
    fix q' a
    assume "poll G n ?fut q = Ret (q', ?fut\<lparr>fut_params := None\<rparr>) (Ready (Inr a))" "same_list q q'" "\<not> poisoned q'"
      and a: "acquire (sem G) (state q) p = Returns (state q') (Inr a)"
    with granted [of q' "?fut\<lparr>fut_params := None\<rparr>" a] assms(1) TS.out_grant [OF o a] TS.stuck_grant [OF o a]
      same_list_inv [OF \<open>same_list q q'\<close> q(1)]
    show thesis by (auto simp: in_use_def same_list_def)
  next
    fix q'
    assume "poll G n ?fut q = Unwind (q', ?fut\<lparr>fut_params := None\<rparr>)" "same_list q q'"
    with fresh attempt_used [OF assms(1), of p] show thesis
      by (auto simp: poll_def poll_first_def queue_acquire_def Let_def split: exec.splits outcome.splits list_slot.splits)
  next
    fix q' front p'
    assume j: "poll G n ?fut q = Ret (q', ?fut\<lparr>fut_params := None\<rparr>) Pending" "queue_inv G V q'"
        "poisoned q' = poisoned q" "closed q' = closed q"
        "links V (pins q') = (if front then (fut_node ?fut, Some p', n) # links V (pins q)
          else links V (pins q) @ [(fut_node ?fut, Some p', n)])" "removed V (pins q') = removed V (pins q)"
      and why: "acquire (sem G) (state q) p = Returns (state q') (Inl p') \<and> (front \<or> links V (pins q) = []) \<or>
        state q' = state q \<and> p' = p \<and> \<not> front \<and> links V (pins q) \<noteq> []"
    then have st: "state q' = state q" "p' = p" using TS.out_refusal [OF o] by auto
    moreover have "head_stuck G V q'" if "head_stuck G V q"
      using that why st j(5) by (auto simp: stuck_append queue_acquire_def)
    ultimately show thesis
      using joined [OF j(1)] j(2-) assms(1,3) by (auto simp: in_use_def queue_acquire_def)
  qed (use q in \<open>simp_all add: queue_acquire_def\<close>)
qed

lemma poll_again_used:
  assumes "used q M" and "waits_at V q n" and "fut_node fut = n"
  obtains (claimed) q' a where "poll G n fut q = Ret (q', fut) (Ready (Inr a))" "used q' (add_mset a M)"
      "links V (pins q') = links V (pins q)" "removed V (pins q') = (removed V (pins q))(n := None)"
      "n \<notin> ids (links V (pins q))" "state q' = state q"
  | (waits) q' where "poll G n fut q = Ret (q', fut) Pending" "used q' M"
      "ids (links V (pins q')) = ids (links V (pins q))" "length (links V (pins q')) = length (links V (pins q))"
      "removed V (pins q') = removed V (pins q)" "n \<in> ids (links V (pins q))" "head_stuck G V q' = head_stuck G V q"
proof -
  have q: "queue_inv G V q" "\<not> poisoned q" "\<not> closed q" "finite (dom (removed V (pins q)))" and
    o: "out (state q) (M + parked one (removed V (pins q)))" using assms(1) by (simp_all add: in_use_def)
  show thesis
  proof (rule poll_result [OF q(1), where cx = n and fut = fut])
    fix m xs prm w ys
    assume l: "poll G n fut q = Ret (q\<lparr>pins := m\<rparr>, fut) Pending" "queue_inv G V (q\<lparr>pins := m\<rparr>)"
      "links V (pins q) = xs @ (fut_node fut, prm, w) # ys" "links V m = xs @ (fut_node fut, prm, n) # ys"
      "removed V m = removed V (pins q)"
    with used_waker [OF assms(1), of n prm w] assms(3) have "w = n" by simp
    with l have "links V m = links V (pins q)" using assms(3) by simp
    with l waits [OF l(1)] assms(1,3) show thesis by (auto simp: in_use_def)
  next
    fix m r
    assume c: "poll G n fut q = (case r of
         Inr a \<Rightarrow> Ret (q\<lparr>pins := m\<rparr>, fut) (Ready (Inr a))
       | Inl None \<Rightarrow> Unwind (q\<lparr>pins := m\<rparr>, fut)
       | Inl (Some p) \<Rightarrow> Ret (q\<lparr>pins := m\<rparr>, fut) (Ready (Inl (AcquireError p))))"
      "queue_inv G V (q\<lparr>pins := m\<rparr>)" "links V m = links V (pins q)"
      "removed V m = (removed V (pins q))(fut_node fut := None)" "removed V (pins q) (fut_node fut) = Some r"
      "fut_node fut \<notin> ids (links V (pins q))" "case r of Inl _ \<Rightarrow> closed q | Inr _ \<Rightarrow> True"
    then obtain a where r: "r = Inr a" using q by (cases r) auto
    from parked_take [OF q(4) c(5), of one] have "parked one (removed V (pins q)) = parked one (removed V m) + one a"
      unfolding c(4) by (simp add: r parked_cost_def)
    with c r q o assms(1,3) show thesis by (intro claimed [of "q\<lparr>pins := m\<rparr>" a]) (auto simp: in_use_def)
  qed (use q assms(2,3) in \<open>auto simp: waits_at_def\<close>)
qed

end

end
