(* ===== verification/State_Examples.thy ===== *)
theory State_Examples
  imports Sem_State "HOL-Library.Word"
begin

text \<open>
  The implementations of \<open>SemaphoreState\<close> in the repository: the counters, limits and pools of the
  crate documentation, of the example programs and of the test library. \<open>usize\<close> and \<open>u64\<close> are
  64-bit words. Arithmetic is that of a build with overflow checks, the default for tests and
  examples: \<open>+=\<close> and \<open>-=\<close> panic, before the store, where the result does not fit.
\<close>

section \<open>Checked arithmetic\<close>

definition checked_add :: "64 word \<Rightarrow> 64 word \<Rightarrow> 64 word option" where
  "checked_add x y = (if unat x + unat y < 2 ^ 64 then Some (x + y) else None)"

definition checked_sub :: "64 word \<Rightarrow> 64 word \<Rightarrow> 64 word option" where
  "checked_sub x y = (if y \<le> x then Some (x - y) else None)"

lemma unat_sum: "unat x + unat y < 2 ^ 64 \<Longrightarrow> unat (x + y :: 64 word) = unat x + unat y"
  by (simp add: unat_word_ariths)

lemma unat_bound: "unat (x :: 64 word) < 2 ^ 64"
  using unsigned_less [of x] by simp

lemma checked_add_None: "checked_add x y = None \<longleftrightarrow> 2 ^ 64 \<le> unat x + unat y"
  by (simp add: checked_add_def linorder_not_less)

lemma checked_add_unat: "checked_add x y = Some z \<Longrightarrow> unat z = unat x + unat y"
  by (auto simp: checked_add_def unat_sum split: if_splits)

lemma checked_sub_unat: "checked_sub x y = Some z \<Longrightarrow> unat x = unat z + unat y"
  by (auto simp: checked_sub_def unat_sub word_le_nat_alt split: if_splits)

lemma checked_sub_add: "y \<le> x \<Longrightarrow> checked_add (x - y) y = Some x"
  using unat_bound [of x] by (simp add: checked_add_def unat_sub word_le_nat_alt)

section \<open>A counter of permits\<close>

text \<open>\<open>SemaphoreCounter\<close> of the test library, and the one of the crate documentation, which tests the
  count with \<open>checked_sub\<close>.\<close>

definition semaphore_counter :: "(64 word, 64 word, 64 word) semaphore_state" where
  "semaphore_counter = \<lparr>
     acquire = (\<lambda>self params.
       if params \<le> self then Returns (self - params) (Inr params) else Returns self (Inl params)),
     release = (\<lambda>self permit. case checked_add self permit of
         None \<Rightarrow> Panics self
       | Some count \<Rightarrow> Returns count ())\<rparr>"

definition doc_semaphore_counter :: "(64 word, 64 word, 64 word) semaphore_state" where
  "doc_semaphore_counter = \<lparr>
     acquire = (\<lambda>self params. case checked_sub self params of
         Some available \<Rightarrow> Returns available (Inr params)
       | None \<Rightarrow> Returns self (Inl params)),
     release = (\<lambda>self permit. case checked_add self permit of
         None \<Rightarrow> Panics self
       | Some count \<Rightarrow> Returns count ())\<rparr>"

text \<open>The \<open>Counter\<close> of the documentation of \<open>TryAcquireError\<close>: one permit at a time.\<close>

definition unit_counter :: "(64 word, unit, unit) semaphore_state" where
  "unit_counter = \<lparr>
     acquire = (\<lambda>self _. if self > 0 then Returns (self - 1) (Inr ()) else Returns self (Inl ())),
     release = (\<lambda>self _. case checked_add self 1 of
         None \<Rightarrow> Panics self
       | Some count \<Rightarrow> Returns count ())\<rparr>"

section \<open>A limit that can be moved\<close>

text \<open>\<open>Utilisation\<close> of the crate documentation, with its methods, and \<open>ConcurrencyLimit\<close> of the example
  \<open>dynamic_limit\<close>.\<close>

record utilisation =
  taken :: "64 word"
  limit :: "64 word"

definition utilisation_state :: "(utilisation, unit, unit) semaphore_state" where
  "utilisation_state = \<lparr>
     acquire = (\<lambda>self p.
       if taken self < limit self
       then (case checked_add (taken self) 1 of
           None \<Rightarrow> Panics self
         | Some t \<Rightarrow> Returns (self\<lparr>taken := t\<rparr>) (Inr p))
       else Returns self (Inl p)),
     release = (\<lambda>self _. case checked_sub (taken self) 1 of
         None \<Rightarrow> Panics self
       | Some t \<Rightarrow> Returns (self\<lparr>taken := t\<rparr>) ())\<rparr>"

definition utilisation_new :: "64 word \<Rightarrow> utilisation" where
  "utilisation_new tokens = \<lparr>taken = 0, limit = tokens\<rparr>"

definition add_tokens :: "64 word \<Rightarrow> utilisation \<Rightarrow> (utilisation, unit) call" where
  "add_tokens x self = (case checked_add (limit self) x of
     None \<Rightarrow> Panics self
   | Some l \<Rightarrow> Returns (self\<lparr>limit := l\<rparr>) ())"

definition remove_tokens :: "64 word \<Rightarrow> utilisation \<Rightarrow> (utilisation, unit) call" where
  "remove_tokens x self = (case checked_sub (limit self) x of
     None \<Rightarrow> Panics self
   | Some l \<Rightarrow> Returns (self\<lparr>limit := l\<rparr>) ())"

record concurrency_limit =
  in_flight :: "64 word"
  ceiling :: "64 word"

definition concurrency_limit_state :: "(concurrency_limit, unit, unit) semaphore_state" where
  "concurrency_limit_state = \<lparr>
     acquire = (\<lambda>self _.
       if in_flight self < ceiling self
       then (case checked_add (in_flight self) 1 of
           None \<Rightarrow> Panics self
         | Some t \<Rightarrow> Returns (self\<lparr>in_flight := t\<rparr>) (Inr ()))
       else Returns self (Inl ())),
     release = (\<lambda>self _. case checked_sub (in_flight self) 1 of
         None \<Rightarrow> Panics self
       | Some t \<Rightarrow> Returns (self\<lparr>in_flight := t\<rparr>) ())\<rparr>"

section \<open>Two quantities at once\<close>

text \<open>\<open>Limits\<close> with \<open>Reservation\<close> of the example \<open>multi_dimensional\<close>, and \<open>Utilisation\<close> with \<open>Request\<close>
  of the crate documentation. In \<open>release\<close> the first counter is already stored when the second
  addition panics.\<close>

record limits =
  requests :: "64 word"
  free_bytes :: "64 word"

record reservation =
  bytes :: "64 word"

definition limits_acquire :: "limits \<Rightarrow> reservation \<Rightarrow> (limits, reservation + reservation) call" where
  "limits_acquire self req =
    (if 1 \<le> requests self \<and> bytes req \<le> free_bytes self
     then (case checked_sub (requests self) 1 of
         None \<Rightarrow> Panics self
       | Some r \<Rightarrow> (case checked_sub (free_bytes self) (bytes req) of
           None \<Rightarrow> Panics (self\<lparr>requests := r\<rparr>)
         | Some b \<Rightarrow> Returns (self\<lparr>requests := r, free_bytes := b\<rparr>) (Inr req)))
     else Returns self (Inl req))"

definition limits_release :: "limits \<Rightarrow> reservation \<Rightarrow> (limits, unit) call" where
  "limits_release self req = (case checked_add (requests self) 1 of
     None \<Rightarrow> Panics self
   | Some r \<Rightarrow> (case checked_add (free_bytes self) (bytes req) of
       None \<Rightarrow> Panics (self\<lparr>requests := r\<rparr>)
     | Some b \<Rightarrow> Returns (self\<lparr>requests := r, free_bytes := b\<rparr>) ()))"

definition limits_state :: "(limits, reservation, reservation) semaphore_state" where
  "limits_state = \<lparr>acquire = limits_acquire, release = limits_release\<rparr>"

section \<open>A pool of connections\<close>

text \<open>\<open>Pool\<close> of the crate documentation and of the example \<open>connection_pool\<close>: a \<open>Vec\<close> of connections,
  its end last; \<open>pop\<close> takes the last one.\<close>

definition pool_state :: "('c list, unit, 'c) semaphore_state" where
  "pool_state = \<lparr>
     acquire = (\<lambda>idle p. if idle = [] then Returns idle (Inl p) else Returns (butlast idle) (Inr (last idle))),
     release = (\<lambda>idle conn. Returns (idle @ [conn]) ())\<rparr>"

section \<open>They keep the contract\<close>

lemma below_no_overflow: "x < y \<Longrightarrow> checked_add x 1 = Some (x + 1)"
  using unat_bound [of y] by (simp add: checked_add_def word_less_nat_alt)

lemma below_undo: "x < y \<Longrightarrow> checked_sub (x + 1) 1 = Some x"
  using unat_bound [of y]
  by (simp add: checked_sub_def word_less_nat_alt word_le_nat_alt unat_sum)

interpretation counter: lawful_state semaphore_counter
proof unfold_locales
  fix s p s' p' q a :: "64 word"
  assume "acquire semaphore_counter s p = Returns s' (Inr a)"
    and "acquire semaphore_counter s q = Returns s (Inl q)"
  then have "p \<le> s" "s' = s - p" "\<not> q \<le> s"
    by (auto simp: semaphore_counter_def split: if_splits)
  then have "\<not> q \<le> s'"
    by (simp add: word_le_nat_alt unat_sub)
  then show "acquire semaphore_counter s' q = Returns s' (Inl q)"
    by (simp add: semaphore_counter_def)
qed (auto simp: semaphore_counter_def split: if_splits)

text \<open>The two counters are the same state.\<close>

lemma doc_counter_eq: "doc_semaphore_counter = semaphore_counter"
  by (auto simp: doc_semaphore_counter_def semaphore_counter_def checked_sub_def fun_eq_iff)

interpretation unit_counter: lawful_state unit_counter
  by unfold_locales (auto simp: unit_counter_def split: if_splits)

interpretation utilisation: lawful_state utilisation_state
  by unfold_locales (auto simp: utilisation_state_def below_no_overflow split: if_splits)

interpretation concurrency_limit: lawful_state concurrency_limit_state
  by unfold_locales (auto simp: concurrency_limit_state_def below_no_overflow split: if_splits)

interpretation pool: lawful_state pool_state
  by unfold_locales (auto simp: pool_state_def split: if_splits)

lemma limits_acquire_eq: "limits_acquire self req =
    (if 1 \<le> requests self \<and> bytes req \<le> free_bytes self
     then Returns (self\<lparr>requests := requests self - 1, free_bytes := free_bytes self - bytes req\<rparr>) (Inr req)
     else Returns self (Inl req))"
  by (simp add: limits_acquire_def checked_sub_def)

interpretation limits: lawful_state limits_state
proof unfold_locales
  fix s s' :: limits and p q a
  assume "acquire limits_state s p = Returns s' (Inr a)"
    and "acquire limits_state s q = Returns s (Inl q)"
  then have "1 \<le> requests s" "bytes p \<le> free_bytes s" "\<not> bytes q \<le> free_bytes s"
    "free_bytes s' = free_bytes s - bytes p"
    by (auto simp: limits_state_def limits_acquire_eq split: if_splits)
  then have "\<not> bytes q \<le> free_bytes s'"
    by (simp add: word_le_nat_alt unat_sub)
  then show "acquire limits_state s' q = Returns s' (Inl q)"
    by (simp add: limits_state_def limits_acquire_eq)
qed (auto simp: limits_state_def limits_acquire_eq split: if_splits)

section \<open>They do not hand out more than they have\<close>

lemma checked_add_uint: "checked_add x y = Some z \<Longrightarrow> uint z = uint x + uint y"
  by (drule checked_add_unat, drule arg_cong [where f = int]) simp

lemma checked_sub_uint: "checked_sub x y = Some z \<Longrightarrow> uint x = uint z + uint y"
  by (drule checked_sub_unat, drule arg_cong [where f = int]) simp

lemma checked_add_fits:
  assumes "uint x + uint y \<le> 2 ^ 64 - 1"
  shows "\<exists>z. checked_add x y = Some z"
proof -
  have "int (unat x + unat y) < int (2 ^ 64)" using assms by simp
  then show ?thesis unfolding checked_add_def by (simp only: of_nat_less_iff) simp
qed

lemma sub_uint: "y \<le> x \<Longrightarrow> uint (x - y) = uint x - uint y" for x :: "64 word"
  using checked_sub_uint [of x y "x - y"] by (simp add: checked_sub_def)

lemma one_le: "0 < x \<Longrightarrow> 1 \<le> x" for x :: "64 word"
  by (simp add: word_le_nat_alt Suc_le_eq unat_gt_0)

text \<open>The counters hand out what is left, at most \<open>usize::MAX\<close>.\<close>

interpretation counter: budget_state semaphore_counter uint uint "2 ^ 64 - 1"
  by unfold_locales (use checked_add_fits in \<open>fastforce simp: semaphore_counter_def sub_uint
      dest: checked_add_uint split: if_splits option.splits\<close>)+

interpretation unit_counter: budget_state unit_counter uint "\<lambda>_. 1" "2 ^ 64 - 1"
  by unfold_locales (use checked_add_fits [of _ 1] in \<open>fastforce simp: unit_counter_def sub_uint one_le
      dest: checked_add_uint split: if_splits option.splits\<close>)+

text \<open>The pool has no bound.\<close>

interpretation pool: budget_state pool_state "\<lambda>idle. int (length idle)" "\<lambda>_. 1" cap for cap
  by unfold_locales (auto simp: pool_state_def Suc_leI of_nat_diff split: if_splits)

text \<open>The movable limits count what is taken, whatever the limit is.\<close>

lemma taken_fits: "1 \<le> uint x \<Longrightarrow> \<exists>z. checked_sub x 1 = Some z"
  by (simp add: checked_sub_def word_le_def)

interpretation utilisation: budget_state utilisation_state "\<lambda>s. - uint (taken s)" "\<lambda>_. 1" 0
  by unfold_locales (use taken_fits in \<open>fastforce simp: utilisation_state_def
      dest: checked_add_uint checked_sub_uint split: if_splits option.splits\<close>)+

interpretation concurrency_limit: budget_state concurrency_limit_state "\<lambda>s. - uint (in_flight s)" "\<lambda>_. 1" 0
  by unfold_locales (use taken_fits in \<open>fastforce simp: concurrency_limit_state_def
      dest: checked_add_uint checked_sub_uint split: if_splits option.splits\<close>)+

text \<open>For the two quantities of \<open>Limits\<close>, each of them.\<close>

interpretation limit_requests: measured_state limits_state "\<lambda>s. uint (requests s)" "\<lambda>_. 1"
  by unfold_locales (auto simp: limits_state_def limits_acquire_eq limits_release_def sub_uint
      dest: checked_add_uint split: if_splits option.splits)

interpretation limit_bytes: measured_state limits_state "\<lambda>s. uint (free_bytes s)" "\<lambda>a. uint (bytes a)"
  by unfold_locales (auto simp: limits_state_def limits_acquire_eq limits_release_def sub_uint
      dest: checked_add_uint split: if_splits option.splits)

section \<open>Releasing undoes acquiring\<close>

text \<open>\<open>acquire\<close> returns, and releasing what it granted succeeds and brings back the state before.\<close>

definition undoes :: "('s, 'p, 'a) semaphore_state \<Rightarrow> 's \<Rightarrow> 'p \<Rightarrow> bool" where
  "undoes S s p \<longleftrightarrow> (\<exists>s' r. acquire S s p = Returns s' r \<and> (\<forall>a. r = Inr a \<longrightarrow> release S s' a = Returns s ()))"

lemma counters_undo: "undoes semaphore_counter s p" "undoes doc_semaphore_counter s p" "undoes unit_counter n ()"
  using one_le [of n]
  by (auto simp: undoes_def doc_counter_eq semaphore_counter_def unit_counter_def checked_sub_add split: if_splits)

lemma limits_undo: "undoes utilisation_state u p" "undoes concurrency_limit_state c ()" "undoes limits_state l q"
proof -
  have "u\<lparr>taken := taken u\<rparr> = u" by (cases u) simp
  then show "undoes utilisation_state u p"
    by (auto simp: undoes_def utilisation_state_def below_no_overflow below_undo split: if_splits)
  have "c\<lparr>in_flight := in_flight c\<rparr> = c" by (cases c) simp
  then show "undoes concurrency_limit_state c ()"
    by (auto simp: undoes_def concurrency_limit_state_def below_no_overflow below_undo split: if_splits)
  have "l\<lparr>requests := requests l, free_bytes := free_bytes l\<rparr> = l" by (cases l) simp
  then show "undoes limits_state l q"
    by (auto simp: undoes_def limits_state_def limits_acquire_eq limits_release_def checked_sub_add split: if_splits)
qed

lemma pool_undo: "undoes pool_state idle ()"
  by (auto simp: undoes_def pool_state_def)

end
