(* ===== verification/Semaphore.thy ===== *)
theory Semaphore
  imports Queue_Ops State_Examples
begin

text \<open>
  The crate flag-bearer on top of the queue: the builder, the methods of \<open>Semaphore\<close> with the future
  of \<open>acquire\<close>, the guard \<open>Permit\<close> with the \<open>DropWrapper\<close> it is made of, and a user of the crate,
  the counting semaphore of the test library.
\<close>

section \<open>The drop wrapper\<close>

text \<open>
  flag-bearer/src/drop_wrapper.rs. The field \<open>t : ManuallyDrop<T>\<close> is \<open>None\<close> once its value has been
  moved out; taking it a second time is undefined behaviour. \<open>drop2\<close> is \<open>Drop2::drop\<close> of the field \<open>s\<close>.
\<close>

record ('t, 'd) drop_wrapper =
  dw_t :: "'t option"
  dw_s :: 'd

definition dw_new :: "'d \<Rightarrow> 't \<Rightarrow> ('t, 'd) drop_wrapper" where
  "dw_new s t = \<lparr>dw_t = Some t, dw_s = s\<rparr>"

text \<open>\<open>ManuallyDrop::take\<close>: the value, and the wrapper without it.\<close>

definition manually_take :: "('t, 'd) drop_wrapper \<Rightarrow> (('t, 'd) drop_wrapper, 't) exec" where
  "manually_take w = (case dw_t w of None \<Rightarrow> UB | Some t \<Rightarrow> Ret (w\<lparr>dw_t := None\<rparr>) t)"

text \<open>\<open>Drop for DropWrapper\<close>, with the data \<open>q\<close> that \<open>drop2\<close> works on.\<close>

definition dw_drop :: "('d \<Rightarrow> 't \<Rightarrow> 'q \<Rightarrow> ('x, 'r) exec option) \<Rightarrow> ('t, 'd) drop_wrapper \<Rightarrow> 'q
    \<Rightarrow> ('x, 'r) exec option" where
  "dw_drop drop2 w q = (case manually_take w of
     Ret w' t \<Rightarrow> drop2 (dw_s w') t q
   | _ \<Rightarrow> Some UB)"

text \<open>\<open>DropWrapper::take\<close> suppresses that drop, drops \<open>s\<close> alone (a shared reference, so nothing
  happens) and moves the value out.\<close>

definition dw_take :: "('t, 'd) drop_wrapper \<Rightarrow> (('t, 'd) drop_wrapper, 't) exec" where
  "dw_take w = manually_take w"

section \<open>The builder\<close>

text \<open>\<open>Builder<O, C>\<close>: the type parameter \<open>C\<close> is the field \<open>b_mode\<close>.\<close>

record 'o builder =
  b_order :: 'o
  b_mode :: close_mode

definition fifo :: "fair_order builder" where
  "fifo = \<lparr>b_order = Fifo, b_mode = Uncloseable\<rparr>"

definition lifo :: "fair_order builder" where
  "lifo = \<lparr>b_order = Lifo, b_mode = Uncloseable\<rparr>"

definition hybrid :: "nat \<Rightarrow> hybrid builder" where
  "hybrid n = \<lparr>b_order = \<lparr>lifo_above = n\<rparr>, b_mode = Uncloseable\<rparr>"

definition with_order :: "'o \<Rightarrow> 'o builder" where
  "with_order ord = \<lparr>b_order = ord, b_mode = Uncloseable\<rparr>"

definition closeable :: "'o builder \<Rightarrow> 'o builder" where
  "closeable b = b\<lparr>b_mode := Closeable\<rparr>"

text \<open>The semaphore that \<open>Builder::with_state\<close> makes: its queue, for generics with the builder's \<open>C\<close>.\<close>

definition builder_with_state ::
  "('m, 'v, 's, 'p, 'a, 'o, 'w) generics \<Rightarrow> 'o builder \<Rightarrow> 's
    \<Rightarrow> ('m, 'v, 's, 'p, 'a, 'o, 'w) generics \<times> ('m, 's, 'o) queue_state" where
  "builder_with_state G b s = (G\<lparr>mode := b_mode b\<rparr>, new_queue (G\<lparr>mode := b_mode b\<rparr>) s (b_order b))"

section \<open>Permits\<close>

text \<open>\<open>Permit\<close>: the value behind a drop guard that refers to the semaphore, here by the reference \<open>sem\<close>.\<close>

record 'e sem_wrapper =
  sem_ref :: 'e

type_synonym ('a, 'e) permit = "('a, 'e sem_wrapper) drop_wrapper"

definition out_of_thin_air :: "'e \<Rightarrow> 'a \<Rightarrow> ('a, 'e) permit" where
  "out_of_thin_air e a = dw_new \<lparr>sem_ref = e\<rparr> a"

definition permit_semaphore :: "('a, 'e) permit \<Rightarrow> 'e" where
  "permit_semaphore this = sem_ref (dw_s this)"

definition permit_take :: "('a, 'e) permit \<Rightarrow> (('a, 'e) permit, 'a) exec" where
  "permit_take this = dw_take this"

text \<open>\<open>Deref\<close> and \<open>DerefMut\<close>: the borrow of the value, here its value and what the borrower makes of it with
  code that may panic.\<close>

definition permit_deref :: "('a, 'e) permit \<Rightarrow> (('a, 'e) permit, 'a) exec" where
  "permit_deref this = (case dw_t this of None \<Rightarrow> UB | Some t \<Rightarrow> Ret this t)"

definition permit_deref_mut :: "('a, 'e) permit \<Rightarrow> ('a \<Rightarrow> ('a, 'r) call) \<Rightarrow> (('a, 'e) permit, 'r) exec" where
  "permit_deref_mut this f = (case dw_t this of
     None \<Rightarrow> UB
   | Some t \<Rightarrow> (case f t of
       Returns t' r \<Rightarrow> Ret (this\<lparr>dw_t := Some t'\<rparr>) r
     | Panics t' \<Rightarrow> Unwind (this\<lparr>dw_t := Some t'\<rparr>)))"

text \<open>\<open>Drop2 for SemWrapper\<close>: release through \<open>with_state\<close>, so that waiters are served.\<close>

definition sem_wrapper_drop ::
  "('m, 'v, 's, 'p, 'a, 'o, 'w) generics \<Rightarrow> ('w, ('m, 's, 'o) queue_state) run_wake
    \<Rightarrow> 'e sem_wrapper \<Rightarrow> 'a \<Rightarrow> ('m, 's, 'o) queue_state
    \<Rightarrow> (('m, 's, 'o) queue_state \<times> 'w list, unit) exec option" where
  "sem_wrapper_drop G run this permit q = with_state G run (\<lambda>s. release (sem G) s permit) q"

definition permit_drop ::
  "('m, 'v, 's, 'p, 'a, 'o, 'w) generics \<Rightarrow> ('w, ('m, 's, 'o) queue_state) run_wake
    \<Rightarrow> ('a, 'e) permit \<Rightarrow> ('m, 's, 'o) queue_state
    \<Rightarrow> (('m, 's, 'o) queue_state \<times> 'w list, unit) exec option" where
  "permit_drop G run this q = dw_drop (sem_wrapper_drop G run) this q"

section \<open>The methods of the semaphore\<close>

text \<open>
  The future of the \<open>async fn acquire\<close>: before its first poll it holds the params, while it waits the
  queue's future, and when it has returned or panicked nothing. Polling it again then panics.
\<close>

datatype 'p acquire_call = Unresumed 'p | Awaiting "'p acquire_future" | Finished

definition sem_acquire :: "'p \<Rightarrow> 'p acquire_call" where
  "sem_acquire p = Unresumed p"

definition await_acquire ::
  "('m, 'v, 's, 'p, 'a, 'o, 'w) generics \<Rightarrow> 'e \<Rightarrow> 'w \<Rightarrow> 'p acquire_future \<Rightarrow> ('m, 's, 'o) queue_state
    \<Rightarrow> (('m, 's, 'o) queue_state \<times> 'p acquire_call, ('p acquire_error + ('a, 'e) permit) poll) exec" where
  "await_acquire G e cx fut q = (case poll G cx fut q of
     Ret (q', fut') Pending \<Rightarrow> Ret (q', Awaiting fut') Pending
   | Ret (q', fut') (Ready (Inr a)) \<Rightarrow> Ret (q', Finished) (Ready (Inr (out_of_thin_air e a)))
   | Ret (q', fut') (Ready (Inl err)) \<Rightarrow> Ret (q', Finished) (Ready (Inl err))
   | Unwind (q', fut') \<Rightarrow> Unwind (q', Finished)
   | Abort \<Rightarrow> Abort
   | UB \<Rightarrow> UB)"

text \<open>The argument \<open>n\<close> is the address the call is pinned at, which is the identity of its node.\<close>

fun acquire_poll ::
  "('m, 'v, 's, 'p, 'a, 'o, 'w) generics \<Rightarrow> 'e \<Rightarrow> 'w \<Rightarrow> nid \<Rightarrow> 'p acquire_call \<Rightarrow> ('m, 's, 'o) queue_state
    \<Rightarrow> (('m, 's, 'o) queue_state \<times> 'p acquire_call, ('p acquire_error + ('a, 'e) permit) poll) exec" where
  "acquire_poll G e cx n (Unresumed p) q = await_acquire G e cx (queue_acquire n p) q"
| "acquire_poll G e cx n (Awaiting fut) q = await_acquire G e cx fut q"
| "acquire_poll G e cx n Finished q = Unwind (q, Finished)"

text \<open>\<open>AcquireError<Uncloseable>::never\<close> of flag-bearer-queue/src/acquire.rs, the empty match on the error.\<close>

definition never :: "'p acquire_error \<Rightarrow> ('q, 'r) exec" where
  [simp]: "never err = UB"

text \<open>\<open>must_acquire\<close>, for an uncloseable semaphore.\<close>

definition must_acquire_poll ::
  "('m, 'v, 's, 'p, 'a, 'o, 'w) generics \<Rightarrow> 'e \<Rightarrow> 'w \<Rightarrow> nid \<Rightarrow> 'p acquire_call \<Rightarrow> ('m, 's, 'o) queue_state
    \<Rightarrow> (('m, 's, 'o) queue_state \<times> 'p acquire_call, ('a, 'e) permit poll) exec" where
  "must_acquire_poll G e cx n call q = (case acquire_poll G e cx n call q of
     Ret qc Pending \<Rightarrow> Ret qc Pending
   | Ret qc (Ready (Inr permit)) \<Rightarrow> Ret qc (Ready permit)
   | Ret qc (Ready (Inl err)) \<Rightarrow> never err
   | Unwind qc \<Rightarrow> Unwind qc
   | Abort \<Rightarrow> Abort
   | UB \<Rightarrow> UB)"

text \<open>Dropping the call drops the queue's future, if there is one.\<close>

fun acquire_drop ::
  "('m, 'v, 's, 'p, 'a, 'o, 'w) generics \<Rightarrow> ('w, ('m, 's, 'o) queue_state) run_wake
    \<Rightarrow> 'p acquire_call \<Rightarrow> ('m, 's, 'o) queue_state
    \<Rightarrow> (('m, 's, 'o) queue_state \<times> 'w list, ('p, 'a, 'w) abandoned) exec option" where
  "acquire_drop G run (Awaiting fut) q = drop_acquire G run fut q"
| "acquire_drop G run call q = Some (Ret (q, []) None)"

definition map_permit :: "'e \<Rightarrow> ('q, 'p try_acquire_error + 'a) exec
    \<Rightarrow> ('q, 'p try_acquire_error + ('a, 'e) permit) exec" where
  "map_permit e x = (case x of
     Ret q (Inr a) \<Rightarrow> Ret q (Inr (out_of_thin_air e a))
   | Ret q (Inl err) \<Rightarrow> Ret q (Inl err)
   | Unwind q \<Rightarrow> Unwind q
   | Abort \<Rightarrow> Abort
   | UB \<Rightarrow> UB)"

definition sem_try_acquire ::
  "('m, 'v, 's, 'p, 'a, 'o, 'w) generics \<Rightarrow> 'e \<Rightarrow> 'p \<Rightarrow> ('m, 's, 'o) queue_state
    \<Rightarrow> (('m, 's, 'o) queue_state, 'p try_acquire_error + ('a, 'e) permit) exec" where
  "sem_try_acquire G e p q = map_permit e (try_acquire G p True q)"

definition try_acquire_unfair ::
  "('m, 'v, 's, 'p, 'a, 'o, 'w) generics \<Rightarrow> 'e \<Rightarrow> 'p \<Rightarrow> ('m, 's, 'o) queue_state
    \<Rightarrow> (('m, 's, 'o) queue_state, 'p try_acquire_error + ('a, 'e) permit) exec" where
  "try_acquire_unfair G e p q = map_permit e (try_acquire G p False q)"

text \<open>The remaining methods only forward to the queue.\<close>

definition sem_with_state ::
  "('m, 'v, 's, 'p, 'a, 'o, 'w) generics \<Rightarrow> ('w, ('m, 's, 'o) queue_state) run_wake
    \<Rightarrow> ('s \<Rightarrow> ('s, 'r) call) \<Rightarrow> ('m, 's, 'o) queue_state
    \<Rightarrow> (('m, 's, 'o) queue_state \<times> 'w list, 'r) exec option" where
  "sem_with_state G run f q = with_state G run f q"

definition sem_is_closed ::
  "('m, 'v, 's, 'p, 'a, 'o, 'w) generics \<Rightarrow> ('m, 's, 'o) queue_state \<Rightarrow> bool" where
  "sem_is_closed G q = queue_is_closed G q"

definition sem_is_poisoned :: "('m, 's, 'o) queue_state \<Rightarrow> bool" where
  "sem_is_poisoned q = is_poisoned q"

definition sem_clear_poison :: "('m, 's, 'o) queue_state \<Rightarrow> ('m, 's, 'o) queue_state" where
  "sem_clear_poison q = clear_poison q"

definition sem_close ::
  "('m, 'v, 's, 'p, 'a, 'o, 'w) generics \<Rightarrow> ('w, ('m, 's, 'o) queue_state) run_wake
    \<Rightarrow> ('m, 's, 'o) queue_state
    \<Rightarrow> (('m, 's, 'o) queue_state \<times> 'w list, unit) exec option" where
  "sem_close G run q = close G run q"

section \<open>A user\<close>

text \<open>The counting semaphore of flag-bearer-tests/src/lib.rs: every permit is worth one.\<close>

definition counting_new ::
  "('m, 'v, 64 word, 64 word, 64 word, fair_order, 'w) generics \<Rightarrow> 64 word
    \<Rightarrow> ('m, 'v, 64 word, 64 word, 64 word, fair_order, 'w) generics \<times> ('m, 64 word, fair_order) queue_state"
  where
  "counting_new G count = builder_with_state G fifo count"

definition counting_acquire :: "64 word acquire_call" where
  "counting_acquire = sem_acquire 1"

definition counting_try_acquire ::
  "('m, 'v, 64 word, 64 word, 64 word, fair_order, 'w) generics \<Rightarrow> 'e \<Rightarrow> ('m, 64 word, fair_order) queue_state
    \<Rightarrow> (('m, 64 word, fair_order) queue_state, (64 word, 'e) permit option) exec" where
  "counting_try_acquire G e q = (case sem_try_acquire G e 1 q of
     Ret q' (Inr permit) \<Rightarrow> Ret q' (Some permit)
   | Ret q' (Inl _) \<Rightarrow> Ret q' None
   | Unwind q' \<Rightarrow> Unwind q'
   | Abort \<Rightarrow> Abort
   | UB \<Rightarrow> UB)"

section \<open>Futures after their last poll\<close>

context queue_deps
begin

text \<open>A poll that is ready or unwinds leaves its node initial: dropping the future then does nothing.\<close>

lemma poll_done_initial:
  assumes "queue_inv G V q"
    and "poll G cx fut q = Ret (q', fut') (Ready r) \<or> poll G cx fut q = Unwind (q', fut')"
  shows "fut_node fut \<notin> ids (links V (pins q')) \<and> removed V (pins q') (fut_node fut) = None"
  by (rule poll_result [OF assms(1), where cx = cx and fut = fut])
    (use assms in \<open>auto simp: same_list_def split: option.splits sum.splits if_splits\<close>)

text \<open>An uncloseable queue is never closed, so no poll returns an error.\<close>

lemma uncloseable_open: "queue_inv G V q \<Longrightarrow> mode G = Uncloseable \<Longrightarrow> \<not> closed q"
  by (auto simp: queue_inv_def)

lemma poll_error_closed:
  assumes "queue_inv G V q" and "poll G cx fut q = Ret (q', fut') (Ready (Inl err))"
  shows "closed q"
  by (rule poll_result [OF assms(1), where cx = cx and fut = fut])
    (use assms(2) in \<open>auto split: option.splits sum.splits\<close>)

end

end
