(* ===== verification/Tasks.thy ===== *)
theory Tasks
  imports Task_Queue Semaphore
begin

text \<open>
  Programs of tasks that share one semaphore, as the \<open>main\<close> functions of the examples are: a main task that
  spawns workers, waits and joins them, and workers that acquire a permit, use it and drop it. A task is the list of
  what it has still to do. Each step is one poll, one locked round, one waker, or one step of a task by itself;
  which task moves is not determined, as in a runtime with many threads. The executor polls a task that
  starts to wait, and after that only when its waker was invoked.
\<close>

section \<open>Tasks\<close>

text \<open>\<open>Compute\<close> is an \<open>await\<close> that does not involve the semaphore, such as \<open>sleep\<close>, with what it makes of
  the local variable of the task. The main task is number 0.\<close>

datatype ('s, 'p, 'x) op =
    Spawn nat
  | MustAcquire 'p
  | WithState "'x \<Rightarrow> 's \<Rightarrow> ('s, 'x) call"
  | Compute "'x \<Rightarrow> 'x"
  | DropPermit
  | Join nat

text \<open>\<open>pending_call\<close> is the future of a \<open>must_acquire\<close> that is awaited, \<open>guard\<close> the permit, and \<open>frame\<close> the
  rest of a \<open>with_state\<close> the task is in: the wakers to invoke, and whether to check again.\<close>

record ('s, 'p, 'a, 'x) task =
  code :: "('s, 'p, 'x) op list"
  local_var :: 'x
  pending_call :: "'p acquire_call option"
  guard :: "('a, unit) permit option"
  frame :: "(nat list \<times> resume) option"
  panicked :: bool

record ('m, 's, 'p, 'o, 'a, 'x) prog =
  pq :: "('m, 's, 'o) queue_state"
  tasks :: "nat \<Rightarrow> ('s, 'p, 'a, 'x) task option"
  woken :: "nat set"

definition new_task :: "('s, 'p, 'x) op list \<Rightarrow> 'x \<Rightarrow> ('s, 'p, 'a, 'x) task" where
  "new_task c x = \<lparr>code = c, local_var = x, pending_call = None, guard = None, frame = None, panicked = False\<rparr>"

text \<open>A closure whose result is not used.\<close>

definition keep_local :: "('s \<Rightarrow> ('s, 'r) call) \<Rightarrow> 'x \<Rightarrow> 's \<Rightarrow> ('s, 'x) call" where
  "keep_local f x s = (case f s of Returns s' _ \<Rightarrow> Returns s' x | Panics s' \<Rightarrow> Panics s')"

text \<open>The two operations that change the state under the lock, \<open>with_state\<close> and the drop of a permit: the closure,
  and the task after it with what the closure returned.\<close>

definition change :: "('s, 'p, 'a) semaphore_state \<Rightarrow> ('s, 'p, 'a, 'x) task
    \<Rightarrow> (('s \<Rightarrow> ('s, 'x) call) \<times> ('x \<Rightarrow> ('s, 'p, 'a, 'x) task)) option" where
  "change S t = (case code t of
     WithState f # c \<Rightarrow> Some (f (local_var t), \<lambda>x. t\<lparr>code := c, local_var := x\<rparr>)
   | DropPermit # c \<Rightarrow>
       (case guard t of
         Some g \<Rightarrow>
           (case dw_t g of
             Some a \<Rightarrow> Some (keep_local (\<lambda>s. release S s a) (local_var t), \<lambda>x. t\<lparr>code := c, guard := None\<rparr>)
           | None \<Rightarrow> None)
       | None \<Rightarrow> None)
   | _ \<Rightarrow> None)"

definition finished :: "('s, 'p, 'a, 'x) task \<Rightarrow> bool" where
  "finished t \<longleftrightarrow> code t = [] \<and> frame t = None"

text \<open>
  The steps. \<open>body i\<close> is the code of worker \<open>i\<close>, \<open>x0\<close> the local variable at its start. A task whose poll or round
  panics is marked and not followed further: what its unwinding drops is not modelled, and \<open>main_runs\<close> in
  \<open>Task_Ends\<close> shows that no task gets there.
\<close>

inductive task_step ::
  "('m, 'v, 's, 'p, 'a, 'o, nat) generics \<Rightarrow> (nat \<Rightarrow> ('s, 'p, 'x) op list) \<Rightarrow> 'x
    \<Rightarrow> ('m, 's, 'p, 'o, 'a, 'x) prog \<Rightarrow> ('m, 's, 'p, 'o, 'a, 'x) prog \<Rightarrow> bool"
  for G body x0 where
  spawn: "tasks P n = Some t \<Longrightarrow> frame t = None \<Longrightarrow> code t = Spawn i # c \<Longrightarrow> tasks P i = None \<Longrightarrow>
    task_step G body x0 P (P\<lparr>tasks := (tasks P)(n \<mapsto> t\<lparr>code := c\<rparr>, i \<mapsto> new_task (body i) x0)\<rparr>)"
| compute: "tasks P n = Some t \<Longrightarrow> frame t = None \<Longrightarrow> code t = Compute f # c \<Longrightarrow>
    task_step G body x0 P (P\<lparr>tasks := (tasks P)(n \<mapsto> t\<lparr>code := c, local_var := f (local_var t)\<rparr>)\<rparr>)"
| join: "tasks P n = Some t \<Longrightarrow> frame t = None \<Longrightarrow> code t = Join i # c \<Longrightarrow> tasks P i = Some u \<Longrightarrow> finished u \<Longrightarrow>
    task_step G body x0 P (P\<lparr>tasks := (tasks P)(n \<mapsto> if panicked u then t\<lparr>code := [], panicked := True\<rparr> else t\<lparr>code := c\<rparr>)\<rparr>)"
| call: "tasks P n = Some t \<Longrightarrow> frame t = None \<Longrightarrow> code t = MustAcquire p # c \<Longrightarrow> pending_call t = None \<Longrightarrow>
    task_step G body x0 P (P\<lparr>tasks := (tasks P)(n \<mapsto> t\<lparr>pending_call := Some (sem_acquire p)\<rparr>), woken := insert n (woken P)\<rparr>)"
| poll_waits: "tasks P n = Some t \<Longrightarrow> frame t = None \<Longrightarrow> code t = MustAcquire p # c \<Longrightarrow> pending_call t = Some cl \<Longrightarrow>
    n \<in> woken P \<Longrightarrow> must_acquire_poll G () n n cl (pq P) = Ret (q', cl') Pending \<Longrightarrow>
    task_step G body x0 P (P\<lparr>pq := q', tasks := (tasks P)(n \<mapsto> t\<lparr>pending_call := Some cl'\<rparr>), woken := woken P - {n}\<rparr>)"
| poll_gets: "tasks P n = Some t \<Longrightarrow> frame t = None \<Longrightarrow> code t = MustAcquire p # c \<Longrightarrow> pending_call t = Some cl \<Longrightarrow>
    n \<in> woken P \<Longrightarrow> must_acquire_poll G () n n cl (pq P) = Ret (q', cl') (Ready g) \<Longrightarrow>
    task_step G body x0 P (P\<lparr>pq := q', tasks := (tasks P)(n \<mapsto> t\<lparr>code := c, pending_call := None, guard := Some g\<rparr>),
      woken := woken P - {n}\<rparr>)"
| poll_panics: "tasks P n = Some t \<Longrightarrow> frame t = None \<Longrightarrow> code t = MustAcquire p # c \<Longrightarrow> pending_call t = Some cl \<Longrightarrow>
    n \<in> woken P \<Longrightarrow> must_acquire_poll G () n n cl (pq P) = Unwind (q', cl') \<Longrightarrow>
    task_step G body x0 P (P\<lparr>pq := q', tasks := (tasks P)(n \<mapsto> t\<lparr>code := [], pending_call := None, panicked := True\<rparr>),
      woken := woken P - {n}\<rparr>)"
| locks: "tasks P n = Some t \<Longrightarrow> frame t = None \<Longrightarrow> change (sem G) t = Some (f, t') \<Longrightarrow>
    first_round G (update_state f) (pq P) = Some (Ret y ()) \<Longrightarrow> round_end G Recheck (Ret y ()) = Some (q', fr) \<Longrightarrow>
    f (state (pq P)) = Returns s x \<Longrightarrow>
    task_step G body x0 P (P\<lparr>pq := q', tasks := (tasks P)(n \<mapsto> (t' x)\<lparr>frame := Some fr\<rparr>)\<rparr>)"
| lock_panics: "tasks P n = Some t \<Longrightarrow> frame t = None \<Longrightarrow> change (sem G) t = Some (f, t') \<Longrightarrow>
    first_round G (update_state f) (pq P) = Some (Unwind y) \<Longrightarrow> round_end G Recheck (Unwind y) = Some (q', fr) \<Longrightarrow>
    task_step G body x0 P (P\<lparr>pq := q', tasks := (tasks P)(n \<mapsto> t\<lparr>code := [], frame := Some fr, panicked := True\<rparr>)\<rparr>)"
| wakes: "tasks P n = Some t \<Longrightarrow> frame t = Some (w # ws, k) \<Longrightarrow>
    task_step G body x0 P (P\<lparr>tasks := (tasks P)(n \<mapsto> t\<lparr>frame := Some (ws, k)\<rparr>), woken := insert w (woken P)\<rparr>)"
| checks: "tasks P n = Some t \<Longrightarrow> frame t = Some ([], Recheck) \<Longrightarrow> check G (pq P) (av_new (av G)) = Some (Ret y ()) \<Longrightarrow>
    round_end G Recheck (Ret y ()) = Some (q', fr) \<Longrightarrow>
    task_step G body x0 P (P\<lparr>pq := q', tasks := (tasks P)(n \<mapsto> t\<lparr>frame := Some fr\<rparr>)\<rparr>)"
| check_panics: "tasks P n = Some t \<Longrightarrow> frame t = Some ([], Recheck) \<Longrightarrow> check G (pq P) (av_new (av G)) = Some (Unwind y) \<Longrightarrow>
    round_end G Recheck (Unwind y) = Some (q', fr) \<Longrightarrow>
    task_step G body x0 P (P\<lparr>pq := q', tasks := (tasks P)(n \<mapsto> t\<lparr>code := [], frame := Some fr, panicked := True\<rparr>)\<rparr>)"
| unlocks: "tasks P n = Some t \<Longrightarrow> frame t = Some ([], Stop) \<Longrightarrow>
    task_step G body x0 P (P\<lparr>tasks := (tasks P)(n \<mapsto> t\<lparr>frame := None\<rparr>)\<rparr>)"

text \<open>A program starts with its main task alone.\<close>

definition main_start :: "('m, 'v, 's, 'p, 'a, 'o, nat) generics \<Rightarrow> ('s, 'p, 'x) op list \<Rightarrow> 'x \<Rightarrow> 's \<Rightarrow> 'o
    \<Rightarrow> ('m, 's, 'p, 'o, 'a, 'x) prog" where
  "main_start G c x0 s ord = \<lparr>pq = new_queue G s ord, tasks = [0 \<mapsto> new_task c x0], woken = {}\<rparr>"

section \<open>Code that keeps to the rules\<close>

text \<open>A worker acquires only when it holds no permit, drops only the one it holds, holds none at its end, and neither
  spawns nor joins. The main task only spawns workers, each once, calls \<open>with_state\<close>, waits and joins what it spawned.\<close>

fun worker_ok :: "(('x \<Rightarrow> 's \<Rightarrow> ('s, 'x) call) \<Rightarrow> bool) \<Rightarrow> ('p \<Rightarrow> bool) \<Rightarrow> bool \<Rightarrow> ('s, 'p, 'x) op list \<Rightarrow> bool" where
  "worker_ok tunes fits h [] = (\<not> h)"
| "worker_ok tunes fits h (MustAcquire p # c) = (\<not> h \<and> fits p \<and> worker_ok tunes fits True c)"
| "worker_ok tunes fits h (WithState f # c) = (tunes f \<and> worker_ok tunes fits h c)"
| "worker_ok tunes fits h (Compute f # c) = worker_ok tunes fits h c"
| "worker_ok tunes fits h (DropPermit # c) = (h \<and> worker_ok tunes fits False c)"
| "worker_ok tunes fits h (Spawn i # c) = False"
| "worker_ok tunes fits h (Join i # c) = False"

fun main_ok :: "(('x \<Rightarrow> 's \<Rightarrow> ('s, 'x) call) \<Rightarrow> bool) \<Rightarrow> ('p \<Rightarrow> bool) \<Rightarrow> (nat \<Rightarrow> ('s, 'p, 'x) op list)
    \<Rightarrow> nat set \<Rightarrow> ('s, 'p, 'x) op list \<Rightarrow> bool" where
  "main_ok tunes fits body D [] = True"
| "main_ok tunes fits body D (Spawn i # c) =
     (i \<noteq> 0 \<and> i \<notin> D \<and> worker_ok tunes fits False (body i) \<and> main_ok tunes fits body (insert i D) c)"
| "main_ok tunes fits body D (WithState f # c) = (tunes f \<and> main_ok tunes fits body D c)"
| "main_ok tunes fits body D (Compute f # c) = main_ok tunes fits body D c"
| "main_ok tunes fits body D (Join i # c) = (i \<in> D \<and> main_ok tunes fits body D c)"
| "main_ok tunes fits body D (MustAcquire p # c) = False"
| "main_ok tunes fits body D (DropPermit # c) = False"

text \<open>A closure that returns and leaves the same permits out.\<close>

definition tunes :: "('s \<Rightarrow> 'a multiset \<Rightarrow> bool) \<Rightarrow> ('x \<Rightarrow> 's \<Rightarrow> ('s, 'x) call) \<Rightarrow> bool" where
  "tunes out f \<longleftrightarrow> (\<forall>x s M. out s M \<longrightarrow> (\<exists>s' x'. f x s = Returns s' x' \<and> out s' M))"

end
