(* ===== verification/Task_Runs.thy ===== *)
theory Task_Runs
  imports Tasks
begin

text \<open>
  The invariant of programs whose code keeps to the rules, and that every step of every task keeps it: the queue is
  in use with the permits that the tasks hold, no task panics, and no waiter is forgotten.
\<close>

section \<open>Invariant\<close>

definition guarded_permits :: "('s, 'p, 'a, 'x) task \<Rightarrow> 'a multiset" where
  "guarded_permits t = (case guard t of None \<Rightarrow> {#} | Some g \<Rightarrow> (case dw_t g of None \<Rightarrow> {#} | Some a \<Rightarrow> {#a#}))"

definition held_permits :: "('m, 's, 'p, 'o, 'a, 'x) prog \<Rightarrow> 'a multiset" where
  "held_permits P = sum_over guarded_permits (tasks P)"

definition to_wake :: "('s, 'p, 'a, 'x) task \<Rightarrow> nat set" where
  "to_wake t = (case frame t of None \<Rightarrow> {} | Some (ws, k) \<Rightarrow> set ws)"

definition will_check :: "('s, 'p, 'a, 'x) task \<Rightarrow> bool" where
  "will_check t \<longleftrightarrow> (\<exists>ws. frame t = Some (ws, Recheck))"

lemma task_simps [simp]:
  "frame t = None \<Longrightarrow> to_wake t = {}" "frame t = Some (ws, k) \<Longrightarrow> to_wake t = set ws"
  "frame t = None \<Longrightarrow> \<not> will_check t" "frame t = Some (ws, k) \<Longrightarrow> will_check t \<longleftrightarrow> k = Recheck"
  by (auto simp: to_wake_def will_check_def)

lemma code_simps [simp]: "to_wake (t\<lparr>code := c\<rparr>) = to_wake t" "will_check (t\<lparr>code := c\<rparr>) = will_check t"
  by (simp_all add: to_wake_def will_check_def)

text \<open>A task keeps to the rules in what it has still to do, and waits in the queue exactly while its call does.\<close>

definition task_ok :: "('m, 'p, 'a, nat) queue_view \<Rightarrow> ('s \<Rightarrow> 'a multiset \<Rightarrow> bool) \<Rightarrow> ('p \<Rightarrow> bool)
    \<Rightarrow> (nat \<Rightarrow> ('s, 'p, 'x) op list) \<Rightarrow> ('m, 's, 'p, 'o, 'a, 'x) prog \<Rightarrow> nat \<Rightarrow> ('s, 'p, 'a, 'x) task \<Rightarrow> bool" where
  "task_ok V out fits body P n t \<longleftrightarrow> \<not> panicked t \<and>
     (if n = 0 then guard t = None \<and> main_ok (tunes out) fits body (dom (tasks P) - {0}) (code t)
      else worker_ok (tunes out) fits (guard t \<noteq> None) (code t)) \<and>
     (\<forall>g. guard t = Some g \<longrightarrow> dw_t g \<noteq> None) \<and>
     (\<forall>ws k. frame t = Some (ws, k) \<longrightarrow> pending_call t = None \<and> k \<noteq> Reclose) \<and>
     (case pending_call t of
       None \<Rightarrow> \<not> waits_at V (pq P) n
     | Some cl \<Rightarrow> n \<noteq> 0 \<and> (\<exists>p c. code t = MustAcquire p # c \<and>
         (cl = Unresumed p \<and> \<not> waits_at V (pq P) n \<and> n \<in> woken P \<or>
          (\<exists>fut. cl = Awaiting fut \<and> fut_node fut = n \<and> waits_at V (pq P) n))))"

definition prog_inv :: "('m, 'v, 's, 'p, 'a, 'o, nat) generics \<Rightarrow> ('m, 'p, 'a, nat) queue_view
    \<Rightarrow> ('s \<Rightarrow> 'a multiset \<Rightarrow> bool) \<Rightarrow> ('p \<Rightarrow> bool) \<Rightarrow> (nat \<Rightarrow> ('s, 'p, 'x) op list)
    \<Rightarrow> ('m, 's, 'p, 'o, 'a, 'x) prog \<Rightarrow> bool" where
  "prog_inv G V out fits body P \<longleftrightarrow>
     in_use G V out fits (pq P) (held_permits P) \<and> finite (dom (tasks P)) \<and> finite (woken P) \<and> tasks P 0 \<noteq> None \<and>
     (head_stuck G V (pq P) \<or> (\<exists>n t. tasks P n = Some t \<and> will_check t)) \<and>
     (\<forall>n. waits_at V (pq P) n \<longrightarrow> tasks P n \<noteq> None) \<and>
     (\<forall>n. removed V (pins (pq P)) n \<noteq> None \<longrightarrow> n \<in> woken P \<or> (\<exists>m t. tasks P m = Some t \<and> n \<in> to_wake t)) \<and>
     (\<forall>n t. tasks P n = Some t \<longrightarrow> task_ok V out fits body P n t)"

text \<open>A step of one task: what it has to keep of the queue for the others.\<close>

lemma prog_inv_step:
  assumes "prog_inv G V out fits body P" and "tasks P n = Some t"
    and P': "P' = P\<lparr>pq := q', tasks := (tasks P)(n \<mapsto> t'), woken := W\<rparr>"
    and "in_use G V out fits q' (held_permits P')" and "finite W" and "task_ok V out fits body P' n t'"
    and stuck: "head_stuck G V (pq P) \<or> will_check t \<Longrightarrow> head_stuck G V q' \<or> will_check t'"
    and wait: "\<And>m. m \<noteq> n \<Longrightarrow> waits_at V q' m = waits_at V (pq P) m"
    and woken: "woken P - {n} \<subseteq> W" and wake: "to_wake t \<subseteq> to_wake t' \<union> W"
    and out: "\<And>m. removed V (pins q') m \<noteq> None \<Longrightarrow> m \<in> W \<union> to_wake t' \<or>
      removed V (pins (pq P)) m \<noteq> None \<and> (m = n \<longrightarrow> n \<in> woken P \<longrightarrow> n \<in> W)"
  shows "prog_inv G V out fits body P'"
  unfolding prog_inv_def
proof (intro conjI allI impI)
  note inv = assms(1) [unfolded prog_inv_def]
  show "in_use G V out fits (pq P') (held_permits P')" using assms(4) P' by simp
  show "finite (dom (tasks P'))" "finite (woken P')" "tasks P' 0 \<noteq> None" using inv assms(5) P' by auto
  show "head_stuck G V (pq P') \<or> (\<exists>m u. tasks P' m = Some u \<and> will_check u)"
  proof (cases "head_stuck G V (pq P) \<or> will_check t")
    case True
    with stuck P' show ?thesis by auto
  next
    case False
    with inv obtain m u where "tasks P m = Some u" "will_check u" by blast
    with False assms(2) P' show ?thesis by (intro disjI2 exI [of _ m] exI [of _ u]) auto
  qed
  show "tasks P' m \<noteq> None" if "waits_at V (pq P') m" for m
    using that inv wait [of m] P' by (cases "m = n") auto
  show "m \<in> woken P' \<or> (\<exists>j u. tasks P' j = Some u \<and> m \<in> to_wake u)" if r: "removed V (pins (pq P')) m \<noteq> None" for m
  proof -
    have "m \<in> W \<union> to_wake t' \<or> (\<exists>j u. tasks P j = Some u \<and> m \<in> to_wake u)"
      using out [of m] inv r P' woken by auto
    moreover have "m \<in> W \<union> to_wake t'" if "tasks P n = Some u" "m \<in> to_wake u" for u
      using that wake assms(2) by auto
    ultimately consider "m \<in> W \<union> to_wake t'" | j u where "tasks P j = Some u" "m \<in> to_wake u" "j \<noteq> n"
      by blast
    then show ?thesis
    proof cases
      case 2
      then show ?thesis using P' by (intro disjI2 exI [of _ j] exI [of _ u]) auto
    qed (use P' in auto)
  qed
  fix m u
  assume u: "tasks P' m = Some u"
  show "task_ok V out fits body P' m u"
  proof (cases "m = n")
    case False
    with u inv P' have "task_ok V out fits body P m u" by simp
    moreover have "dom (tasks P') = dom (tasks P)" using P' assms(2) by auto
    ultimately show ?thesis
      using False wait [OF False] woken P' by (auto simp: task_ok_def split: option.splits)
  qed (use u assms(6) P' in simp)
qed

text \<open>Steps that leave the queue alone.\<close>

lemma held_put:
  assumes "finite (dom (tasks P))" and "tasks P n = Some t" and "tasks P' = (tasks P)(n \<mapsto> t')"
  shows "held_permits P + guarded_permits t' = held_permits P' + guarded_permits t"
  using sum_over_put [OF assms(1), of guarded_permits n t'] sum_over_at [OF assms(1,2), of guarded_permits] assms(3)
  by (simp add: held_permits_def add_ac)

lemma held_same:
  assumes "finite (dom (tasks P))" and "tasks P n = Some t" and "tasks P' = (tasks P)(n \<mapsto> t')" and "guard t' = guard t"
  shows "held_permits P' = held_permits P"
  using held_put [OF assms(1-3)] assms(4) by (simp add: guarded_permits_def)

lemma prog_inv_own:
  assumes inv: "prog_inv G V out fits body P" and t: "tasks P n = Some t"
    and P': "P' = P\<lparr>tasks := (tasks P)(n \<mapsto> t'), woken := W\<rparr>"
    and "guard t' = guard t" and "woken P \<subseteq> W" and "finite W" and "to_wake t \<subseteq> to_wake t' \<union> W"
    and "will_check t \<Longrightarrow> will_check t'" and "task_ok V out fits body P' n t'"
  shows "prog_inv G V out fits body P'"
proof -
  have "held_permits P' = held_permits P"
    using inv P' assms(4) by (intro held_same [OF _ t, where t' = t']) (simp_all add: prog_inv_def)
  then show ?thesis
    using inv assms(5-9) P' by (intro prog_inv_step [OF inv t, where q' = "pq P" and W = W and t' = t']) (auto simp: prog_inv_def)
qed

context task_queue
begin

abbreviation pinv :: "(nat \<Rightarrow> ('s, 'p, 'x) op list) \<Rightarrow> ('m, 's, 'p, 'o, 'a, 'x) prog \<Rightarrow> bool" where
  "pinv \<equiv> prog_inv G V out fits"

lemma round_waits: "round_of q q' ws k \<Longrightarrow> waits_at V q' m = waits_at V q m"
  by (auto simp: round_of_def waits_at_def dom_def set_eq_iff)

text \<open>A task that starts or repeats a locked round.\<close>

lemma prog_inv_round:
  assumes inv: "pinv body P" and t: "tasks P n = Some t" and "to_wake t = {}"
    and P': "P' = P\<lparr>pq := q', tasks := (tasks P)(n \<mapsto> t'\<lparr>frame := Some (ws, k)\<rparr>)\<rparr>"
    and "used q' (held_permits P')" and round: "round_of (pq P) q' ws k"
    and "task_ok V out fits body P' n (t'\<lparr>frame := Some (ws, k)\<rparr>)"
  shows "pinv body P'"
proof (rule prog_inv_step [OF inv t, where q' = q' and W = "woken P" and t' = "t'\<lparr>frame := Some (ws, k)\<rparr>"])
  show "head_stuck G V q' \<or> will_check (t'\<lparr>frame := Some (ws, k)\<rparr>)"
    using round by (auto simp: round_of_def)
  show "waits_at V q' m = waits_at V (pq P) m" for m by (rule round_waits [OF round])
  show "m \<in> woken P \<union> to_wake (t'\<lparr>frame := Some (ws, k)\<rparr>) \<or>
      removed V (pins (pq P)) m \<noteq> None \<and> (m = n \<longrightarrow> n \<in> woken P \<longrightarrow> n \<in> woken P)"
    if "removed V (pins q') m \<noteq> None" for m
    using round that by (auto simp: round_of_def dom_def set_eq_iff)
qed (use assms in \<open>auto simp: prog_inv_def\<close>)

text \<open>The closures of the code return, and the permits that are out afterwards are those the tasks hold.\<close>

lemma change_returns:
  assumes inv: "pinv body P" and t: "tasks P n = Some t" and "frame t = None" and "change (sem G) t = Some (f, t')"
  obtains s x where "f (state (pq P)) = Returns s x"
    "\<And>q' fr. out s (held_permits (P\<lparr>pq := q', tasks := (tasks P)(n \<mapsto> (t' x)\<lparr>frame := fr\<rparr>)\<rparr>) + parked one (removed V (pins (pq P))))"
    "\<And>q' u ws k. waits_at V q' n = waits_at V (pq P) n \<Longrightarrow> k \<noteq> Reclose \<Longrightarrow>
      task_ok V out fits body (P\<lparr>pq := q', tasks := (tasks P)(n \<mapsto> u)\<rparr>) n ((t' x)\<lparr>frame := Some (ws, k)\<rparr>)"
proof -
  have fin: "finite (dom (tasks P))" and ok: "task_ok V out fits body P n t"
    and o: "out (state (pq P)) (held_permits P + parked one (removed V (pins (pq P))))"
    using inv t by (auto simp: prog_inv_def in_use_def)
  consider (with_state) g c where "code t = WithState g # c" "f = g (local_var t)" "t' = (\<lambda>x. t\<lparr>code := c, local_var := x\<rparr>)"
    | (drop) c gd a where "code t = DropPermit # c" "guard t = Some gd" "dw_t gd = Some a"
        "f = keep_local (\<lambda>s. release (sem G) s a) (local_var t)"
        "t' = (\<lambda>x. t\<lparr>code := c, guard := None\<rparr>)"
    using assms(4) by (auto simp: change_def split: list.splits op.splits option.splits)
  then show thesis
  proof cases
    case with_state
    with ok have "tunes out g" by (auto simp: task_ok_def split: if_splits)
    with o obtain s x where f: "f (state (pq P)) = Returns s x" "out s (held_permits P + parked one (removed V (pins (pq P))))"
      unfolding tunes_def with_state(2) by blast
    moreover have "held_permits (P\<lparr>pq := q', tasks := (tasks P)(n \<mapsto> (t' x)\<lparr>frame := fr\<rparr>)\<rparr>) = held_permits P" for q' fr
      using with_state(3) by (intro held_same [OF fin t, where t' = "(t' x)\<lparr>frame := fr\<rparr>"]) simp_all
    ultimately show thesis
      using ok t with_state(1,3) by (intro that [of s x]) (auto simp: task_ok_def split: option.splits if_splits)
  next
    case drop
    then have gp: "guarded_permits t = {#a#}" by (simp add: guarded_permits_def)
    from sum_over_at [OF fin t, of guarded_permits] gp have held_permits: "a \<in># held_permits P + parked one (removed V (pins (pq P)))"
      "held_permits P = add_mset a (sum_over guarded_permits ((tasks P)(n := None)))" by (simp_all add: held_permits_def)
    from TS.out_release [OF o held_permits(1)] obtain s where s: "release (sem G) (state (pq P)) a = Returns s ()"
      "out s (held_permits P + parked one (removed V (pins (pq P))) - {#a#})" by blast
    have "out s (held_permits (P\<lparr>pq := q', tasks := (tasks P)(n \<mapsto> (t' x)\<lparr>frame := fr\<rparr>)\<rparr>) + parked one (removed V (pins (pq P))))" for q' x fr
    proof -
      let ?Q = "P\<lparr>pq := q', tasks := (tasks P)(n \<mapsto> (t' x)\<lparr>frame := fr\<rparr>)\<rparr>"
      have "held_permits P = add_mset a (held_permits ?Q)"
        using held_put [OF fin t, of ?Q "(t' x)\<lparr>frame := fr\<rparr>"] drop(5) gp by (simp add: guarded_permits_def)
      with s(2) show ?thesis by simp
    qed
    moreover note s(1)
    ultimately show thesis
      using ok t drop by (intro that [of s "local_var t"]) (auto simp: keep_local_def task_ok_def split: option.splits if_splits)
  qed
qed

lemma held_frame: "finite (dom (tasks P)) \<Longrightarrow>
    held_permits (P\<lparr>pq := q', tasks := (tasks P)(n \<mapsto> u\<lparr>frame := fr\<rparr>)\<rparr>) = held_permits (P\<lparr>tasks := (tasks P)(n \<mapsto> u)\<rparr>)"
  by (simp add: held_permits_def sum_over_put guarded_permits_def)

text \<open>So its first round returns, and leaves the task in a frame.\<close>

lemma change_runs:
  assumes inv: "pinv body P" and t: "tasks P n = Some t" and "frame t = None" and "change (sem G) t = Some (f, t')"
  obtains s x q' v ws k where "f (state (pq P)) = Returns s x"
    "first_round G (update_state f) (pq P) = Some (Ret (q', v) ())" "round_end G Recheck (Ret (q', v) ()) = Some (q', ws, k)"
    "round_of (pq P) q' ws k"
    "pinv body (P\<lparr>pq := q', tasks := (tasks P)(n \<mapsto> (t' x)\<lparr>frame := Some (ws, k)\<rparr>)\<rparr>)"
proof (rule change_returns [OF assms])
  have used: "used (pq P) (held_permits P)" and fin: "finite (dom (tasks P))" using inv by (simp_all add: prog_inv_def)
  fix s x
  let ?P = "\<lambda>q' fr. P\<lparr>pq := q', tasks := (tasks P)(n \<mapsto> (t' x)\<lparr>frame := fr\<rparr>)\<rparr>"
  assume f: "f (state (pq P)) = Returns s x"
    and o: "\<And>q' fr. out s (held_permits (?P q' fr) + parked one (removed V (pins (pq P))))"
    and ok: "\<And>q' u ws k. waits_at V q' n = waits_at V (pq P) n \<Longrightarrow> k \<noteq> Reclose \<Longrightarrow>
      task_ok V out fits body (P\<lparr>pq := q', tasks := (tasks P)(n \<mapsto> u)\<rparr>) n ((t' x)\<lparr>frame := Some (ws, k)\<rparr>)"
  have "out s (held_permits (P\<lparr>tasks := (tasks P)(n \<mapsto> t' x)\<rparr>) + parked one (removed V (pins (pq P))))"
    using o unfolding held_frame [OF fin] by blast
  with used f show thesis
  proof (rule change_used)
    fix q' v ws k
    assume r: "first_round G (update_state f) (pq P) = Some (Ret (q', v) ())"
      "round_end G Recheck (Ret (q', v) ()) = Some (q', ws, k)"
      "used q' (held_permits (P\<lparr>tasks := (tasks P)(n \<mapsto> t' x)\<rparr>))" "round_of (pq P) q' ws k"
    have "pinv body (?P q' (Some (ws, k)))"
      by (rule prog_inv_round [OF inv t _ refl _ r(4)])
        (use assms(3) r(3,4) ok [OF round_waits [OF r(4)]] held_frame [OF fin] in \<open>auto simp: round_of_def\<close>)
    with that [OF f r(1,2,4)] show thesis by blast
  qed
qed

text \<open>A poll of a call that is due returns, with a permit or to wait on.\<close>

lemma must_poll_ready:
  "poll G cx (case cl of Unresumed p \<Rightarrow> queue_acquire n p | Awaiting fut \<Rightarrow> fut) q = Ret (q', fut') (Ready (Inr a)) \<Longrightarrow>
    cl \<noteq> Finished \<Longrightarrow> must_acquire_poll G e cx n cl q = Ret (q', Finished) (Ready (out_of_thin_air e a))"
  by (cases cl) (simp_all add: must_acquire_poll_def await_acquire_def)

lemma must_poll_pending:
  "poll G cx (case cl of Unresumed p \<Rightarrow> queue_acquire n p | Awaiting fut \<Rightarrow> fut) q = Ret (q', fut') Pending \<Longrightarrow>
    cl \<noteq> Finished \<Longrightarrow> must_acquire_poll G e cx n cl q = Ret (q', Awaiting fut') Pending"
  by (cases cl) (simp_all add: must_acquire_poll_def await_acquire_def)

lemma poll_returns:
  assumes inv: "pinv body P" and t: "tasks P n = Some t" and "code t = MustAcquire p # c" and "pending_call t = Some cl"
    and "n \<in> woken P"
  obtains (gets) q' a where "must_acquire_poll G () n n cl (pq P) = Ret (q', Finished) (Ready (out_of_thin_air () a))"
      "used q' (add_mset a (held_permits P))" "length (links V (pins q')) = length (links V (pins (pq P)))"
      "\<not> waits_at V q' n" "\<And>m. m \<noteq> n \<Longrightarrow> waits_at V q' m = waits_at V (pq P) m"
      "\<And>m. removed V (pins q') m \<noteq> None \<Longrightarrow> m \<noteq> n \<and> removed V (pins (pq P)) m \<noteq> None"
      "head_stuck G V (pq P) \<Longrightarrow> head_stuck G V q'"
  | (waits) q' fut where "must_acquire_poll G () n n cl (pq P) = Ret (q', Awaiting fut) Pending"
      "used q' (held_permits P)" "fut_node fut = n" "waits_at V q' n" "\<And>m. m \<noteq> n \<Longrightarrow> waits_at V q' m = waits_at V (pq P) m"
      "length (links V (pins q')) = length (links V (pins (pq P))) + (if cl = Unresumed p then 1 else 0)"
      "\<And>m. removed V (pins q') m \<noteq> None \<Longrightarrow> m \<noteq> n \<and> removed V (pins (pq P)) m \<noteq> None"
      "head_stuck G V (pq P) \<Longrightarrow> head_stuck G V q'"
proof -
  have used: "used (pq P) (held_permits P)" and ok: "task_ok V out fits body P n t"
    using inv t by (auto simp: prog_inv_def)
  then have q: "queue_inv G V (pq P)" by (simp add: in_use_def)
  consider (first) "cl = Unresumed p" "\<not> waits_at V (pq P) n" "fits p"
    | (again) fut where "cl = Awaiting fut" "fut_node fut = n" "waits_at V (pq P) n"
    using ok assms(3,4) by (auto simp: task_ok_def split: if_splits)
  then show thesis
  proof cases
    case first
    from used first(2,3) show thesis
    proof (cases rule: poll_first_used)
      case (granted q' fut a)
      have "must_acquire_poll G () n n cl (pq P) = Ret (q', Finished) (Ready (out_of_thin_air () a))"
        by (rule must_poll_ready) (simp_all add: first granted)
      then show thesis by (rule gets) (use granted first in \<open>auto simp: waits_at_def\<close>)
    next
      case (joined q' fut)
      have "must_acquire_poll G () n n cl (pq P) = Ret (q', Awaiting fut) Pending"
        by (rule must_poll_pending) (simp_all add: first joined)
      then show thesis
        by (rule waits) (use joined first linked_not_removed [of q' n] in \<open>auto simp: waits_at_def in_use_def\<close>)
    qed
  next
    case again
    from used again(3,2) show thesis
    proof (cases rule: poll_again_used)
      case (claimed q' a)
      have "must_acquire_poll G () n n cl (pq P) = Ret (q', Finished) (Ready (out_of_thin_air () a))"
        by (rule must_poll_ready) (simp_all add: again claimed)
      then show thesis by (rule gets) (use claimed again in \<open>auto simp: waits_at_def split: if_splits\<close>)
    next
      case (waits q')
      have "must_acquire_poll G () n n cl (pq P) = Ret (q', Awaiting fut) Pending"
        by (rule must_poll_pending) (simp_all add: again waits)
      then show thesis
        by (rule that(2)) (use waits again linked_not_removed [OF q waits(6)] in \<open>auto simp: waits_at_def\<close>)
    qed
  qed
qed

text \<open>Every step keeps the invariant.\<close>

lemma spawn_inv:
  assumes inv: "pinv body P" and t: "tasks P n = Some t" and "code t = Spawn i # c" and i: "tasks P i = None"
  shows "pinv body (P\<lparr>tasks := (tasks P)(n \<mapsto> t\<lparr>code := c\<rparr>, i \<mapsto> new_task (body i) x0)\<rparr>)"
proof -
  let ?P = "P\<lparr>tasks := (tasks P)(n \<mapsto> t\<lparr>code := c\<rparr>, i \<mapsto> new_task (body i) x0)\<rparr>"
  note I = inv [unfolded prog_inv_def]
  have fin: "finite (dom (tasks P))" and ok: "task_ok V out fits body P n t" using I t by auto
  then have n: "n = 0" "i \<noteq> 0" "worker_ok (tunes out) fits False (body i)"
      "main_ok (tunes out) fits body (insert i (dom (tasks P) - {0})) c" "pending_call t = None" "guard t = None"
    using assms(3) by (auto simp: task_ok_def split: if_splits option.splits)
  have at: "\<not> waits_at V (pq P) i" using I i by auto
  have "((tasks P)(n \<mapsto> t\<lparr>code := c\<rparr>))(i := None) = (tasks P)(n \<mapsto> t\<lparr>code := c\<rparr>)" using i n by auto
  then have "held_permits ?P = held_permits (P\<lparr>tasks := (tasks P)(n \<mapsto> t\<lparr>code := c\<rparr>)\<rparr>)"
    using sum_over_put [of "(tasks P)(n \<mapsto> t\<lparr>code := c\<rparr>)" guarded_permits i "new_task (body i) x0"] fin
    by (simp add: held_permits_def guarded_permits_def new_task_def)
  also have "\<dots> = held_permits P"
    by (rule held_same [OF fin t, where t' = "t\<lparr>code := c\<rparr>"]) simp_all
  finally have held_permits: "held_permits ?P = held_permits P" .
  have keeps: "\<exists>j u. tasks ?P j = Some u \<and> Q u"
    if "tasks P m = Some u" "Q u" "\<And>c. Q (t\<lparr>code := c\<rparr>) = Q t" for m u Q
  proof (cases "m = n")
    case True
    with that t i show ?thesis by (intro exI [of _ n] exI [of _ "t\<lparr>code := c\<rparr>"]) auto
  next
    case False
    with that i show ?thesis by (intro exI [of _ m] exI [of _ u]) auto
  qed
  have "head_stuck G V (pq ?P) \<or> (\<exists>m u. tasks ?P m = Some u \<and> will_check u)"
  proof (cases "head_stuck G V (pq P)")
    case False
    with I obtain m u where "tasks P m = Some u" "will_check u" by blast
    then show ?thesis by (intro disjI2, intro keeps [of m u will_check]) simp_all
  qed simp
  moreover have "m \<in> woken ?P \<or> (\<exists>j u. tasks ?P j = Some u \<and> m \<in> to_wake u)" if r: "removed V (pins (pq ?P)) m \<noteq> None" for m
  proof (cases "m \<in> woken P")
    case False
    moreover from r have "removed V (pins (pq P)) m \<noteq> None" by simp
    ultimately obtain j u where "tasks P j = Some u" "m \<in> to_wake u" using I by blast
    then show ?thesis by (intro disjI2, intro keeps [of j u "\<lambda>u. m \<in> to_wake u"]) simp_all
  qed simp
  moreover have "task_ok V out fits body ?P m u" if "tasks ?P m = Some u" for m u
  proof -
    consider "m = n" "u = t\<lparr>code := c\<rparr>" | "m = i" "u = new_task (body i) x0" | "m \<noteq> 0" "tasks P m = Some u"
      using \<open>tasks ?P m = Some u\<close> n(1) by (cases "m = i"; cases "m = n") simp_all
    then show ?thesis
    proof cases
      case 1
      have "dom (tasks ?P) - {0} = insert i (dom (tasks P) - {0})" using n by auto
      with 1 ok n show ?thesis by (auto simp: task_ok_def)
    next
      case 2
      with n at show ?thesis by (simp add: task_ok_def new_task_def)
    next
      case 3
      with I have "task_ok V out fits body P m u" by simp
      with 3 show ?thesis by (auto simp: task_ok_def split: option.splits)
    qed
  qed
  ultimately show ?thesis
    using I held_permits t unfolding prog_inv_def by auto
qed

lemma task_step_inv:
  assumes inv: "pinv body P" and "task_step G body x0 P P'"
  shows "pinv body P'"
proof -
  have I: "finite (dom (tasks P))" "finite (woken P)" and used: "used (pq P) (held_permits P)"
    and ok: "\<And>n t. tasks P n = Some t \<Longrightarrow> task_ok V out fits body P n t"
    using inv by (simp_all add: prog_inv_def)
  have here: "insert n (dom (tasks P)) = dom (tasks P)" if "tasks P n = Some t" for n t using that by auto
  from assms(2) show ?thesis
  proof cases
    case (spawn n t i c)
    with spawn_inv [OF inv] show ?thesis by simp
  next
    case (compute n t f c)
    with ok [OF compute(2)] here [OF compute(2)] I show ?thesis
      by (intro prog_inv_own [OF inv compute(2), where t' = "t\<lparr>code := c, local_var := f (local_var t)\<rparr>" and W = "woken P"])
        (auto simp: task_ok_def split: option.splits if_splits)
  next
    case (join n t i c u)
    with ok [OF join(2)] here [OF join(2)] ok [OF join(5)] I show ?thesis
      by (intro prog_inv_own [OF inv join(2), where t' = "t\<lparr>code := c\<rparr>" and W = "woken P"])
        (auto simp: task_ok_def split: option.splits if_splits)
  next
    case (call n t p c)
    with ok [OF call(2)] here [OF call(2)] I show ?thesis
      by (intro prog_inv_own [OF inv call(2), where t' = "t\<lparr>pending_call := Some (sem_acquire p)\<rparr>" and W = "insert n (woken P)"])
        (auto simp: task_ok_def sem_acquire_def split: option.splits if_splits)
  next
    case (wakes n t w ws k)
    with ok [OF wakes(2)] here [OF wakes(2)] I show ?thesis
      by (intro prog_inv_own [OF inv wakes(2), where t' = "t\<lparr>frame := Some (ws, k)\<rparr>" and W = "insert w (woken P)"])
        (auto simp: task_ok_def split: option.splits if_splits)
  next
    case (unlocks n t)
    with ok [OF unlocks(2)] here [OF unlocks(2)] I show ?thesis
      by (intro prog_inv_own [OF inv unlocks(2), where t' = "t\<lparr>frame := None\<rparr>" and W = "woken P"])
        (auto simp: task_ok_def split: option.splits if_splits)
  next
    case (poll_waits n t p c cl q' cl')
    from inv poll_waits(2,4,5,6) show ?thesis
    proof (cases rule: poll_returns)
      case (waits q'' fut)
      let ?t = "t\<lparr>pending_call := Some (Awaiting fut)\<rparr>"
      have P': "P' = P\<lparr>pq := q'', tasks := (tasks P)(n \<mapsto> ?t), woken := woken P - {n}\<rparr>" using poll_waits waits(1) by simp
      have "held_permits P' = held_permits P"
        using I P' by (intro held_same [OF _ poll_waits(2), where t' = ?t]) simp_all
      then show ?thesis
        using ok [OF poll_waits(2)] here [OF poll_waits(2)] I waits poll_waits P'
        by (intro prog_inv_step [OF inv poll_waits(2) P']) (auto simp: task_ok_def split: if_splits)
    qed (use poll_waits in simp)
  next
    case (poll_gets n t p c cl q' cl' g)
    from inv poll_gets(2,4,5,6) show ?thesis
    proof (cases rule: poll_returns)
      case (gets q'' a)
      let ?t = "t\<lparr>code := c, pending_call := None, guard := Some (out_of_thin_air () a)\<rparr>"
      have P': "P' = P\<lparr>pq := q'', tasks := (tasks P)(n \<mapsto> ?t), woken := woken P - {n}\<rparr>" using poll_gets gets(1) by simp
      have g: "guard t = None" "guarded_permits ?t = {#a#}" "guarded_permits t = {#}"
        using ok [OF poll_gets(2)] here [OF poll_gets(2)] poll_gets(4,5)
        by (auto simp: task_ok_def guarded_permits_def out_of_thin_air_def dw_new_def split: if_splits)
      then have "held_permits P' = add_mset a (held_permits P)"
        using I P' held_put [OF _ poll_gets(2), of P' ?t] by simp
      then show ?thesis
        using ok [OF poll_gets(2)] here [OF poll_gets(2)] I gets poll_gets P' g
        by (intro prog_inv_step [OF inv poll_gets(2) P'])
          (auto simp: task_ok_def out_of_thin_air_def dw_new_def split: if_splits)
    qed (use poll_gets in simp)
  next
    case (poll_panics n t p c cl q' cl')
    from inv poll_panics(2,4,5,6) show ?thesis
      by (cases rule: poll_returns) (use poll_panics in simp_all)
  next
    case (locks n t f t' y q' fr s x)
    show ?thesis by (rule change_runs [OF inv locks(2-4)]) (use locks in simp)
  next
    case (lock_panics n t f t' y q' fr)
    show ?thesis by (rule change_runs [OF inv lock_panics(2-4)]) (use lock_panics in simp)
  next
    case (checks n t y q' fr)
    show ?thesis
    proof (rule check_used [OF used])
      fix q'' v ws k
      assume r: "check G (pq P) (av_new (av G)) = Some (Ret (q'', v) ())"
        "round_end G Recheck (Ret (q'', v) ()) = Some (q'', ws, k)" "used q'' (held_permits P)" "round_of (pq P) q'' ws k"
      let ?t = "t\<lparr>frame := Some (ws, k)\<rparr>"
      have P': "P' = P\<lparr>pq := q'', tasks := (tasks P)(n \<mapsto> ?t)\<rparr>" using r checks by simp
      have "held_permits P' = held_permits P"
        using I P' by (intro held_same [OF _ checks(2), where t' = ?t]) simp_all
      then show ?thesis
        using ok [OF checks(2)] here [OF checks(2)] round_waits [OF r(4), of n] r checks(3) P'
        by (intro prog_inv_round [OF inv checks(2) _ P']) (auto simp: task_ok_def round_of_def split: option.splits)
    qed
  next
    case (check_panics n t y q' fr)
    show ?thesis by (rule check_used [OF used]) (use check_panics in simp)
  qed
qed

end

end
