(* ===== verification/Task_Ends.thy ===== *)
theory Task_Ends
  imports Task_Runs
begin

text \<open>
  Programs whose code keeps to the rules run to their end: in every interleaving no task panics, every run is
  finite, and where no step is left every task has done its work and every permit is back.
\<close>

section \<open>No run is endless\<close>

definition spawned :: "('s, 'p, 'x) op list \<Rightarrow> nat set" where
  "spawned c = {i. Spawn i \<in> set c}"

text \<open>The weight of a program: what its tasks have still to do, worker bodies not yet spawned included, the wakers
  to invoke, the tasks to poll and the waiters in the queue. Every step makes it smaller. Joining the line costs what
  the step from a first poll to a waiting call gives.\<close>

fun plain_weight :: "('s, 'p, 'x) op \<Rightarrow> nat" where
  "plain_weight (MustAcquire p) = 8"
| "plain_weight (WithState f) = 4"
| "plain_weight DropPermit = 4"
| "plain_weight op = 1"

definition body_weight :: "('s, 'p, 'x) op list \<Rightarrow> nat" where
  "body_weight c = sum_list (map plain_weight c)"

fun op_weight :: "(nat \<Rightarrow> ('s, 'p, 'x) op list) \<Rightarrow> ('s, 'p, 'x) op \<Rightarrow> nat" where
  "op_weight body (Spawn i) = 1 + body_weight (body i)"
| "op_weight body op = plain_weight op"

definition code_weight :: "(nat \<Rightarrow> ('s, 'p, 'x) op list) \<Rightarrow> ('s, 'p, 'x) op list \<Rightarrow> nat" where
  "code_weight body c = sum_list (map (op_weight body) c)"

fun call_progress :: "'p acquire_call option \<Rightarrow> nat" where
  "call_progress None = 0"
| "call_progress (Some (Unresumed p)) = 3"
| "call_progress (Some cl) = 6"

fun frame_weight :: "(nat list \<times> resume) option \<Rightarrow> nat" where
  "frame_weight None = 0"
| "frame_weight (Some (ws, k)) = 3 * length ws + (if k = Recheck then 2 else 1)"

definition task_weight :: "(nat \<Rightarrow> ('s, 'p, 'x) op list) \<Rightarrow> ('s, 'p, 'a, 'x) task \<Rightarrow> nat" where
  "task_weight body t = code_weight body (code t) - call_progress (pending_call t) + frame_weight (frame t)"

definition weight :: "('m, 'p, 'a, nat) queue_view \<Rightarrow> (nat \<Rightarrow> ('s, 'p, 'x) op list)
    \<Rightarrow> ('m, 's, 'p, 'o, 'a, 'x) prog \<Rightarrow> nat" where
  "weight V body P = 4 * length (links V (pins (pq P))) + 2 * card (woken P) + sum_over (task_weight body) (tasks P)"

lemma code_weight_simps [simp]:
  "code_weight body [] = 0" "code_weight body (op # c) = op_weight body op + code_weight body c"
  by (simp_all add: code_weight_def)

lemma worker_weight: "worker_ok tu fi h c \<Longrightarrow> code_weight body c = body_weight c"
  by (induction tu fi h c rule: worker_ok.induct) (simp_all add: body_weight_def)

lemma weight_step:
  assumes "finite (dom (tasks P))" and "tasks P n = Some t" and "tasks P' = (tasks P)(n \<mapsto> t')"
    and "4 * length (links V (pins (pq P'))) + 2 * card (woken P') + task_weight body t' <
      4 * length (links V (pins (pq P))) + 2 * card (woken P) + task_weight body t"
  shows "weight V body P' < weight V body P"
  using sum_over_put [OF assms(1), of "task_weight body" n t'] sum_over_at [OF assms(1,2), of "task_weight body"] assms(3,4)
  by (simp add: weight_def)

lemma card_insert_le2: "finite W \<Longrightarrow> card (insert n W) \<le> card W + 1"
  by (simp add: card_insert_if)

lemma change_weight:
  "change S t = Some (f, t') \<Longrightarrow> pending_call t = None \<Longrightarrow>
    task_weight body ((t' x)\<lparr>frame := fr\<rparr>) + 4 + frame_weight (frame t) = task_weight body t + frame_weight fr"
  by (auto simp: change_def task_weight_def split: list.splits op.splits option.splits)

context task_queue
begin

lemma round_weight: "round_of q q' ws k \<Longrightarrow> 4 * length (links V (pins q')) + frame_weight (Some (ws, k)) \<le>
    4 * length (links V (pins q)) + (if k = Recheck then 1 else 0) + 1 - (if ws = [] then 0 else 1)"
  by (cases ws) (auto simp: round_of_def)

lemma step_weight:
  assumes inv: "pinv body P" and "task_step G body x0 P P'"
  shows "weight V body P' < weight V body P"
proof -
  have fin: "finite (dom (tasks P))" "finite (woken P)" and used: "used (pq P) (held_permits P)"
    and ok: "\<And>n t. tasks P n = Some t \<Longrightarrow> task_ok V out fits body P n t"
    using inv by (simp_all add: prog_inv_def)
  note step = weight_step [OF fin(1)]
  from assms(2) show ?thesis
  proof cases
    case (spawn n t i c)
    from ok [OF spawn(2)] spawn(4) have w: "worker_ok (tunes out) fits False (body i)" and "pending_call t = None"
      by (auto simp: task_ok_def split: if_splits option.splits)
    let ?m = "(tasks P)(n \<mapsto> t\<lparr>code := c\<rparr>)"
    have "?m(i := None) = ?m" using spawn(2,5) by (intro fun_upd_idem) auto
    moreover have "sum_over (task_weight body) ?m + 1 + body_weight (body i) = sum_over (task_weight body) (tasks P)"
      using sum_over_put [OF fin(1), of "task_weight body" n "t\<lparr>code := c\<rparr>"] sum_over_at [OF fin(1) spawn(2), of "task_weight body"]
        spawn(4) \<open>pending_call t = None\<close> by (simp add: task_weight_def)
    ultimately show ?thesis
      using spawn(1) sum_over_put [of ?m "task_weight body" i "new_task (body i) x0"] fin worker_weight [OF w, of body]
      by (simp add: weight_def task_weight_def new_task_def)
  next
    case (compute n t f c)
    with ok [OF compute(2)] show ?thesis
      by (intro step [OF compute(2)]) (auto simp: task_weight_def task_ok_def split: option.splits)
  next
    case (join n t i c u)
    with ok [OF join(2)] show ?thesis
      by (intro step [OF join(2)]) (auto simp: task_weight_def task_ok_def split: option.splits)
  next
    case (call n t p c)
    with card_insert_le2 [OF fin(2), of n] show ?thesis
      by (intro step [OF call(2)]) (auto simp: task_weight_def sem_acquire_def)
  next
    case (wakes n t w ws k)
    with card_insert_le2 [OF fin(2), of w] show ?thesis
      by (intro step [OF wakes(2)]) (auto simp: task_weight_def)
  next
    case (unlocks n t)
    then show ?thesis by (intro step [OF unlocks(2)]) (auto simp: task_weight_def)
  next
    case (poll_waits n t p c cl q' cl')
    have card: "card (woken P) = card (woken P - {n}) + 1" using card_Suc_Diff1 [OF fin(2) poll_waits(6)] by simp
    from inv poll_waits(2,4,5,6) show ?thesis
    proof (cases rule: poll_returns)
      case (waits q'' fut)
      moreover have "cl = Unresumed p \<or> (\<exists>fut. cl = Awaiting fut)"
        using ok [OF poll_waits(2)] poll_waits(4,5) by (auto simp: task_ok_def split: if_splits)
      ultimately show ?thesis
        using poll_waits card by (intro step [OF poll_waits(2)]) (auto simp: task_weight_def)
    qed (use poll_waits in simp)
  next
    case (poll_gets n t p c cl q' cl' g)
    have card: "card (woken P) = card (woken P - {n}) + 1" using card_Suc_Diff1 [OF fin(2) poll_gets(6)] by simp
    have "call_progress (Some cl) \<le> 6" by (cases cl) simp_all
    from inv poll_gets(2,4,5,6) show ?thesis
    proof (cases rule: poll_returns)
      case (gets q'' a)
      then show ?thesis
        using poll_gets card \<open>call_progress (Some cl) \<le> 6\<close> by (intro step [OF poll_gets(2)]) (auto simp: task_weight_def)
    qed (use poll_gets in simp)
  next
    case (poll_panics n t p c cl q' cl')
    from inv poll_panics(2,4,5,6) show ?thesis
      by (cases rule: poll_returns) (use poll_panics in simp_all)
  next
    case (locks n t f t' y q' fr s x)
    have "pending_call t = None"
      using ok [OF locks(2)] locks(4) by (auto simp: task_ok_def change_def split: option.splits list.splits op.splits)
    show ?thesis
    proof (rule change_runs [OF inv locks(2-4)])
      fix st x' q'' v ws k
      assume r: "f (state (pq P)) = Returns st x'" "first_round G (update_state f) (pq P) = Some (Ret (q'', v) ())"
        "round_end G Recheck (Ret (q'', v) ()) = Some (q'', ws, k)" "round_of (pq P) q'' ws k"
      from change_weight [OF locks(4) \<open>pending_call t = None\<close>, where body = body and x = x' and fr = "Some (ws, k)"] round_weight [OF r(4)] show ?thesis
        using locks r by (intro step [OF locks(2)]) (auto split: if_splits)
    qed
  next
    case (lock_panics n t f t' y q' fr)
    show ?thesis by (rule change_runs [OF inv lock_panics(2-4)]) (use lock_panics in simp)
  next
    case (checks n t y q' fr)
    show ?thesis
    proof (rule check_used [OF used])
      fix q'' v ws k
      assume "check G (pq P) (av_new (av G)) = Some (Ret (q'', v) ())"
        "round_end G Recheck (Ret (q'', v) ()) = Some (q'', ws, k)" "round_of (pq P) q'' ws k"
      with round_weight [of "pq P" q'' ws k] show ?thesis
        using checks by (intro step [OF checks(2)]) (auto simp: task_weight_def round_of_def split: if_splits)
    qed
  next
    case (check_panics n t y q' fr)
    show ?thesis by (rule check_used [OF used]) (use check_panics in simp)
  qed
qed

section \<open>No deadlock\<close>

text \<open>A task inside a locked operation can always go on, and outside it waits only for its permit or for another
  task.\<close>

lemma frame_moves:
  assumes inv: "pinv body P" and t: "tasks P n = Some t" and fr: "frame t = Some (ws, k)"
  shows "\<exists>P'. task_step G body x0 P P'"
proof (cases ws)
  case (Cons w ws')
  with task_step.wakes [OF t] fr show ?thesis by blast
next
  case Nil
  have "k \<noteq> Reclose" using inv t fr by (auto simp: prog_inv_def task_ok_def)
  then consider "k = Stop" | "k = Recheck" by (cases k) simp_all
  then show ?thesis
  proof cases
    case 1
    with task_step.unlocks [OF t] fr Nil show ?thesis by blast
  next
    case 2
    have used: "used (pq P) (held_permits P)" using inv by (simp add: prog_inv_def)
    show ?thesis
      by (rule check_used [OF used]) (use task_step.checks [OF t] fr Nil 2 in blast)
  qed
qed

lemma change_moves:
  assumes inv: "pinv body P" and t: "tasks P n = Some t" and "frame t = None" and c: "change (sem G) t = Some (f, t')"
  shows "\<exists>P'. task_step G body x0 P P'"
  by (rule change_runs [OF assms]) (use task_step.locks [OF t assms(3) c] in blast)

lemma poll_moves:
  assumes "pinv body P" and t: "tasks P n = Some t" and "frame t = None" and "code t = MustAcquire p # c"
    and "pending_call t = Some cl" and "n \<in> woken P"
  shows "\<exists>P'. task_step G body x0 P P'"
  by (rule poll_returns [OF assms(1,2,4-6)])
    (use task_step.poll_gets [OF assms(2-6)] task_step.poll_waits [OF assms(2-6)] in blast)+

lemma still_waits:
  assumes inv: "pinv body P" and t: "tasks P n = Some t" and "\<not> finished t"
    and none: "\<And>P'. \<not> task_step G body x0 P P'"
  shows "n \<noteq> 0 \<and> guard t = None \<and> waits_at V (pq P) n \<and> n \<notin> woken P \<or>
    (n = 0 \<and> (\<exists>i u. i \<noteq> 0 \<and> tasks P i = Some u \<and> \<not> finished u))"
proof -
  have ok: "task_ok V out fits body P n t" using inv t by (simp add: prog_inv_def)
  have fr: "frame t = None" using frame_moves [OF inv t] none by (cases "frame t") auto
  have computes: "code t \<noteq> Compute f # c" for f c
    using none task_step.compute [OF t fr] by blast
  have locks: "change (sem G) t = None"
    using none change_moves [OF inv t fr] by (metis not_None_eq surj_pair)
  have spawns: "tasks P i \<noteq> None" if "code t = Spawn i # c" for i c
    using none task_step.spawn [OF t fr that] by blast
  have calls: "pending_call t \<noteq> None" if "code t = MustAcquire p # c" for p c
    using none task_step.call [OF t fr that] by blast
  have polls: "n \<notin> woken P" if "code t = MustAcquire p # c" "pending_call t = Some cl" for p c cl
    using none poll_moves [OF inv t fr that] by blast
  have joins: "\<not> finished u" if "code t = Join i # c" "tasks P i = Some u" for i c u
    using none task_step.join [OF t fr that] by blast
  from assms(3) fr obtain op c where c: "code t = op # c" by (cases "code t") (simp_all add: finished_def)
  show ?thesis
  proof (cases op)
    case (Spawn i)
    with c ok spawns show ?thesis by (auto simp: task_ok_def split: if_splits)
  next
    case (MustAcquire p)
    with c ok calls polls show ?thesis by (auto simp: task_ok_def split: if_splits)
  next
    case (WithState f)
    with c locks show ?thesis by (simp add: change_def)
  next
    case (Compute f)
    with c computes show ?thesis by simp
  next
    case DropPermit
    with c ok locks show ?thesis by (auto simp: change_def task_ok_def split: if_splits)
  next
    case (Join i)
    with c ok joins show ?thesis by (auto simp: task_ok_def split: if_splits)
  qed
qed

text \<open>So where no step is left everything is done: a waiter would be refused although every permit is back.\<close>

lemma end_reached:
  assumes inv: "pinv body P" and none: "\<And>P'. \<not> task_step G body x0 P P'"
  shows "(\<forall>n t. tasks P n = Some t \<longrightarrow> finished t \<and> \<not> panicked t \<and> guard t = None) \<and> held_permits P = {#} \<and>
    links V (pins (pq P)) = [] \<and> removed V (pins (pq P)) = Map.empty"
proof -
  have used: "used (pq P) (held_permits P)" and ok: "\<And>n t. tasks P n = Some t \<Longrightarrow> task_ok V out fits body P n t"
    and fin: "finite (dom (tasks P))" using inv by (simp_all add: prog_inv_def)
  have fr: "frame t = None" if "tasks P n = Some t" for n t
    using frame_moves [OF inv that] none by (cases "frame t") auto
  have waits: "guard t = None \<and> (finished t \<or> n = 0 \<or> n \<notin> woken P)" if "tasks P n = Some t" for n t
  proof (cases "finished t")
    case True
    with ok [OF that] show ?thesis by (auto simp: task_ok_def finished_def split: if_splits)
  next
    case False
    with still_waits [OF inv that False none] ok [OF that] show ?thesis by (auto simp: task_ok_def split: if_splits)
  qed
  have none_held: "guarded_permits t = {#}" if "tasks P n = Some t" for n t
    using waits [OF that] by (simp add: guarded_permits_def)
  have "held_permits P = {#}"
    unfolding held_permits_def sum_over_def by (rule sum.neutral) (auto simp: dom_def none_held)
  moreover have rm: "removed V (pins (pq P)) = Map.empty"
  proof (rule ccontr)
    assume "removed V (pins (pq P)) \<noteq> Map.empty"
    then obtain n where n: "removed V (pins (pq P)) n \<noteq> None" by (metis ext)
    with inv have "n \<in> woken P \<or> (\<exists>m t. tasks P m = Some t \<and> n \<in> to_wake t)" "tasks P n \<noteq> None" "waits_at V (pq P) n"
      by (auto simp: prog_inv_def waits_at_def)
    with fr obtain t where t: "tasks P n = Some t" "n \<in> woken P" by fastforce
    with ok [OF t(1)] \<open>waits_at V (pq P) n\<close> waits [OF t(1)] show False
      by (auto simp: task_ok_def finished_def split: option.splits)
  qed
  moreover have l: "links V (pins (pq P)) = []"
  proof (cases "links V (pins (pq P))")
    case (Cons y ys)
    obtain n prm w where y: "y = (n, prm, w)" by (cases y)
    with Cons used_waker [OF used, of n prm w] obtain p where p: "prm = Some p" "fits p" by auto
    have "out (state (pq P)) {#}" using used \<open>held_permits P = {#}\<close> rm by (simp add: in_use_def)
    with TS.out_fits p(2) have "\<not> head_stuck G V (pq P)" using Cons y p(1) by fastforce
    with inv fr show ?thesis by (fastforce simp: prog_inv_def)
  qed simp
  moreover have "finished t \<and> \<not> panicked t" if t: "tasks P n = Some t" for n t
  proof -
    have idle: "\<not> waits_at V (pq P) m" for m using l rm by (simp add: waits_at_def)
    have "finished u" if "m \<noteq> 0" "tasks P m = Some u" for m u
      using still_waits [OF inv that(2) _ none] that(1) idle by blast
    moreover have "finished t" if "n = 0"
      using still_waits [OF inv t _ none] that calculation by blast
    ultimately show ?thesis using t ok [OF t] by (cases "n = 0") (auto simp: task_ok_def)
  qed
  ultimately show ?thesis using waits by blast
qed

text \<open>Nothing of what the main task spawns is lost.\<close>

lemma step_spawns:
  assumes inv: "pinv body P" and "task_step G body x0 P P'" and main: "tasks P 0 = Some t"
  shows "\<exists>t'. tasks P' 0 = Some t' \<and> spawned (code t') \<union> dom (tasks P') = spawned (code t) \<union> dom (tasks P)"
proof -
  have ok: "\<And>n t. tasks P n = Some t \<Longrightarrow> task_ok V out fits body P n t" using inv by (simp add: prog_inv_def)
  have one: ?thesis if "tasks P n = Some u" "tasks P' = (tasks P)(n \<mapsto> u')" "spawned (code u') = spawned (code u)" for n u u'
    using that main by (cases "n = 0") (auto simp: insert_absorb)
  from assms(2) show ?thesis
  proof cases
    case (spawn n u i c)
    with ok [OF spawn(2)] have "n = 0" "i \<noteq> 0" by (auto simp: task_ok_def split: if_splits)
    with spawn main show ?thesis by (auto simp: spawned_def)
  next
    case (join n u i c v)
    with ok [OF join(5)] one [OF join(2), of "u\<lparr>code := c\<rparr>"] show ?thesis by (auto simp: task_ok_def spawned_def)
  next
    case (locks n u f t' y q' fr s x)
    have "spawned (code (t' x)) = spawned (code u)"
      using locks(4) by (auto simp: change_def spawned_def split: list.splits op.splits option.splits)
    with one [OF locks(2), of "(t' x)\<lparr>frame := Some fr\<rparr>"] locks(1) show ?thesis by simp
  next
    case (lock_panics n u f t' y q' fr)
    show ?thesis by (rule change_runs [OF inv lock_panics(2-4)]) (use lock_panics in simp)
  next
    case (check_panics n u y q' fr)
    have used: "used (pq P) (held_permits P)" using inv by (simp add: prog_inv_def)
    show ?thesis by (rule check_used [OF used]) (use check_panics in simp)
  next
    case (poll_panics n u p c cl q' cl')
    from inv poll_panics(2,4,5,6) show ?thesis
      by (cases rule: poll_returns) (use poll_panics in simp_all)
  next
    case (compute n u f c)
    with one [OF compute(2), of "u\<lparr>code := c, local_var := f (local_var u)\<rparr>"] show ?thesis by (simp add: spawned_def)
  next
    case (call n u p c)
    with one [OF call(2), of "u\<lparr>pending_call := Some (sem_acquire p)\<rparr>"] show ?thesis by simp
  next
    case (poll_waits n u p c cl q' cl')
    with one [OF poll_waits(2), of "u\<lparr>pending_call := Some cl'\<rparr>"] show ?thesis by simp
  next
    case (poll_gets n u p c cl q' cl' g)
    with one [OF poll_gets(2), of "u\<lparr>code := c, pending_call := None, guard := Some g\<rparr>"] show ?thesis
      by (simp add: spawned_def)
  next
    case (wakes n u w ws k)
    with one [OF wakes(2), of "u\<lparr>frame := Some (ws, k)\<rparr>"] show ?thesis by simp
  next
    case (checks n u y q' fr)
    with one [OF checks(2), of "u\<lparr>frame := Some fr\<rparr>"] show ?thesis by simp
  next
    case (unlocks n u)
    with one [OF unlocks(2), of "u\<lparr>frame := None\<rparr>"] show ?thesis by simp
  qed
qed

lemma main_start_inv:
  assumes "out s {#}" and "main_ok (tunes out) fits body {} c"
  shows "pinv body (main_start G c x0 s ord)"
  using used_new [OF assms(1), of ord] assms(2)
  by (simp add: prog_inv_def main_start_def held_permits_def sum_over_def guarded_permits_def new_task_def task_ok_def waits_at_def)

lemma run_inv:
  assumes "out s {#}" and "main_ok (tunes out) fits body {} c"
  shows "(task_step G body x0 ^^ k) (main_start G c x0 s ord) P \<Longrightarrow> pinv body P \<and>
    weight V body P + k \<le> code_weight body c \<and>
    (\<exists>t. tasks P 0 = Some t \<and> spawned (code t) \<union> dom (tasks P) = insert 0 (spawned c))"
proof (induction k arbitrary: P)
  case 0
  then have P: "P = main_start G c x0 s ord" by simp
  show ?case
    unfolding P using main_start_inv [OF assms, of x0 ord] used_new [OF assms(1), of ord]
    by (auto simp: main_start_def weight_def sum_over_def task_weight_def new_task_def split: if_splits)
next
  case (Suc k)
  then obtain Q where Q: "(task_step G body x0 ^^ k) (main_start G c x0 s ord) Q" "task_step G body x0 Q P" by auto
  from Suc.IH [OF Q(1)] task_step_inv [OF _ Q(2)] step_weight [OF _ Q(2)] step_spawns [OF _ Q(2)]
  show ?case by fastforce
qed

end

text \<open>The whole of it: a program that keeps to the rules never panics, cannot run for ever, and ends only with all its
  tasks done and all its permits back.\<close>

lemma main_runs:
  assumes "task_queue G V elems out fits" and "out s {#}" and "main_ok (tunes out) fits body {} c"
    and "(task_step G body x0 ^^ k) (main_start G c x0 s ord) P"
  shows "k \<le> code_weight body c \<and> (\<forall>n t. tasks P n = Some t \<longrightarrow> \<not> panicked t) \<and> \<not> poisoned (pq P) \<and>
    ((\<forall>P'. \<not> task_step G body x0 P P') \<longrightarrow>
      dom (tasks P) = insert 0 (spawned c) \<and> (\<forall>n t. tasks P n = Some t \<longrightarrow> finished t) \<and>
      out (state (pq P)) {#} \<and> links V (pins (pq P)) = [])"
proof -
  from task_queue.run_inv [OF assms] have inv: "prog_inv G V out fits body P" and k: "k \<le> code_weight body c"
    and sp: "\<exists>t. tasks P 0 = Some t \<and> spawned (code t) \<union> dom (tasks P) = insert 0 (spawned c)" by auto
  have safe: "\<not> panicked t" if "tasks P n = Some t" for n t
    using inv that by (auto simp: prog_inv_def task_ok_def)
  have "dom (tasks P) = insert 0 (spawned c) \<and> (\<forall>n t. tasks P n = Some t \<longrightarrow> finished t) \<and>
      out (state (pq P)) {#} \<and> links V (pins (pq P)) = []" if "\<forall>P'. \<not> task_step G body x0 P P'"
  proof -
    from task_queue.end_reached [OF assms(1) inv, of x0] that have
      e: "\<And>n t. tasks P n = Some t \<Longrightarrow> finished t" "held_permits P = {#}" "links V (pins (pq P)) = []"
        "removed V (pins (pq P)) = Map.empty" by auto
    from sp obtain t where t: "tasks P 0 = Some t" "spawned (code t) \<union> dom (tasks P) = insert 0 (spawned c)" by blast
    with e(1) [OF t(1)] have "dom (tasks P) = insert 0 (spawned c)" by (simp add: finished_def spawned_def)
    moreover have "out (state (pq P)) {#}" using inv e(2,4) by (simp add: prog_inv_def in_use_def)
    ultimately show ?thesis using e by blast
  qed
  with k safe inv show ?thesis by (auto simp: prog_inv_def in_use_def)
qed

end
