(* ===== verification/Closing.thy ===== *)
theory Closing
  imports Queue_System
begin

text \<open>
  Closing a queue: what one whole \<open>close\<close> does when the wakers leave the queue alone, and that a
  closed queue stays closed and gains no waiter, whatever its users do.
\<close>

section \<open>A whole close\<close>

lemma revoke_append: "revoke rm (xs @ ys) = revoke (revoke rm xs) ys"
  by (induction xs arbitrary: rm) auto

lemma revoke_other: "n \<notin> ids xs \<Longrightarrow> revoke rm xs n = rm n"
  by (induction rm xs rule: revoke.induct) auto

lemma revoke_at: "distinct (map fst xs) \<Longrightarrow> (n, prm, w) \<in> set xs \<Longrightarrow> revoke rm xs n = Some (Inl prm)"
  by (induction rm xs rule: revoke.induct) (auto simp: revoke_other)

text \<open>The wakers of a list of waiters.\<close>

definition wakers :: "(nid \<times> ('p, 'w) waiting) list \<Rightarrow> 'w list" where
  "wakers xs = map (snd \<circ> snd) xs"

lemma wakers_take_drop: "wakers (take k xs) @ wakers (drop k xs) = wakers xs"
  by (simp add: wakers_def flip: map_append)

context queue_deps
begin

text \<open>With wakers that leave the queue alone.\<close>

lemma close_loop_inert:
  assumes "inert run" and "CLOSE (mode G)"
  shows "queue_inv G V q \<Longrightarrow> elems wakes = [] \<Longrightarrow>
    \<exists>q'. close_loop G run q wakes log = Some (Ret (q', log @ wakers (links V (pins q))) ()) \<and>
      queue_inv G V q' \<and> closed q' \<and> queue q' = Discarded \<and> state q' = state q \<and>
      poisoned q' = poisoned q \<and> order q' = order q \<and> links V (pins q') = [] \<and>
      removed V (pins q') = revoke (removed V (pins q)) (links V (pins q))"
proof (induction "length (links V (pins q))" arbitrary: q wakes log rule: less_induct)
  case less
  let ?l = "links V (pins q)"
  from close_fill_result [OF less.prems(1) assms(2) less.prems(2)] obtain q1 v1 where
    c: "close_fill G q wakes = Some (Ret (q1, v1) ())"
    and q1: "queue_inv G V q1" "closed q1" "state q1 = state q" "poisoned q1 = poisoned q"
      "order q1 = order q" "links V (pins q1) = drop batch_cap ?l"
      "removed V (pins q1) = revoke (removed V (pins q)) (take batch_cap ?l)"
      "elems v1 = wakers (take batch_cap ?l)"
      "queue q1 = Open \<longleftrightarrow> batch_cap < length ?l" by (auto simp: wakers_def)
  have step: "close_loop G run q wakes log =
    (if queue q1 \<noteq> Open then Some (Ret (q1, log @ wakers (take batch_cap ?l)) ())
     else close_loop G run q1 (snd (av_drain (av G) v1)) (log @ wakers (take batch_cap ?l)))"
    using c q1(8) by (subst close_loop.simps)
      (simp add: AV.batch_wake_all_inert [OF assms(1)] AV.batch_drop_empty AV.av_drain(2))
  show ?case
  proof (cases "queue q1 = Open")
    case True
    with q1 have "length (links V (pins q1)) < length ?l" by (simp add: batch_cap_def)
    from less.hyps [OF this q1(1) AV.av_drain(2), of v1 "log @ wakers (take batch_cap ?l)"]
    show ?thesis
      using step True q1 by (simp add: wakers_take_drop flip: revoke_append)
  next
    case False
    with q1 have "length ?l \<le> batch_cap" "queue q1 = Discarded"
      by (simp_all, metis list_slot.exhaust)
    with step False q1 show ?thesis by simp
  qed
qed

lemma close_inert:
  assumes "inert run" and "CLOSE (mode G)" and "queue_inv G V q"
  obtains q' where "close G run q = Some (Ret (q', wakers (links V (pins q))) ())" "queue_inv G V q'"
    "closed q'" "queue q' = Discarded" "state q' = state q" "poisoned q' = poisoned q" "links V (pins q') = []"
    "removed V (pins q') = revoke (removed V (pins q)) (links V (pins q))"
  using close_loop_inert [OF assms AV.av_new, of "[]"] unfolding close_def by auto

end

section \<open>Closed for good\<close>

text \<open>Each section leaves a closed queue closed, with no more waiters than before.\<close>

definition stays_closed :: "('m, 's, 'o) queue_state \<Rightarrow> ('m, 's, 'o) queue_state \<Rightarrow> bool" where
  "stays_closed q q' \<longleftrightarrow> (closed q \<longrightarrow> closed q' \<and> len q' \<le> len q)"

lemma same_list_closed: "same_list q q' \<Longrightarrow> stays_closed q q'"
  by (simp add: same_list_def stays_closed_def)

context queue_deps
begin

lemma poll_stays_closed:
  assumes "queue_inv G V q"
  shows "exec_all (\<lambda>(q', _). stays_closed q q') (poll G cx fut q)"
  by (rule poll_result [OF assms, where cx = cx and fut = fut])
    (auto simp: stays_closed_def split: option.splits sum.splits)

lemma drop_stays_closed:
  assumes "queue_inv G V q" and "pl_initialized (pl G) (pins q) n"
  shows "exec_all (stays_closed q) (drop_node G n q)"
  by (rule drop_result [OF assms]) (simp_all add: stays_closed_def split: sum.splits call.splits)

lemma check_stays_closed:
  assumes "queue_inv G V q" and "check G q wakes = Some x" and "closed q"
  shows "x = Ret (q, wakes) ()"
  using check_idle [OF assms(1), of wakes] assms(2,3) by simp

lemma close_stays_closed:
  assumes "queue_inv G V q" and "CLOSE (mode G)" and "close_fill G q (av_new (av G)) = Some x"
    and "round_end G k x = Some (q', frame)"
  shows "stays_closed q q'"
proof -
  obtain ws k' where frame: "frame = (ws, k')" by (cases frame)
  from close_round [OF assms(1-3) assms(4) [unfolded frame]] assms(1) show ?thesis
    by (simp add: stays_closed_def queue_inv_def)
qed

lemma try_stays_closed:
  "queue_inv G V q \<Longrightarrow> try_acquire G p fair q = Ret q' r \<or> try_acquire G p fair q = Unwind q' \<Longrightarrow> stays_closed q q'"
  by (intro same_list_closed) (rule try_done [THEN conjunct2])

lemma update_stays_closed:
  "queue_inv G V q \<Longrightarrow> update_state f q = Ret q' r \<or> update_state f q = Unwind q' \<Longrightarrow> stays_closed q q'"
  by (intro same_list_closed) (rule update_state_done [THEN conjunct2])

lemma stays_closed_same: "stays_closed q q" "stays_closed q (clear_poison q)"
  by (simp_all add: stays_closed_def clear_poison_def)

end

sublocale queue_deps \<subseteq> shutting: queue_sections G V elems "\<lambda>_. stays_closed"
proof unfold_locales
  fix q1 q q' :: "('m, 's, 'o) queue_state" and x k and frame :: "'w list \<times> resume"
  assume "queue_inv G V q1" "stays_closed q q1" "check G q1 (av_new (av G)) = Some x" "round_end G k x = Some (q', frame)"
  then show "stays_closed q q'"
    using check_stays_closed [of q1 "av_new (av G)" x] by (auto simp: stays_closed_def)
next
  show "stays_closed q q'" if "queue_inv G V q" "poll G cx fut q = Ret (q', fut') r" for q q' cx fut fut' r
    using poll_stays_closed [OF that(1), of cx fut] that(2) by simp
  show "stays_closed q q'" if "queue_inv G V q" "poll G cx fut q = Unwind (q', fut')" for q q' cx fut fut'
    using poll_stays_closed [OF that(1), of cx fut] that(2) by simp
  show "stays_closed q q'" if "queue_inv G V q" "pl_initialized (pl G) (pins q) n"
    "drop_node G n q = Ret q' d \<or> drop_node G n q = Unwind q'" for q q' n d
    using drop_stays_closed [OF that(1,2)] that(3) by auto
qed (auto intro: stays_closed_same try_stays_closed update_stays_closed close_stays_closed)

context queue_deps
begin

lemma step_stays_closed: "sys_inv G V s \<Longrightarrow> sys_step G s t \<Longrightarrow> stays_closed (sq s) (sq t)"
  unfolding sys_step_def by (blast intro: shutting.act_has)

end

end
