(* ===== verification/Waker_Panics.thy ===== *)
theory Waker_Panics
  imports Closing
begin

text \<open>
  Calls whose batch holds a panicking waker. The whole batch is still notified, the panic goes to the
  caller, and the call stops there: what it left undone is up to the next call.
\<close>

section \<open>One waker that panics\<close>

text \<open>Wakers that leave the queue alone, of which \<open>w0\<close> panics.\<close>

definition breaks_at :: "'w \<Rightarrow> ('w, 'q) run_wake" where
  "breaks_at w0 w log q = (if w = w0 then Panics q else Returns q ())"

lemma breaks_at_simps [simp]: "breaks_at w0 w0 log q = Panics q" "w \<noteq> w0 \<Longrightarrow> breaks_at w0 w log q = Returns q ()"
  by (simp_all add: breaks_at_def)

text \<open>It is there, once.\<close>

definition once :: "'w \<Rightarrow> 'w list \<Rightarrow> bool" where
  "once w0 ws \<longleftrightarrow> filter (\<lambda>w. w = w0) ws = [w0]"

lemma breaks_quiet: "w0 \<notin> set ws \<Longrightarrow> wake_loop (breaks_at w0) ws log q = (None, q, log @ ws)"
  by (induction ws arbitrary: log) auto

lemma breaks_once: "once w0 ws \<Longrightarrow> wake_remaining (breaks_at w0) ws log q = Unwind (q, log @ ws)"
proof -
  have "\<exists>xs ys. ws = xs @ ys \<and> wake_loop (breaks_at w0) ws log q = (Some ys, q, log @ xs) \<and> w0 \<notin> set ys"
    if "once w0 ws" for log
    using that
  proof (induction ws arbitrary: log)
    case (Cons w ws)
    show ?case
    proof (cases "w = w0")
      case True
      with Cons.prems have "w0 \<notin> set ws" by (auto simp: once_def filter_empty_conv)
      with True show ?thesis by (intro exI [where x = "[w]"] exI [where x = ws]) simp
    next
      case False
      with Cons.prems have "once w0 ws" by (simp add: once_def)
      from Cons.IH [OF this, of "log @ [w]"] obtain xs ys where
        "ws = xs @ ys" "wake_loop (breaks_at w0) ws (log @ [w]) q = (Some ys, q, (log @ [w]) @ xs)" "w0 \<notin> set ys"
        by auto
      with False have "w # ws = (w # xs) @ ys \<and> wake_loop (breaks_at w0) (w # ws) log q = (Some ys, q, log @ w # xs)"
        by simp
      with \<open>w0 \<notin> set ys\<close> show ?thesis by blast
    qed
  qed (simp add: once_def)
  moreover assume "once w0 ws"
  ultimately obtain xs ys where "ws = xs @ ys"
    "wake_loop (breaks_at w0) ws log q = (Some ys, q, log @ xs)" "w0 \<notin> set ys" by blast
  then show ?thesis by (simp add: wake_remaining_def breaks_quiet)
qed

section \<open>Calls that are cut short\<close>

context queue_deps
begin

lemma batch_breaks: "once w0 (elems v) \<Longrightarrow>
    batch_wake_all (av G) (breaks_at w0) v log q = Unwind (q, log @ elems v, snd (av_drain (av G) v))"
  by (simp add: AV.batch_wake_all_eq breaks_once)

lemma close_cut:
  assumes "queue_inv G V q" and "CLOSE (mode G)" and "once w0 (wakers (take batch_cap (links V (pins q))))"
  obtains q1 where "close G (breaks_at w0) q = Some (Unwind (q1, wakers (take batch_cap (links V (pins q)))))"
    "queue_inv G V q1" "closed q1" "links V (pins q1) = drop batch_cap (links V (pins q))" "state q1 = state q"
    "removed V (pins q1) = revoke (removed V (pins q)) (take batch_cap (links V (pins q)))"
proof (rule close_fill_result [OF assms(1,2) AV.av_new])
  fix q1 v1
  assume c: "close_fill G q (av_new (av G)) = Some (Ret (q1, v1) ())"
    and v1: "elems v1 = map (snd \<circ> snd) (take batch_cap (links V (pins q)))"
    and q1: "queue_inv G V q1" "closed q1" "links V (pins q1) = drop batch_cap (links V (pins q))" "state q1 = state q"
      "removed V (pins q1) = revoke (removed V (pins q)) (take batch_cap (links V (pins q)))"
  from v1 have w: "elems v1 = wakers (take batch_cap (links V (pins q)))" by (simp add: wakers_def)
  have "close G (breaks_at w0) q = Some (Unwind (q1, elems v1))"
    unfolding close_def using assms(3) [folded w]
    by (subst close_loop.simps) (simp add: c batch_breaks AV.batch_drop_unwinding_empty AV.av_drain(2))
  with that q1 w show thesis by simp
qed

lemma with_state_cut:
  assumes "queue_inv G V q" and "\<not> poisoned q" and "\<not> closed q" and "f (state q) = Returns s1 r"
    and "serve (acquire (sem G)) batch_cap s1 (links V (pins q)) = (s2, rest, gs, False)"
    and "once w0 (grant_wakers gs)"
  obtains q1 where "with_state G (breaks_at w0) f q = Some (Unwind (q1, grant_wakers gs))"
    "queue_inv G V q1" "\<not> poisoned q1" "\<not> closed q1" "state q1 = s2" "links V (pins q1) = rest"
    "removed V (pins q1) = park (removed V (pins q)) gs"
proof -
  let ?q = "q\<lparr>state := s1\<rparr>"
  have q: "queue_inv G V ?q" using assms(1) by (simp add: queue_inv_def)
  have ne: "len ?q \<noteq> 0"
    using assms(1,5,6) by (cases "links V (pins q)") (auto simp: queue_inv_def once_def)
  from check_active [OF q, of "av_new (av G)" s2 rest gs False] assms(2,3,5) obtain m v where
    c: "check G ?q (av_new (av G)) =
        Some (Ret (?q\<lparr>pins := m, state := s2, len := length rest, poisoned := poisoned ?q\<rparr>, v) ())"
      (is "_ = Some (Ret (?q1, v) ())")
    and m: "ok V m" "links V m = rest" "removed V m = park (removed V (pins q)) gs" "elems v = grant_wakers gs"
    by (auto simp: AV.av_new batch_cap_def)
  have "with_state G (breaks_at w0) f q = with_queue_loop G (breaks_at w0) ?q (av_new (av G)) [] r"
    using ne assms(4) by (simp add: with_state_def with_queue_def update_state_def)
  also have "\<dots> = Some (Unwind (?q1, grant_wakers gs))"
    using assms(6) m(4)
    by (subst with_queue_loop.simps) (simp add: c batch_breaks AV.batch_drop_unwinding_empty AV.av_drain(2))
  finally show thesis
    using that [of ?q1] m assms(1-3) by (auto simp: queue_inv_def dest: park_Inl)
qed

end

end
