(* ===== verification/Queue_Properties.thy ===== *)
theory Queue_Properties
  imports Work_Conservation Waker_Panics Ledger State_Examples
begin

text \<open>
  The properties of the queue, over any dependencies with the laws of \<open>queue_deps\<close> and any user state,
  order and wakers unless said otherwise. The witnesses run a FIFO queue over the counter of permits,
  with numbers for wakers.
\<close>

section \<open>A queue to run\<close>

type_synonym demo_list = "((64 word, nat) waiting, (64 word, 64 word) removal) plain_list"

definition demo :: "close_mode \<Rightarrow>
    (demo_list, nat list, 64 word, 64 word, 64 word, fair_order, nat) generics" where
  "demo c = plain_generics semaphore_counter fair_enqueue_front c"

definition demo_queue :: "64 word \<Rightarrow> (nid \<times> (64 word, nat) waiting) list \<Rightarrow>
    (demo_list, 64 word, fair_order) queue_state" where
  "demo_queue permits ws = \<lparr>queue = Open, pins = \<lparr>lp_links = ws, lp_removed = []\<rparr>, poisoned = False,
     closed = False, len = length ws, order = Fifo, state = permits\<rparr>"

text \<open>Three waiters, who want 3, 2 and 1 permits.\<close>

definition demo_waiting :: "(nid \<times> (64 word, nat) waiting) list" where
  "demo_waiting = [(1, Some 3, 11), (2, Some 2, 12), (3, Some 1, 13)]"

lemma demo_simps [simp]:
  "pl (demo c) = plain_pin_list" "av (demo c) = plain_array_vec" "sem (demo c) = semaphore_counter"
  "policy (demo c) = fair_enqueue_front" "mode (demo c) = c"
  by (simp_all add: demo_def)

lemma demo_deps: "queue_deps (demo c) plain_view (\<lambda>v. v)"
  unfolding demo_def by (rule plain_queue.queue_deps_axioms)

interpretation lawful_demo: lawful_queue "demo c" plain_view "\<lambda>v. v" for c
  by (simp add: lawful_queue_def demo_deps counter.lawful_state_axioms)

interpretation budget_demo: budget_queue "demo c" plain_view "\<lambda>v. v" uint uint "2 ^ 64 - 1" for c
  unfolding budget_queue_def demo_simps by (intro conjI demo_deps counter.budget_state_axioms)

lemma demo_queue_inv: "distinct (map fst ws) \<Longrightarrow> queue_inv (demo c) plain_view (demo_queue s ws)"
  by (simp add: queue_inv_def demo_queue_def lp_wf_def lp_taken_def)

lemma demo_queue_simps [simp]:
  "lp_links (pins (demo_queue s ws)) = ws" "state (demo_queue s ws) = s" "len (demo_queue s ws) = length ws"
  "\<not> poisoned (demo_queue s ws)" "\<not> closed (demo_queue s ws)" "order (demo_queue s ws) = Fifo"
  by (simp_all add: demo_queue_def)

lemma counter_simps [simp]:
  "acquire semaphore_counter s p =
    (if p \<le> s then Returns (s - p) (Inr p) else Returns s (Inl p))"
  by (simp add: semaphore_counter_def)

lemma two_not_le_one [simp]: "\<not> (2 :: 64 word) \<le> 1"
  by (simp add: word_le_nat_alt)

lemma demo_waiting_ids: "map fst demo_waiting = [1, 2, 3]"
  by (simp add: demo_waiting_def)

lemma demo_inv: "queue_inv (demo c) plain_view (demo_queue s demo_waiting)"
  by (rule demo_queue_inv) (simp add: demo_waiting_ids)

text \<open>With four permits the first waiter is served and the second is refused.\<close>

lemma demo_serve:
  "0 < k \<Longrightarrow> serve (acquire semaphore_counter) k 4 demo_waiting = (1, tl demo_waiting, [(1, 3, 11)], False)"
  by (simp add: demo_waiting_def)

section \<open>One locked round\<close>

text \<open>C11. \<open>QueueState::check\<close> does exactly what the specification \<open>serve\<close> says of the plain list of
  waiters: it returns or, if and only if a call of \<open>acquire\<close> panicked, unwinds; it leaves the state,
  the waiters, the permits parked in the nodes, the wakers to invoke and the poison flag as specified,
  and it keeps the invariant of the queue.\<close>

theorem check_refines_serve:
  assumes "queue_deps G V elems" and "queue_inv G V q" and "\<not> poisoned q" and "\<not> closed q"
    and "elems wakes = []"
    and "serve (acquire (sem G)) batch_cap (state q) (links V (pins q)) = (s', rest, gs, b)"
  shows "\<exists>q' v'. check G q wakes = Some (if b then Unwind (q', v') else Ret (q', v') ()) \<and>
    queue_inv G V q' \<and> state q' = s' \<and> links V (pins q') = rest \<and> len q' = length rest \<and>
    removed V (pins q') = park (removed V (pins q)) gs \<and> elems v' = grant_wakers gs \<and>
    poisoned q' = b \<and> closed q' = closed q \<and> order q' = order q"
proof (rule queue_deps.check_result [OF assms(1,2) queue_deps.batch_empty [OF assms(1,5)]])
  fix q' v' gs' b'
  assume "check G q wakes = Some (if b' then Unwind (q', v') else Ret (q', v') ())"
    "queue_inv G V q'" "removed V (pins q') = park (removed V (pins q)) gs'"
    "elems v' = elems wakes @ grant_wakers gs'" "poisoned q' = (poisoned q \<or> b')"
    "closed q' = closed q" "order q' = order q"
    "if poisoned q \<or> closed q then q' = q \<and> gs' = [] \<and> \<not> b'
     else serve (acquire (sem G)) (batch_cap - length (elems wakes)) (state q) (links V (pins q)) =
       (state q', links V (pins q'), gs', b')"
  with assms show ?thesis
    by (intro exI [of _ q'] exI [of _ v']) (simp add: queue_inv_def)
qed

theorem check_refines_serve_witness:
  "\<exists>q' v'. check (demo Closeable) (demo_queue 4 demo_waiting) [] = Some (Ret (q', v') ()) \<and>
    state q' = 1 \<and> lp_links (pins q') = tl demo_waiting \<and> v' = [11]"
  using check_refines_serve [OF demo_deps demo_inv demo_queue_simps(4,5) refl, of _ 4 1 "tl demo_waiting"
      "[(1, 3, 11)]" False]
  by (auto simp: demo_serve batch_cap_def)

text \<open>C12. Permits are handed out from the front and nobody is overtaken: the waiters served by a round
  of \<open>check\<close> are the first \<open>k\<close> of those whose params are present, at most a batch of them; their wakers
  are collected in queue order, each of them holds a permit, no other node changes, and the waiters
  left are the others in their old order.\<close>

theorem check_no_overtaking:
  assumes "queue_deps G V elems" and "queue_inv G V q" and "\<not> poisoned q" and "\<not> closed q"
    and "elems wakes = []"
    and "check G q wakes = Some (Ret (q', v') ()) \<or> check G q wakes = Some (Unwind (q', v'))"
  shows "\<exists>k \<le> batch_cap. let served = take k (live (links V (pins q))) in
    elems v' = map snd served \<and>
    (\<forall>n \<in> fst ` set served. \<exists>a. removed V (pins q') n = Some (Inr a)) \<and>
    (\<forall>n. n \<notin> fst ` set served \<longrightarrow> removed V (pins q') n = removed V (pins q) n) \<and>
    map fst (links V (pins q')) = filter (\<lambda>n. n \<notin> fst ` set served) (map fst (links V (pins q)))"
proof (rule queue_deps.check_result [OF assms(1,2) queue_deps.batch_empty [OF assms(1,5)]])
  fix q1 v1 gs b
  assume c: "check G q wakes = Some (if b then Unwind (q1, v1) else Ret (q1, v1) ())"
    and rm: "removed V (pins q1) = park (removed V (pins q)) gs"
    and v: "elems v1 = elems wakes @ grant_wakers gs"
    and srv: "if poisoned q \<or> closed q then q1 = q \<and> gs = [] \<and> \<not> b
     else serve (acquire (sem G)) (batch_cap - length (elems wakes)) (state q) (links V (pins q)) =
       (state q1, links V (pins q1), gs, b)"
  have eq: "q' = q1" "v' = v1" using c assms(6) by (auto split: if_splits)
  from srv assms have s: "serve (acquire (sem G)) batch_cap (state q) (links V (pins q)) =
       (state q1, links V (pins q1), gs, b)" by simp
  have dist: "distinct (map fst (links V (pins q)))"
    by (rule queue_deps.waiters_distinct [OF assms(1,2)])
  let ?served = "take (length gs) (live (links V (pins q)))"
  have served: "map (\<lambda>(n, _, w). (n, w)) gs = ?served" "length gs \<le> batch_cap"
    using serve_grants_prefix [OF s] by (simp_all add: batch_cap_def)
  then have "map snd ?served = grant_wakers gs" "fst ` set ?served = fst ` set gs"
    by (simp_all flip: served(1) add: grant_wakers_def comp_def case_prod_beta image_image)
  with serve_rest_distinct [OF s dist] rm v assms(5) eq
  have "elems v' = map snd ?served"
    "\<forall>n \<in> fst ` set ?served. \<exists>a. removed V (pins q') n = Some (Inr a)"
    "\<forall>n. n \<notin> fst ` set ?served \<longrightarrow> removed V (pins q') n = removed V (pins q) n"
    "map fst (links V (pins q')) = filter (\<lambda>n. n \<notin> fst ` set ?served) (map fst (links V (pins q)))"
    by (simp_all add: park_grant park_other)
  with served(2) show ?thesis
    unfolding Let_def by blast
qed

theorem check_no_overtaking_witness:
  "\<exists>q' k. check (demo Closeable) (demo_queue 4 demo_waiting) [] = Some (Ret (q', [11]) ()) \<and>
    [11] = map snd (take k (live demo_waiting)) \<and>
    map fst (lp_links (pins q')) = filter (\<lambda>n. n \<notin> fst ` set (take k (live demo_waiting))) [1, 2, 3]"
proof -
  from queue_deps.check_active [OF demo_deps demo_inv, of 4 "[]" Closeable 1 "tl demo_waiting"
      "[(1, 3, 11)]" False]
  obtain q' where c: "check (demo Closeable) (demo_queue 4 demo_waiting) [] = Some (Ret (q', [11]) ())"
    by (auto simp: demo_serve batch_cap_def Let_def)
  from check_no_overtaking [OF demo_deps demo_inv demo_queue_simps(4,5) refl disjI1 [OF c]] c
  show ?thesis
    unfolding Let_def demo_queue_simps plain_view_simps demo_waiting_ids
    by (elim exE conjE) (intro exI conjI, assumption+)
qed

section \<open>Whole operations\<close>

text \<open>An executor that only schedules the woken tasks.\<close>

definition schedule_only :: "('w, 'q) run_wake" where
  "schedule_only w log q = Returns q ()"

lemma schedule_only_inert: "inert schedule_only"
  by (simp add: inert_def schedule_only_def)

lemma schedule_only_keeps: "keeps P schedule_only"
  by (simp add: keeps_def schedule_only_def)

lemma demo_serve_all:
  "serve_all (acquire semaphore_counter) 4 demo_waiting = (1, tl demo_waiting, [(1, 3, 11)], False)"
  by (simp add: serve_all_def demo_serve)

text \<open>C13. Batching is invisible: with wakers that leave the queue alone, \<open>with_state\<close> applies the closure
  and then serves the whole list of waiters in one pass, however many batches of 32 that takes; the
  wakers run in queue order, each once, and the call returns the closure's result unless an
  \<open>acquire\<close> panicked.\<close>

theorem with_state_serves_all:
  assumes "queue_deps G V elems" and "inert run" and "f (state q) = Returns s1 r" and "queue_inv G V q"
    and "\<not> poisoned q" and "\<not> closed q"
    and "serve_all (acquire (sem G)) s1 (links V (pins q)) = (s', rest, gs, b)"
  shows "\<exists>q'. with_state G run f q =
      Some (if b then Unwind (q', grant_wakers gs) else Ret (q', grant_wakers gs) r) \<and>
    queue_inv G V q' \<and> state q' = s' \<and> links V (pins q') = rest \<and>
    removed V (pins q') = park (removed V (pins q)) gs \<and> poisoned q' = b"
  by (rule queue_deps.with_state_inert [where f = f, OF assms]) blast

theorem with_state_serves_all_witness:
  "\<exists>q'. with_state (demo Closeable) schedule_only (\<lambda>s. Returns (s + 4) ()) (demo_queue 0 demo_waiting) =
      Some (Ret (q', [11]) ()) \<and> state q' = 1 \<and> lp_links (pins q') = tl demo_waiting"
  using with_state_serves_all [OF demo_deps schedule_only_inert, of "\<lambda>s. Returns (s + 4) ()"
      "demo_queue 0 demo_waiting" 4 "()" Closeable 1 "tl demo_waiting" "[(1, 3, 11)]" False] demo_inv
  by (auto simp: demo_serve_all)

text \<open>C14. \<open>with_state\<close> returns: whatever the wakers do to the queue, as long as they keep its invariant
  and add no waiter, the call comes to an end (it returns, unwinds, or aborts on a second panic),
  without undefined behaviour and with the invariant kept, whatever the closure and the state do.\<close>

theorem with_state_returns:
  assumes "queue_deps G V elems" and "\<And>k. keeps (waiting_bound G V k) run" and "queue_inv G V q"
  shows "\<exists>x. with_state G run f q = Some x \<and> exec_all (\<lambda>(q', _). queue_inv G V q') x"
  unfolding with_state_def
proof (rule queue_deps.with_queue_total [OF assms(1,2)])
  show "exec_all (queue_inv G V) (update_state f q)"
    using assms(3) by (cases "f (state q)") (simp_all add: update_state_def queue_inv_def)
qed

theorem with_state_returns_witness:
  "\<exists>x. with_state (demo Closeable) schedule_only (\<lambda>s. if s = 0 then Panics 1 else Returns s ())
      (demo_queue 7 demo_waiting) = Some x \<and> exec_all (\<lambda>(q', _). queue_inv (demo Closeable) plain_view q') x"
  by (rule with_state_returns [OF demo_deps schedule_only_keeps demo_inv])

text \<open>C15. \<open>close\<close> returns: with wakers that keep a closed queue closed and add no waiter, it comes to an
  end, leaves the queue closed, and when it returns normally nobody waits any more.\<close>

theorem close_returns:
  assumes "queue_deps G V elems" and "\<And>k. keeps (closing_bound G V k) run" and "queue_inv G V q"
    and "CLOSE (mode G)"
  shows "\<exists>x. close G run q = Some x \<and> exec_all (\<lambda>(q', _). queue_inv G V q' \<and> closed q') x \<and>
    (\<forall>q' log u. x = Ret (q', log) u \<longrightarrow> links V (pins q') = [])"
proof -
  have "elems (av_new (av G)) = []"
    using assms(1) array_vec_laws.av_new queue_deps_def by blast
  then show ?thesis
    unfolding close_def by (rule queue_deps.close_loop_total [OF assms])
qed

theorem close_returns_witness:
  "\<exists>x. close (demo Closeable) schedule_only (demo_queue 7 demo_waiting) = Some x \<and>
    exec_all (\<lambda>(q', _). queue_inv (demo Closeable) plain_view q' \<and> closed q') x \<and>
    (\<forall>q' log u. x = Ret (q', log) u \<longrightarrow> lp_links (pins q') = [])"
  using close_returns [OF demo_deps schedule_only_keeps demo_inv, of Closeable 7] by simp

text \<open>C16. What \<open>close\<close> does, with wakers that leave the queue alone: every waiter is removed and finds its
  params in its node, every waker is invoked exactly once and in queue order, the list is discarded,
  and permits already granted, the state and the poison flag are untouched.\<close>

theorem close_revokes_all:
  assumes "queue_deps G V elems" and "inert run" and "queue_inv G V q" and "CLOSE (mode G)"
  shows "\<exists>q'. close G run q = Some (Ret (q', wakers (links V (pins q))) ()) \<and>
    queue_inv G V q' \<and> closed q' \<and> queue q' = Discarded \<and> state q' = state q \<and>
    poisoned q' = poisoned q \<and> links V (pins q') = [] \<and>
    (\<forall>n prm w. (n, prm, w) \<in> set (links V (pins q)) \<longrightarrow> removed V (pins q') n = Some (Inl prm)) \<and>
    (\<forall>n. n \<notin> ids (links V (pins q)) \<longrightarrow> removed V (pins q') n = removed V (pins q) n)"
proof (rule queue_deps.close_inert [OF assms(1,2,4,3)])
  fix q'
  assume q': "close G run q = Some (Ret (q', wakers (links V (pins q))) ())" "queue_inv G V q'" "closed q'"
      "queue q' = Discarded" "state q' = state q" "poisoned q' = poisoned q" "links V (pins q') = []"
    and r: "removed V (pins q') = revoke (removed V (pins q)) (links V (pins q))"
  have "removed V (pins q') n = Some (Inl prm)" if "(n, prm, w) \<in> set (links V (pins q))" for n prm w
    unfolding r by (rule revoke_at [OF queue_deps.waiters_distinct [OF assms(1,3)] that])
  moreover have "removed V (pins q') n = removed V (pins q) n" if "n \<notin> ids (links V (pins q))" for n
    unfolding r by (rule revoke_other [OF that])
  ultimately show ?thesis using q' by (intro exI [of _ q']) simp
qed

theorem close_revokes_all_witness:
  "\<exists>q'. close (demo Closeable) schedule_only (demo_queue 0 demo_waiting) = Some (Ret (q', [11, 12, 13]) ()) \<and>
    lp_links (pins q') = [] \<and> lp_taken (pins q') 2 = Some (Inl (Some 2))"
  using close_revokes_all [OF demo_deps schedule_only_inert demo_inv, of Closeable 0]
  by (auto simp: wakers_def demo_waiting_def)

section \<open>Panicking wakers\<close>

text \<open>As documented, a waker that panics leaves a closed queue, and closing again notifies the rest: with
  a waker in the first batch that panics, \<open>close\<close> unwinds with the queue closed and the whole batch
  notified, the waiters behind it are still on the list, and a second \<open>close\<close> returns when the list is
  empty. The two calls together invoke the waker of every waiter exactly once, in queue order, and
  each waiter finds its params in its node.\<close>

theorem close_again_finishes:
  assumes "queue_deps G V elems" and "queue_inv G V q" and "CLOSE (mode G)"
    and "once w0 (wakers (take batch_cap (links V (pins q))))"
  shows "\<exists>q1 q2 log1 log2. close G (breaks_at w0) q = Some (Unwind (q1, log1)) \<and> closed q1 \<and>
    links V (pins q1) = drop batch_cap (links V (pins q)) \<and>
    close G schedule_only q1 = Some (Ret (q2, log2) ()) \<and> log1 @ log2 = wakers (links V (pins q)) \<and>
    closed q2 \<and> links V (pins q2) = [] \<and>
    (\<forall>n prm w. (n, prm, w) \<in> set (links V (pins q)) \<longrightarrow> removed V (pins q2) n = Some (Inl prm))"
proof (rule queue_deps.close_cut [OF assms])
  let ?l = "links V (pins q)"
  fix q1
  assume c1: "close G (breaks_at w0) q = Some (Unwind (q1, wakers (take batch_cap ?l)))"
    and q1: "queue_inv G V q1" "closed q1" "links V (pins q1) = drop batch_cap ?l"
      "removed V (pins q1) = revoke (removed V (pins q)) (take batch_cap ?l)"
  from queue_deps.close_loop_inert [OF assms(1) schedule_only_inert assms(3) q1(1)
      array_vec_laws.av_new [OF queue_deps.axioms(2) [OF assms(1)]], of "[]"]
  obtain q2 where c2: "close G schedule_only q1 = Some (Ret (q2, wakers (drop batch_cap ?l)) ())"
    and q2: "closed q2" "links V (pins q2) = []"
      "removed V (pins q2) = revoke (removed V (pins q)) (take batch_cap ?l @ drop batch_cap ?l)"
    unfolding close_def revoke_append using q1(3,4) by auto
  have "removed V (pins q2) n = Some (Inl prm)" if "(n, prm, w) \<in> set ?l" for n prm w
    using revoke_at [OF queue_deps.waiters_distinct [OF assms(1,2)] that] q2(3) by simp
  with c1 c2 q1 q2 wakers_take_drop [of batch_cap ?l] show ?thesis by blast
qed

theorem close_again_finishes_witness:
  "\<exists>q1 q2 log1 log2. close (demo Closeable) (breaks_at 12) (demo_queue 0 demo_waiting) = Some (Unwind (q1, log1)) \<and>
    close (demo Closeable) schedule_only q1 = Some (Ret (q2, log2) ()) \<and> log1 @ log2 = [11, 12, 13]"
  using close_again_finishes [OF demo_deps demo_inv, of Closeable 12 0]
  by (auto simp: wakers_def demo_waiting_def once_def batch_cap_def)

text \<open>C29. A panic of a waker reaches the caller of \<open>with_state\<close> after the whole batch was notified, and
  poisons nothing; but the waiters behind the batch are not served by this call, even where
  the state has permits for them: its list and state are those after one batch.\<close>

theorem waker_panic_cuts_short:
  assumes "queue_deps G V elems" and "queue_inv G V q" and "\<not> poisoned q" and "\<not> closed q"
    and "f (state q) = Returns s1 r"
    and "serve (acquire (sem G)) batch_cap s1 (links V (pins q)) = (s2, rest, gs, False)"
    and "once w0 (grant_wakers gs)"
  shows "\<exists>q1. with_state G (breaks_at w0) f q = Some (Unwind (q1, grant_wakers gs)) \<and>
    queue_inv G V q1 \<and> \<not> poisoned q1 \<and> state q1 = s2 \<and> links V (pins q1) = rest \<and>
    removed V (pins q1) = park (removed V (pins q)) gs"
  by (rule queue_deps.with_state_cut [where f = f and q = q, OF assms]) blast

theorem waker_panic_cuts_short_witness:
  "\<exists>q1. with_state (demo Closeable) (breaks_at 11) (\<lambda>s. Returns (s + 4) ()) (demo_queue 0 demo_waiting) =
      Some (Unwind (q1, [11])) \<and> state q1 = 1 \<and> lp_links (pins q1) = tl demo_waiting"
  using waker_panic_cuts_short [OF demo_deps demo_inv, of 0 "\<lambda>s. Returns (s + 4) ()" 4 "()" Closeable 1
      "tl demo_waiting" "[(1, 3, 11)]" 11]
  by (auto simp: demo_serve once_def batch_cap_def)

end
