(* ===== verification/Progress.thy ===== *)
theory Progress
  imports Ledger Work_Conservation Queue_Properties
begin

text \<open>
  What the other results give together for the state behind the queue: every action calls at most one
  \<open>release\<close> or closure and after it only \<open>acquire\<close>, so that a limit moved at run time, as in
  flag-bearer-examples/examples/dynamic_limit.rs, is kept by every admission; and nobody waits for permits
  that nobody has.
\<close>

section \<open>What an action does to the state\<close>

fun state_after :: "('s, 'r) call \<Rightarrow> 's" where
  "state_after (Returns s r) = s"
| "state_after (Panics s) = s"

definition attempt :: "('s, 'p, 'a) semaphore_state \<Rightarrow> 's \<Rightarrow> 's \<Rightarrow> bool" where
  "attempt S s s' \<longleftrightarrow> (\<exists>p. s' = state_after (acquire S s p))"

text \<open>Before that: a drop may give a parked permit back, a change is the caller's closure.\<close>

definition prelude_step :: "('s, 'p, 'a) semaphore_state \<Rightarrow> ('s, 'a) label \<Rightarrow> 's \<Rightarrow> 's \<Rightarrow> bool" where
  "prelude_step S l s s' \<longleftrightarrow> (case l of
     Quiet \<Rightarrow> s' = s \<or> (\<exists>a. s' = state_after (release S s a))
   | Got a \<Rightarrow> s' = s
   | Changed f \<Rightarrow> s' = state_after (f s))"

definition staged :: "('s, 'p, 'a) semaphore_state \<Rightarrow> ('s, 'a) label
    \<Rightarrow> ('m, 's, 'o) queue_state \<Rightarrow> ('m, 's, 'o) queue_state \<Rightarrow> bool" where
  "staged S l q q' \<longleftrightarrow> (\<exists>s1. prelude_step S l (state q) s1 \<and> (attempt S)\<^sup>*\<^sup>* s1 (state q'))"

lemma serve_attempts: "serve (acquire S) k s xs = (s', rest, gs, b) \<Longrightarrow> (attempt S)\<^sup>*\<^sup>* s s'"
proof (induction "acquire S" k s xs arbitrary: s' rest gs b rule: serve.induct)
  case (3 k s n p w xs)
  have one: "(attempt S)\<^sup>*\<^sup>* s (state_after (acquire S s p))"
    unfolding attempt_def by blast
  show ?case
  proof (cases "acquire S s p" rule: attempt_cases)
    case (grant s1 a)
    show ?thesis
    proof (cases "k \<le> 1")
      case False
      with grant "3.prems" obtain gs' where "serve (acquire S) (k - 1) s1 xs = (s', rest, gs', b)"
        by (auto split: prod.splits)
      from "3.hyps" [OF grant refl False this] one grant show ?thesis by simp
    qed (use one grant "3.prems" in auto)
  qed (use one "3.prems" in auto)
qed (auto split: prod.splits)

lemma attempted: "acquire S s p = Returns s' r \<Longrightarrow> attempt S s s'" "acquire S s p = Panics s' \<Longrightarrow> attempt S s s'"
  unfolding attempt_def by (metis state_after.simps)+

lemma staged_attempt:
  assumes "state q' = state q \<or> attempt S (state q) (state q')" and "\<And>f. l \<noteq> Changed f"
  shows "staged S l q q'"
  using assms by (cases l) (auto simp: staged_def prelude_step_def)

lemma staged_same: "state q' = state q \<Longrightarrow> staged S Quiet q q'"
  by (rule staged_attempt) simp_all

context queue_deps
begin

lemma try_staged:
  assumes "queue_inv G V q" and "try_acquire G p fair q = Ret q' t \<or> try_acquire G p fair q = Unwind q'"
    and "\<And>f. l \<noteq> Changed f"
  shows "staged (sem G) l q q'"
proof (rule staged_attempt [OF _ assms(3)])
  show "state q' = state q \<or> attempt (sem G) (state q) (state q')"
    by (rule acquire_or_enqueue_result [OF assms(1), of p fair])
      (use assms(2) in \<open>auto simp: try_acquire_def intro: attempted\<close>)
qed

lemma poll_staged:
  assumes "queue_inv G V q" and "poll G cx fut q = Ret (q', fut') r \<or> poll G cx fut q = Unwind (q', fut')"
    and "\<And>f. l \<noteq> Changed f"
  shows "staged (sem G) l q q'"
proof (rule staged_attempt [OF _ assms(3)])
  show "state q' = state q \<or> attempt (sem G) (state q) (state q')"
    by (rule poll_result [OF assms(1), where cx = cx and fut = fut])
      (use assms(2) in \<open>auto intro: attempted split: sum.splits option.splits\<close>)
qed

lemma drop_staged:
  assumes "queue_inv G V q" and "pl_initialized (pl G) (pins q) n"
    and "drop_node G n q = Ret q' d \<or> drop_node G n q = Unwind q'"
  shows "staged (sem G) Quiet q q'"
proof (rule drop_result [OF assms(1,2)])
  fix m r
  assume drp: "drop_node G n q = (case r of
       Inl e \<Rightarrow> Ret (q\<lparr>pins := m\<rparr>) (Some (Removed (Inl e)))
     | Inr a \<Rightarrow> (case release (sem G) (state q) a of
         Returns s _ \<Rightarrow> Ret (q\<lparr>pins := m, state := s\<rparr>) None
       | Panics s \<Rightarrow> Unwind (q\<lparr>pins := m, state := s, poisoned := True\<rparr>)))"
  show ?thesis
  proof (cases r)
    case (Inr a)
    with drp assms(3) have "state q' = state_after (release (sem G) (state q) a)"
      by (auto split: call.splits)
    then show ?thesis by (auto simp: staged_def prelude_step_def)
  qed (use drp assms(3) in \<open>auto intro!: staged_same\<close>)
qed (use assms(3) in \<open>auto intro!: staged_same\<close>)

lemma check_staged:
  assumes "queue_inv G V q1" and "staged (sem G) l q q1" and "check G q1 (av_new (av G)) = Some x"
    and "round_end G k x = Some (q', frame)"
  shows "staged (sem G) l q q'"
proof (rule check_result [OF assms(1) batch_empty [OF AV.av_new]])
  fix q2 v gs b
  assume c: "check G q1 (av_new (av G)) = Some (if b then Unwind (q2, v) else Ret (q2, v) ())"
    and srv: "if poisoned q1 \<or> closed q1 then q2 = q1 \<and> gs = [] \<and> \<not> b
     else serve (acquire (sem G)) (batch_cap - length (elems (av_new (av G)))) (state q1) (links V (pins q1)) =
       (state q2, links V (pins q2), gs, b)"
  have "q' = q2" using c assms(3,4) by (auto split: if_splits)
  moreover have "(attempt (sem G))\<^sup>*\<^sup>* (state q1) (state q2)"
    using srv serve_attempts by (auto split: if_splits)
  ultimately show ?thesis
    using assms(2) unfolding staged_def by (meson rtranclp_trans)
qed

end

sublocale queue_deps \<subseteq> stages: queue_sections G V elems "staged (sem G)"
proof unfold_locales
  show "staged (sem G) (case r of Ready (Inr a) \<Rightarrow> Got a | _ \<Rightarrow> Quiet) q q'"
    if "queue_inv G V q" "poll G cx fut q = Ret (q', fut') r" for q q' cx fut fut' r
    by (rule poll_staged [OF that(1) disjI1 [OF that(2)]]) (auto split: poll.splits sum.splits)
  show "staged (sem G) (case t of Inr a \<Rightarrow> Got a | Inl _ \<Rightarrow> Quiet) q q'"
    if "queue_inv G V q" "try_acquire G p fair q = Ret q' t" for q q' p fair t
    by (rule try_staged [OF that(1) disjI1 [OF that(2)]]) (auto split: sum.splits)
  show "staged (sem G) (Changed f) q q'"
    if "queue_inv G V q" "update_state f q = Ret q' u \<or> update_state f q = Unwind q'" for f q q' u
    using that(2) by (cases "f (state q)") (auto simp: update_state_def staged_def prelude_step_def)
  show "staged (sem G) Quiet q q'"
    if "queue_inv G V q" "CLOSE (mode G)" "close_fill G q (av_new (av G)) = Some x" "round_end G k x = Some (q', frame)"
    for q q' x k and frame :: "'w list \<times> resume"
    using close_round [OF that(1-3), of k q' "fst frame" "snd frame"] that(4) by (auto intro: staged_same)
qed (auto intro: staged_same check_staged drop_staged poll_staged try_staged simp: clear_poison_def)

context queue_deps
begin

lemma act_staged: "sys_inv G V s \<Longrightarrow> act G l s t \<Longrightarrow> staged (sem G) l (sq s) (sq t)"
  by (rule stages.act_has)

end

section \<open>A limit that moves\<close>

text \<open>The state and the closure of the example's \<open>main\<close>.\<close>

definition limit_start :: concurrency_limit where
  "limit_start = \<lparr>in_flight = 0, ceiling = 4\<rparr>"

definition set_limit :: "64 word \<Rightarrow> concurrency_limit \<Rightarrow> (concurrency_limit, unit) call" where
  "set_limit l s = Returns (s\<lparr>ceiling := l\<rparr>) ()"

lemma attempt_limit:
  assumes "attempt concurrency_limit_state s s'"
  shows "ceiling s' = ceiling s \<and> in_flight s' \<le> max (in_flight s) (ceiling s)"
proof (cases "in_flight s < ceiling s")
  case True
  then have "in_flight s + 1 \<le> ceiling s" by (rule inc_le)
  with True assms below_no_overflow [OF True] show ?thesis
    by (auto simp: attempt_def concurrency_limit_state_def)
qed (use assms in \<open>auto simp: attempt_def concurrency_limit_state_def\<close>)

lemma attempts_limit:
  "(attempt concurrency_limit_state)\<^sup>*\<^sup>* s s' \<Longrightarrow> ceiling s' = ceiling s \<and> in_flight s' \<le> max (in_flight s) (ceiling s)"
proof (induction rule: rtranclp_induct)
  case (step y z)
  with attempt_limit [OF step.hyps(2)] show ?case by (auto simp: max_def split: if_splits)
qed simp

lemma release_limit: "in_flight (state_after (release concurrency_limit_state s a)) \<le> in_flight s"
proof (cases "1 \<le> in_flight s")
  case True
  then have "in_flight s - 1 \<le> in_flight s" by (simp add: word_sub_le)
  with True show ?thesis by (simp add: concurrency_limit_state_def checked_sub_def)
qed (simp add: concurrency_limit_state_def checked_sub_def)

lemma staged_limit:
  assumes "staged concurrency_limit_state l q q'"
    and "\<And>f st. l = Changed f \<Longrightarrow> in_flight (state_after (f st)) \<le> in_flight st"
  shows "in_flight (state q') \<le> max (in_flight (state q)) (ceiling (state q'))"
proof -
  from assms(1) obtain s1 where pre: "prelude_step concurrency_limit_state l (state q) s1"
    and "(attempt concurrency_limit_state)\<^sup>*\<^sup>* s1 (state q')" by (auto simp: staged_def)
  note s1 = attempts_limit [OF this(2)]
  have "in_flight s1 \<le> in_flight (state q)"
    using pre assms(2) release_limit [of "state q"] by (cases l) (auto simp: prelude_step_def)
  with s1 show ?thesis by (auto simp: le_max_iff_disj)
qed

section \<open>Properties\<close>

type_synonym demo_limit_list = "((unit, nat) waiting, (unit, unit) removal) plain_list"

text \<open>C37. A limit moved at run time is kept. In every interleaving in which callers give permits back and move the
  limit, the number in flight is that of the permits that are parked or held. No action raises it above
  the limit in force: if it is above, because the limit was lowered, nobody is admitted until it
  has fallen.\<close>

theorem limit_respected:
  assumes "queue_deps G V elems" and "sem G = concurrency_limit_state" and "in_flight s0 = 0"
    and "ledger G (\<lambda>s. - uint (in_flight s)) s0 s held"
    and "act G l s t" and "\<And>f st. l = Changed f \<Longrightarrow> in_flight (state_after (f st)) \<le> in_flight st"
  shows "uint (in_flight (state (sq s))) = parked (\<lambda>_. 1) (removed V (pins (sq s))) + int (size held) \<and>
    in_flight (state (sq t)) \<le> max (in_flight (state (sq s))) (ceiling (state (sq t)))"
proof
  have "budget_queue G V elems (\<lambda>s. - uint (in_flight s)) (\<lambda>_. 1) 0"
    using assms(1,2) concurrency_limit.budget_state_axioms by (simp add: budget_queue_def)
  from budget_queue.ledger_books [OF this _ assms(4)] assms(3)
  show "uint (in_flight (state (sq s))) = parked (\<lambda>_. 1) (removed V (pins (sq s))) + int (size held)"
    by (simp add: books_def held_cost_def)
  have inv: "sys_inv G V s" by (rule queue_deps.reachable_sys_inv [OF assms(1) ledger_reachable [OF assms(4)]])
  have "staged concurrency_limit_state l (sq s) (sq t)"
    using queue_deps.act_staged [OF assms(1) inv assms(5)] assms(2) by simp
  then show "in_flight (state (sq t)) \<le> max (in_flight (state (sq s))) (ceiling (state (sq t)))"
    by (rule staged_limit) (rule assms(6))
qed

theorem limit_respected_witness:
  "\<exists>s t. ledger (plain_generics concurrency_limit_state fair_enqueue_front Closeable) (\<lambda>s. - uint (in_flight s)) limit_start
      (s :: (demo_limit_list, concurrency_limit, unit, fair_order, nat) sys) {#()#} \<and>
    act (plain_generics concurrency_limit_state fair_enqueue_front Closeable) (Changed (set_limit 1)) s t \<and>
    uint (in_flight (state (sq s))) = 1 \<and> ceiling (state (sq t)) = 1 \<and> in_flight (state (sq t)) \<le> 1"
proof -
  let ?G = "plain_generics concurrency_limit_state fair_enqueue_front Closeable ::
    (demo_limit_list, nat list, concurrency_limit, unit, unit, fair_order, nat) generics"
  let ?s0 = "init_sys ?G limit_start Fifo"
  let ?st = "\<lparr>in_flight = 1, ceiling = 4\<rparr>"
  let ?s1 = "?s0\<lparr>sq := (sq ?s0)\<lparr>state := ?st\<rparr>\<rparr>"
  let ?t = "?s1\<lparr>sq := (sq ?s1)\<lparr>state := ?st\<lparr>ceiling := 1\<rparr>\<rparr>, frames := [([], Stop)], owed := False\<rparr>"
  have "try_acquire ?G () True (sq ?s0) = Ret ((sq ?s0)\<lparr>state := ?st\<rparr>) (Inr ())"
    by (simp add: init_sys_def try_acquire_def acquire_or_enqueue_def new_queue_def plain_pin_list_def
        limit_start_def concurrency_limit_state_def checked_add_def)
  from does.try_return [where s = ?s0, OF this, THEN does_act] have "act ?G (Got ()) ?s0 ?s1" by simp
  from ledger_got [OF ledger_start this] have l: "ledger ?G (\<lambda>s. - uint (in_flight s)) limit_start ?s1 {#()#}" .
  have "first_round ?G (update_state (set_limit 1)) (sq ?s1) = Some (Ret (sq ?t, []) ())"
    by (simp add: first_round_def update_state_def set_limit_def init_sys_def new_queue_def plain_array_vec_def)
  from does.change_state [where s = ?s1, OF this, THEN does_act] have a: "act ?G (Changed (set_limit 1)) ?s1 ?t"
    by (simp add: plain_array_vec_def init_sys_def new_queue_def batch_cap_def)
  have "in_flight limit_start = 0" by (simp add: limit_start_def)
  from limit_respected [OF plain_queue.queue_deps_axioms _ this l a]
  have "in_flight (state (sq ?t)) \<le> max (in_flight (state (sq ?s1))) (ceiling (state (sq ?t)))"
    by (simp add: set_limit_def)
  with l a show ?thesis by (intro exI [of _ ?s1] exI [of _ ?t]) simp
qed

text \<open>C5. Nobody waits for permits that nobody has. With a state that measures what it hands out, in a state
  where no operation is in progress and none is owed and the queue is open: if the request at the head is one that
  the state grants when everything is back, then some permit is out, held by a caller or parked for a
  future that was notified. So the callers that hold or are offered permits can always move the line.\<close>

theorem never_stuck:
  assumes "queue_deps G V elems" and "budget_state (sem G) units cost cap" and "units s0 \<le> cap"
    and "ledger G units s0 s held" and "\<not> closed (sq s)" and "\<not> owed s" and "frames s = []"
    and "links V (pins (sq s)) = (n, prm, w) # xs"
    and "\<And>p. prm = Some p \<Longrightarrow> units (state (sq s)) = units s0 \<Longrightarrow>
      \<exists>s' a. acquire (sem G) (state (sq s)) p = Returns s' (Inr a)"
  shows "held \<noteq> {#} \<or> (\<exists>n a. removed V (pins (sq s)) n = Some (Inr a) \<and> n \<in> notified s)"
proof (rule ccontr)
  assume none: "\<not> ?thesis"
  have B: "budget_queue G V elems units cost cap" using assms(1,2) by (simp add: budget_queue_def)
  note books = budget_queue.ledger_books [OF B assms(3,4), unfolded books_def]
  note reach = ledger_reachable [OF assms(4)]
  have "n \<in> notified s" if "removed V (pins (sq s)) n = Some r" for n r
    using queue_deps.reachable_sys_inv [OF assms(1) reach] assms(7) that
    by (auto simp: sys_inv_def pending_wakes_def)
  with none have "parked_cost cost (the (removed V (pins (sq s)) n)) = 0" if "n \<in> dom (removed V (pins (sq s)))" for n
    using that by (force simp: parked_cost_def split: sum.splits)
  then have "parked cost (removed V (pins (sq s))) = 0" by (simp add: parked_def sum_over_def)
  with books none have full: "units (state (sq s)) = units s0" by simp
  have "lawful_queue G V elems"
    using assms(1,2) by (simp add: lawful_queue_def budget_state_def)
  from lawful_queue.reachable_conserving [OF this reach] assms(5-8) books
  have "stuck (acquire (sem G)) (state (sq s)) ((n, prm, w) # xs)" by (simp add: conserving_def)
  with assms(9) full show False by (cases prm) auto
qed

theorem never_stuck_witness:
  "\<exists>s. ledger (demo Closeable) uint 3 s {#2 :: 64 word#} \<and>
    links plain_view (pins (sq s)) = [(1, Some 2, 7)] \<and>
    ({#2 :: 64 word#} \<noteq> {#} \<or> (\<exists>n a. lp_taken (pins (sq s)) n = Some (Inr (a :: 64 word)) \<and> n \<in> notified s))"
proof -
  let ?s0 = "init_sys (demo Closeable) 3 Fifo :: (demo_list, 64 word, 64 word, fair_order, nat) sys"
  let ?s1 = "?s0\<lparr>sq := (sq ?s0)\<lparr>state := 1\<rparr>\<rparr>"
  let ?s2 = "?s1\<lparr>futs := [1 \<mapsto> queue_acquire 1 2]\<rparr>"
  let ?q = "demo_queue 1 [(1, Some 2, 7)]"
  let ?s3 = "?s2\<lparr>sq := ?q, futs := [1 \<mapsto> \<lparr>fut_node = 1, fut_params = None\<rparr>], waker_of := [1 \<mapsto> 7], notified := {}\<rparr>"
  have "try_acquire (demo Closeable) 2 True (sq ?s0) = Ret ((sq ?s0)\<lparr>state := 1\<rparr>) (Inr 2)"
    by (simp add: init_sys_def try_acquire_def acquire_or_enqueue_def new_queue_def plain_pin_list_def
        word_le_nat_alt)
  from does.try_return [where s = ?s0, OF this, THEN does_act] have "act (demo Closeable) (Got 2) ?s0 ?s1" by simp
  from ledger_got [OF ledger_start this] have l1: "ledger (demo Closeable) uint 3 ?s1 {#2#}" .
  have "act (demo Closeable) Quiet ?s1 ?s2"
    using does.new_future [where s = ?s1 and n = 1 and p = 2, THEN does_act] by (simp add: init_sys_def)
  from ledger_quiet [OF l1 this] have l2: "ledger (demo Closeable) uint 3 ?s2 {#2#}" .
  have "poll (demo Closeable) 7 (queue_acquire 1 2) (sq ?s2) = Ret (?q, \<lparr>fut_node = 1, fut_params = None\<rparr>) Pending"
    by (simp add: init_sys_def poll_def poll_first_def queue_acquire_def acquire_or_enqueue_def new_queue_def
        plain_pin_list_def demo_queue_def)
  from does.poll_pending [where s = ?s2 and n = 1, OF _ this, THEN does_act] have "act (demo Closeable) Quiet ?s2 ?s3"
    by (simp add: init_sys_def)
  from ledger_quiet [OF l2 this] have l3: "ledger (demo Closeable) uint 3 ?s3 {#2#}" .
  have "budget_state (sem (demo Closeable)) uint uint (2 ^ 64 - 1)"
    unfolding demo_simps by (rule counter.budget_state_axioms)
  then have "{#2 :: 64 word#} \<noteq> {#} \<or> (\<exists>n a. removed plain_view (pins (sq ?s3)) n = Some (Inr a) \<and> n \<in> notified ?s3)"
    by (rule never_stuck [OF demo_deps _ _ l3, where n = 1 and prm = "Some 2" and w = 7 and xs = "[]"])
      (simp_all add: init_sys_def demo_queue_def)
  with l3 show ?thesis by (intro exI [of _ ?s3]) (simp add: demo_queue_def)
qed

end
