(* ===== verification/Example_Mains.thy ===== *)
theory Example_Mains
  imports Aimd Task_Ends Progress
begin

text \<open>
  The \<open>main\<close> functions of the examples \<open>dynamic_limit\<close>, \<open>multi_dimensional\<close> and \<open>aimd\<close> as programs of tasks, and
  that every run of each of them ends as its last line says. Worker \<open>i\<close> of the source, counted from 0, is task
  \<open>i + 1\<close> where the source counts so; what the programs print is what their closures read.
\<close>

section \<open>Code in parts\<close>

lemma spawned_simps [simp]: "spawned [] = {}" "spawned (c @ c') = spawned c \<union> spawned c'"
  "spawned (Spawn i # c) = insert i (spawned c)" "spawned (Join i # c) = spawned c"
  "spawned (WithState f # c) = spawned c" "spawned (Compute g # c) = spawned c"
  by (auto simp: spawned_def)

lemma main_ok_append: "main_ok tu fi body D (c @ c') \<longleftrightarrow> main_ok tu fi body D c \<and> main_ok tu fi body (D \<union> spawned c) c'"
  by (induction tu fi body D c rule: main_ok.induct) (simp_all add: conj_ac)

lemma main_ok_joins: "main_ok tu fi body D (map Join ns) \<longleftrightarrow> set ns \<subseteq> D"
  by (induction ns) auto

lemma spawned_map: "spawned (map Spawn ns) = set ns" "spawned (map Join ns) = {}"
  by (induction ns) simp_all

text \<open>A loop that spawns a worker for each number and may do something of its own in between.\<close>

lemma main_ok_loop:
  assumes "\<And>n D. n \<in> set ns \<Longrightarrow> spawned (r n) = {} \<and> main_ok tu fi body D (r n) \<and> n \<noteq> 0 \<and> worker_ok tu fi False (body n)"
  shows "distinct ns \<Longrightarrow> D \<inter> set ns = {} \<Longrightarrow> main_ok tu fi body D (concat (map (\<lambda>n. Spawn n # r n) ns)) \<and>
    spawned (concat (map (\<lambda>n. Spawn n # r n) ns)) = set ns"
  using assms
proof (induction ns arbitrary: D)
  case (Cons n ns)
  have "main_ok tu fi body (insert n D) (concat (map (\<lambda>n. Spawn n # r n) ns)) \<and>
      spawned (concat (map (\<lambda>n. Spawn n # r n) ns)) = set ns"
    by (rule Cons.IH) (use Cons.prems in auto)
  with Cons.prems(2,3) Cons.prems(1) show ?case by (auto simp: main_ok_append)
qed simp

lemma main_ok_spawns:
  assumes "\<And>n. n \<in> set ns \<Longrightarrow> n \<noteq> 0 \<and> worker_ok tu fi False (body n)" and "distinct ns"
  shows "main_ok tu fi body {} (map Spawn ns)"
  using main_ok_loop [where r = "\<lambda>n. []" and D = "{}", of ns tu fi body] assms by (simp add: concat_map_singleton)

section \<open>dynamic_limit\<close>

text \<open>Twelve workers read how many are in flight while they hold a permit; meanwhile the limit is set to 1.\<close>

definition limit_worker :: "(concurrency_limit, unit, 64 word) op list" where
  "limit_worker = [MustAcquire (), WithState (\<lambda>_ s. Returns s (in_flight s)), Compute id, DropPermit]"

definition limit_main :: "(concurrency_limit, unit, 64 word) op list" where
  "limit_main = map Spawn [1..<13] @ [Compute id, WithState (keep_local (set_limit 1))] @ map Join [1..<13]"

definition limit_out :: "concurrency_limit \<Rightarrow> unit multiset \<Rightarrow> bool" where
  "limit_out s M \<longleftrightarrow> uint (in_flight s) = int (size M) \<and> 0 < ceiling s"

interpretation limit_task: task_state concurrency_limit_state limit_out "\<lambda>_. True"
proof unfold_locales
  fix s s' :: concurrency_limit and M and p q a :: unit
  assume o: "limit_out s M"
  show "acquire concurrency_limit_state s p \<noteq> Panics s'"
    by (rule concurrency_limit.acquire_returns)
  show "limit_out s' (add_mset a M)" if "acquire concurrency_limit_state s p = Returns s' (Inr a)"
    using concurrency_limit.grant_units [OF that] o that
    by (auto simp: limit_out_def concurrency_limit_state_def split: if_splits option.splits)
  show "s' = s \<and> p' = p" if "acquire concurrency_limit_state s p = Returns s' (Inl p')" for p'
    using that by (rule concurrency_limit.refusal)
  show "acquire concurrency_limit_state s' q = Returns s' (Inl q)"
    if "acquire concurrency_limit_state s p = Returns s' (Inr a)" "acquire concurrency_limit_state s q = Returns s (Inl q)"
    using that by (rule concurrency_limit.grant_keeps_refusal)
  show "\<exists>s'. release concurrency_limit_state s a = Returns s' () \<and> limit_out s' (M - {#a#})" if "a \<in># M"
  proof -
    from that have "size M = Suc (size (M - {#a#}))" by (simp add: size_Suc_Diff1)
    moreover from this o have "1 \<le> uint (in_flight s)" by (simp add: limit_out_def)
    from taken_fits [OF this] obtain z where "checked_sub (in_flight s) 1 = Some z" ..
    ultimately show ?thesis
      using o checked_sub_uint [of "in_flight s" 1 z] by (simp add: limit_out_def concurrency_limit_state_def)
  qed
next
  fix s :: concurrency_limit and p :: unit
  assume "limit_out s {#}"
  then have "in_flight s = 0" "0 < ceiling s" by (simp_all add: limit_out_def uint_0_iff)
  then show "\<exists>s' a. acquire concurrency_limit_state s p = Returns s' (Inr a)"
    by (simp add: concurrency_limit_state_def below_no_overflow)
qed

section \<open>multi_dimensional\<close>

text \<open>Six requests reserve one unit and their bytes, of four and 1 MiB.\<close>

definition sizes_kib :: "64 word list" where
  "sizes_kib = [512, 512, 256, 128, 64, 800]"

definition request_task :: "64 word \<Rightarrow> (limits, reservation, 64 word \<times> 64 word) op list" where
  "request_task kib = [MustAcquire \<lparr>bytes = kib * 1024\<rparr>, WithState (\<lambda>_ s. Returns s (requests s, free_bytes s div 1024)),
     Compute id, DropPermit]"

definition request_body :: "nat \<Rightarrow> (limits, reservation, 64 word \<times> 64 word) op list" where
  "request_body i = (if 1 \<le> i \<and> i \<le> length sizes_kib then request_task (sizes_kib ! (i - 1)) else [])"

definition requests_main :: "(limits, reservation, 64 word \<times> 64 word) op list" where
  "requests_main = map Spawn [1..<7] @ map Join [1..<7]"

definition limits_start :: limits where
  "limits_start = \<lparr>requests = 4, free_bytes = 1024 * 1024\<rparr>"

definition limits_out :: "limits \<Rightarrow> reservation multiset \<Rightarrow> bool" where
  "limits_out s M \<longleftrightarrow> uint (requests s) + int (size M) = 4 \<and> uint (free_bytes s) + held_cost (\<lambda>a. uint (bytes a)) M = 2 ^ 20"

interpretation limits_task: task_state limits_state limits_out "\<lambda>p. uint (bytes p) \<le> 2 ^ 20"
proof unfold_locales
  fix s s' :: limits and M and p q a :: reservation
  assume o: "limits_out s M"
  show "acquire limits_state s p \<noteq> Panics s'"
    by (rule limits.acquire_returns)
  show "limits_out s' (add_mset a M)" if "acquire limits_state s p = Returns s' (Inr a)"
    using limit_requests.grant_units [OF that] limit_bytes.grant_units [OF that] o by (simp add: limits_out_def)
  show "s' = s \<and> p' = p" if "acquire limits_state s p = Returns s' (Inl p')" for p'
    using that by (rule limits.refusal)
  show "acquire limits_state s' q = Returns s' (Inl q)"
    if "acquire limits_state s p = Returns s' (Inr a)" "acquire limits_state s q = Returns s (Inl q)"
    using that by (rule limits.grant_keeps_refusal)
  show "\<exists>s'. release limits_state s a = Returns s' () \<and> limits_out s' (M - {#a#})" if a: "a \<in># M"
  proof -
    from a have size: "size M = Suc (size (M - {#a#}))" by (simp add: size_Suc_Diff1)
    have "0 \<le> held_cost (\<lambda>a. uint (bytes a)) (M - {#a#})" by (rule held_nonneg) simp
    with a have cost: "uint (bytes a) \<le> held_cost (\<lambda>a. uint (bytes a)) M" by simp
    have "uint (requests s) + uint (1 :: 64 word) \<le> 2 ^ 64 - 1" "uint (free_bytes s) + uint (bytes a) \<le> 2 ^ 64 - 1"
      using o size cost by (simp_all add: limits_out_def)
    from checked_add_fits [OF this(1)] checked_add_fits [OF this(2)] obtain r b where
      "checked_add (requests s) 1 = Some r" "checked_add (free_bytes s) (bytes a) = Some b" by blast
    with checked_add_uint [OF this(1)] checked_add_uint [OF this(2)] o size a show ?thesis
      by (simp add: limits_state_def limits_release_def limits_out_def)
  qed
next
  fix s :: limits and p :: reservation
  assume "limits_out s {#}" "uint (bytes p) \<le> 2 ^ 20"
  then have "1 \<le> requests s" "bytes p \<le> free_bytes s" by (simp_all add: limits_out_def word_le_def)
  then show "\<exists>s' a. acquire limits_state s p = Returns s' (Inr a)"
    by (simp add: limits_state_def limits_acquire_eq)
qed

section \<open>aimd\<close>

text \<open>Two hundred requests sample the number in flight, call downstream and feed the result back; every fortieth time
  \<open>main\<close> reads the limit. The local variable holds the last number read and the result.\<close>

definition aimd_worker :: "(rat \<Rightarrow> rat) \<Rightarrow> (aimd, unit, 32 word \<times> (unit + unit)) op list" where
  "aimd_worker rnd = [MustAcquire (), WithState (\<lambda>(_, r) s. Returns s (aimd_in_flight s, r)),
     Compute (\<lambda>(concurrency, _). (concurrency, downstream_call concurrency)),
     WithState (\<lambda>(concurrency, r) s. Returns (feedback rnd r s) (concurrency, r)), DropPermit]"

definition read_limit :: "(aimd, unit, 32 word \<times> (unit + unit)) op" where
  "read_limit = WithState (\<lambda>(_, r) s. Returns s (aimd_limit_u32 s, r))"

definition aimd_main :: "(aimd, unit, 32 word \<times> (unit + unit)) op list" where
  "aimd_main = concat (map (\<lambda>n. Spawn n # (if n mod 40 = 0 then [read_limit, Compute id] else [])) [1..<201]) @
     map Join [1..<201] @ [read_limit]"

definition aimd_out :: "(rat \<Rightarrow> rat) \<Rightarrow> aimd \<Rightarrow> unit multiset \<Rightarrow> bool" where
  "aimd_out rnd s M \<longleftrightarrow> aimd_ok rnd s \<and> aimd_min s = 1 \<and> aimd_max s = 50 \<and> uint (aimd_in_flight s) = int (size M)"

lemma aimd_acquire_below: "aimd_out rnd s M \<Longrightarrow> aimd_acquire s p =
    (if f64_from (aimd_in_flight s) < aimd_limit s then Returns (s\<lparr>aimd_in_flight := aimd_in_flight s + 1\<rparr>) (Inr ())
     else Returns s (Inl ()))"
  by (auto simp: aimd_acquire_def aimd_out_def aimd_ok_def f64_from_def uint_max)

lemma aimd_below_max: "aimd_out rnd s M \<Longrightarrow> f64_from (aimd_in_flight s) < aimd_limit s \<Longrightarrow> aimd_in_flight s \<noteq> - 1"
  by (auto simp: aimd_out_def aimd_ok_def f64_from_def uint_max)

sublocale f64_rounding \<subseteq> aimd_task: task_state aimd_state "aimd_out rnd" "\<lambda>_. True"
proof unfold_locales
  fix s s' :: aimd and M and p q a :: unit
  assume o: "aimd_out rnd s M"
  show "acquire aimd_state s p \<noteq> Panics s'"
    by (simp add: aimd_state_def aimd_acquire_below [OF o])
  show "aimd_out rnd s' (add_mset a M)" if "acquire aimd_state s p = Returns s' (Inr a)"
    using that o aimd_below_max [OF o]
    by (auto simp: aimd_state_def aimd_acquire_below [OF o] aimd_out_def aimd_ok_def uint_inc split: if_splits)
  show "s' = s \<and> p' = p" if "acquire aimd_state s p = Returns s' (Inl p')" for p'
    using that by (auto simp: aimd_state_def aimd_acquire_below [OF o] split: if_splits)
  show "acquire aimd_state s' q = Returns s' (Inl q)"
    if "acquire aimd_state s p = Returns s' (Inr a)" "acquire aimd_state s q = Returns s (Inl q)"
    using that by (auto simp: aimd_state_def aimd_acquire_below [OF o] split: if_splits)
  show "\<exists>s'. release aimd_state s a = Returns s' () \<and> aimd_out rnd s' (M - {#a#})" if "a \<in># M"
  proof -
    from that have "size M = Suc (size (M - {#a#}))" by (simp add: size_Suc_Diff1)
    with o have "aimd_in_flight s \<noteq> 0" by (auto simp: aimd_out_def)
    with o \<open>size M = _\<close> show ?thesis
      by (auto simp: aimd_state_def aimd_release_def aimd_out_def aimd_ok_def uint_dec)
  qed
next
  fix s :: aimd and p :: unit
  assume o: "aimd_out rnd s {#}"
  then have "f64_from (aimd_in_flight s) < aimd_limit s" by (simp add: aimd_out_def aimd_ok_def f64_from_def)
  then show "\<exists>s' a. acquire aimd_state s p = Returns s' (Inr a)"
    by (simp add: aimd_state_def aimd_acquire_below [OF o])
qed

section \<open>Properties\<close>

lemma fair_task_queue:
  "queue_deps G V elems \<Longrightarrow> task_state (sem G) out fits \<Longrightarrow> policy G = fair_enqueue_front \<Longrightarrow> task_queue G V elems out fits"
  by (simp add: task_queue_def task_queue_axioms_def fair.decides)

text \<open>The mains keep to the rules.\<close>

lemma limit_main_ok: "main_ok (tunes limit_out) (\<lambda>_. True) (\<lambda>_. limit_worker) {} limit_main \<and> spawned limit_main = {1..12}"
proof -
  have t: "tunes limit_out (\<lambda>_ s. Returns s (in_flight s))" "tunes limit_out (keep_local (set_limit 1))"
    by (auto simp: tunes_def limit_out_def keep_local_def set_limit_def)
  have "main_ok (tunes limit_out) (\<lambda>_. True) (\<lambda>_. limit_worker) {} (map Spawn [1..<13])"
    by (rule main_ok_spawns) (use t in \<open>auto simp: limit_worker_def\<close>)
  with t show ?thesis by (auto simp: limit_main_def main_ok_append main_ok_joins spawned_map simp del: upt_rec_numeral)
qed

lemma requests_main_ok:
  "main_ok (tunes limits_out) (\<lambda>p. uint (bytes p) \<le> 2 ^ 20) request_body {} requests_main \<and> spawned requests_main = {1..6}"
proof -
  have t: "tunes limits_out (\<lambda>_ s. Returns s (requests s, free_bytes s div 1024))"
    by (simp add: tunes_def)
  have "n \<noteq> 0 \<and> worker_ok (tunes limits_out) (\<lambda>p. uint (bytes p) \<le> 2 ^ 20) False (request_body n)" if "n \<in> set [1..<7]" for n
  proof -
    from that have "n \<in> {1, 2, 3, 4, 5, 6}" by auto
    with t show ?thesis by (auto simp: request_body_def request_task_def sizes_kib_def)
  qed
  then have "main_ok (tunes limits_out) (\<lambda>p. uint (bytes p) \<le> 2 ^ 20) request_body {} (map Spawn [1..<7])"
    by (intro main_ok_spawns) simp_all
  then show ?thesis by (auto simp: requests_main_def main_ok_append main_ok_joins spawned_map simp del: upt_rec_numeral)
qed

context f64_rounding
begin

lemma aimd_tasks: "task_state aimd_state (aimd_out rnd) (\<lambda>_. True)"
  by (rule aimd_task.task_state_axioms)

lemma feedback_out: "aimd_out rnd s M \<Longrightarrow> aimd_out rnd (feedback rnd r s) M"
  using feedback_ok [of s r]
  by (cases r) (auto simp: aimd_out_def feedback_def on_success_def on_failure_def)

lemma aimd_main_ok:
  "main_ok (tunes (aimd_out rnd)) (\<lambda>_. True) (\<lambda>_. aimd_worker rnd) {} aimd_main \<and> spawned aimd_main = {1..200}"
proof -
  let ?r = "\<lambda>n. if n mod 40 = 0 then [read_limit, Compute id] else []"
  let ?ok = "main_ok (tunes (aimd_out rnd)) (\<lambda>_. True) (\<lambda>_. aimd_worker rnd)"
  have t: "tunes (aimd_out rnd) (\<lambda>(_, r) s. Returns s (aimd_in_flight s, r))"
    "tunes (aimd_out rnd) (\<lambda>(concurrency, r) s. Returns (feedback rnd r s) (concurrency, r))"
    "tunes (aimd_out rnd) (\<lambda>(_, r) s. Returns s (aimd_limit_u32 s, r))"
    by (auto simp: tunes_def feedback_out)
  have "?ok {} (concat (map (\<lambda>n. Spawn n # ?r n) [1..<201])) \<and> spawned (concat (map (\<lambda>n. Spawn n # ?r n) [1..<201])) = set [1..<201]"
    by (rule main_ok_loop) (use t in \<open>auto simp: aimd_worker_def read_limit_def simp del: upt_rec_numeral\<close>)
  moreover have "?ok D [read_limit]" "spawned [read_limit] = {}" for D using t(3) by (simp_all add: read_limit_def)
  ultimately have "?ok {} aimd_main \<and> spawned aimd_main = set [1..<201]"
    unfolding aimd_main_def main_ok_append main_ok_joins spawned_simps spawned_map by blast
  moreover have "set [1..<201] = {1..200 :: nat}" by (simp add: atLeastLessThanSuc_atLeastAtMost [symmetric] del: upt_rec_numeral)
  ultimately show ?thesis by simp
qed

end

text \<open>How long their runs can be.\<close>

lemma code_weight_append [simp]: "code_weight body (c @ c') = code_weight body c + code_weight body c'"
  by (simp add: code_weight_def)

lemma code_weight_loop: "code_weight body (concat (map (\<lambda>n. Spawn n # r n) ns)) =
    (\<Sum>n\<leftarrow>ns. 1 + body_weight (body n) + code_weight body (r n))"
  by (induction ns) simp_all

lemma code_weight_spawns: "code_weight body (map Spawn ns) = (\<Sum>n\<leftarrow>ns. 1 + body_weight (body n))"
  by (induction ns) simp_all

lemma code_weight_joins: "code_weight body (map Join ns) = length ns"
  by (induction ns) simp_all

lemma limit_main_weight: "code_weight (\<lambda>_. limit_worker) limit_main = 233"
  unfolding limit_main_def code_weight_append code_weight_spawns code_weight_joins
  by (simp add: limit_worker_def body_weight_def sum_list_triv)

lemma requests_main_weight: "code_weight request_body requests_main = 114"
  unfolding requests_main_def code_weight_append code_weight_spawns code_weight_joins
  by (simp add: upt_conv_Cons request_body_def request_task_def sizes_kib_def body_weight_def)

lemma aimd_main_weight: "code_weight (\<lambda>_. aimd_worker rnd) aimd_main = 4629"
proof -
  have "code_weight (\<lambda>_. aimd_worker rnd) aimd_main =
      (\<Sum>n\<leftarrow>[1..<201]. 22 + (if n mod 40 = 0 then 5 else 0)) + 204"
    unfolding aimd_main_def code_weight_append code_weight_loop code_weight_joins
    by (simp add: aimd_worker_def body_weight_def read_limit_def if_distrib cong: if_cong del: upt_rec_numeral)
  moreover have "(\<Sum>n\<leftarrow>[1..<201]. 22 + (if n mod 40 = 0 then 5 else 0)) = (4425 :: nat)"
    by code_simp
  ultimately show ?thesis by simp
qed

text \<open>The first step of a main that spawns.\<close>

lemma first_spawn:
  assumes "c = Spawn i # c'" and "i \<noteq> 0"
  shows "(task_step G body x0 ^^ 1) (main_start G c x0 s ord)
    (main_start G c x0 s ord\<lparr>tasks := [0 \<mapsto> new_task c' x0, i \<mapsto> new_task (body i) x0]\<rparr>)"
proof -
  have "task_step G body x0 (main_start G c x0 s ord)
    (main_start G c x0 s ord\<lparr>tasks := (tasks (main_start G c x0 s ord))
      (0 \<mapsto> (new_task c x0)\<lparr>code := c'\<rparr>, i \<mapsto> new_task (body i) x0)\<rparr>)"
    by (rule task_step.spawn) (use assms in \<open>simp_all add: main_start_def new_task_def\<close>)
  then show ?thesis unfolding relpowp_1 by (simp add: main_start_def new_task_def)
qed

text \<open>C8. The example \<open>dynamic_limit\<close> runs to its last line. In every interleaving of its tasks no task panics, the run has at
  most 233 steps, and when no step is left the twelve workers have run, with the limit lowered under them, and
  nothing is in flight.\<close>

theorem dynamic_limit_finishes:
  assumes "queue_deps G V elems" and "sem G = concurrency_limit_state" and "policy G = fair_enqueue_front"
    and "(task_step G (\<lambda>_. limit_worker) x0 ^^ k) (main_start G limit_main x0 limit_start Fifo) P"
  shows "k \<le> 233 \<and> (\<forall>n t. tasks P n = Some t \<longrightarrow> \<not> panicked t) \<and>
    ((\<forall>P'. \<not> task_step G (\<lambda>_. limit_worker) x0 P P') \<longrightarrow>
      dom (tasks P) = {0..12} \<and> (\<forall>n t. tasks P n = Some t \<longrightarrow> finished t) \<and> in_flight (state (pq P)) = 0)"
proof -
  have Q: "task_queue G V elems limit_out (\<lambda>_. True)"
    by (rule fair_task_queue [OF assms(1) _ assms(3)]) (simp add: assms(2) limit_task.task_state_axioms)
  have "limit_out limit_start {#}" by (simp add: limit_out_def limit_start_def)
  from main_runs [OF Q this conjunct1 [OF limit_main_ok] assms(4)] limit_main_ok limit_main_weight
  show ?thesis by (auto simp: limit_out_def uint_0_iff)
qed

theorem dynamic_limit_finishes_witness:
  "\<exists>P. (task_step (plain_generics concurrency_limit_state fair_enqueue_front Uncloseable) (\<lambda>_. limit_worker) 0 ^^ 1)
      (main_start (plain_generics concurrency_limit_state fair_enqueue_front Uncloseable) limit_main 0 limit_start Fifo)
      (P :: (demo_limit_list, concurrency_limit, unit, fair_order, unit, 64 word) prog) \<and>
    dom (tasks P) = {0, 1} \<and> (\<forall>n t. tasks P n = Some t \<longrightarrow> \<not> panicked t)"
proof -
  let ?G = "plain_generics concurrency_limit_state fair_enqueue_front Uncloseable ::
    (demo_limit_list, nat list, concurrency_limit, unit, unit, fair_order, nat) generics"
  obtain c where c: "limit_main = Spawn 1 # c" using that by (simp add: limit_main_def upt_conv_Cons)
  obtain P where P: "(task_step ?G (\<lambda>_. limit_worker) 0 ^^ 1) (main_start ?G limit_main 0 limit_start Fifo) P" "dom (tasks P) = {0, 1}"
    by (rule that [OF first_spawn [OF c one_neq_zero]]) auto
  have "\<forall>n t. tasks P n = Some t \<longrightarrow> \<not> panicked t"
    by (rule conjunct1 [OF conjunct2 [OF dynamic_limit_finishes [OF plain_queue.queue_deps_axioms _ _ P(1)]]]) simp_all
  with P show ?thesis by (intro exI conjI)
qed

text \<open>C9. The example \<open>multi_dimensional\<close> runs to its last line, in every interleaving: all six requests are served, none of
  them panics, and at the end the four units and the 1 MiB are back. At most 114 steps are made.\<close>

theorem requests_all_served:
  assumes "queue_deps G V elems" and "sem G = limits_state" and "policy G = fair_enqueue_front"
    and "(task_step G request_body x0 ^^ k) (main_start G requests_main x0 limits_start Fifo) P"
  shows "k \<le> 114 \<and> (\<forall>n t. tasks P n = Some t \<longrightarrow> \<not> panicked t) \<and>
    ((\<forall>P'. \<not> task_step G request_body x0 P P') \<longrightarrow>
      dom (tasks P) = {0..6} \<and> (\<forall>n t. tasks P n = Some t \<longrightarrow> finished t) \<and> state (pq P) = limits_start)"
proof -
  have Q: "task_queue G V elems limits_out (\<lambda>p. uint (bytes p) \<le> 2 ^ 20)"
    by (rule fair_task_queue [OF assms(1) _ assms(3)]) (use limits_task.task_state_axioms in \<open>simp add: assms(2)\<close>)
  have "limits_out limits_start {#}" by (simp add: limits_out_def limits_start_def)
  from main_runs [OF Q this conjunct1 [OF requests_main_ok] assms(4)] requests_main_ok requests_main_weight
  show ?thesis by (auto simp: limits_out_def limits_start_def word_uint_eq_iff)
qed

type_synonym limits_list = "((reservation, nat) waiting, (reservation, reservation) removal) plain_list"

theorem requests_all_served_witness:
  "\<exists>P. (task_step (plain_generics limits_state fair_enqueue_front Uncloseable) request_body (0, 0) ^^ 1)
      (main_start (plain_generics limits_state fair_enqueue_front Uncloseable) requests_main (0, 0) limits_start Fifo)
      (P :: (limits_list, limits, reservation, fair_order, reservation, 64 word \<times> 64 word) prog) \<and>
    dom (tasks P) = {0, 1} \<and> (\<forall>n t. tasks P n = Some t \<longrightarrow> \<not> panicked t)"
proof -
  let ?G = "plain_generics limits_state fair_enqueue_front Uncloseable ::
    (limits_list, nat list, limits, reservation, reservation, fair_order, nat) generics"
  obtain c where c: "requests_main = Spawn 1 # c" using that by (simp add: requests_main_def upt_conv_Cons)
  obtain P where P: "(task_step ?G request_body (0, 0) ^^ 1) (main_start ?G requests_main (0, 0) limits_start Fifo) P" "dom (tasks P) = {0, 1}"
    by (rule that [OF first_spawn [OF c one_neq_zero]]) auto
  have "\<forall>n t. tasks P n = Some t \<longrightarrow> \<not> panicked t"
    by (rule conjunct1 [OF conjunct2 [OF requests_all_served [OF plain_queue.queue_deps_axioms _ _ P(1)]]]) simp_all
  with P show ?thesis by (intro exI conjI)
qed

text \<open>C10. The example \<open>aimd\<close> runs to its last line, in every interleaving and with every correctly rounding arithmetic:
  two hundred requests run, whichever of them fail, none panics, and at the end nothing is in flight and the limit is
  between 1 and 50. At most 4629 steps are made.\<close>

theorem aimd_main_finishes:
  assumes "f64_rounding rnd" and "rnd 1 = 1" and "rnd 4 = 4" and "rnd 50 = 50" and "queue_deps G V elems" and "sem G = aimd_state" and "policy G = fair_enqueue_front"
    and "(task_step G (\<lambda>_. aimd_worker rnd) x0 ^^ k) (main_start G aimd_main x0 aimd_start Fifo) P"
  shows "k \<le> 4629 \<and> (\<forall>n t. tasks P n = Some t \<longrightarrow> \<not> panicked t) \<and>
    ((\<forall>P'. \<not> task_step G (\<lambda>_. aimd_worker rnd) x0 P P') \<longrightarrow>
      dom (tasks P) = {0..200} \<and> (\<forall>n t. tasks P n = Some t \<longrightarrow> finished t) \<and>
      aimd_in_flight (state (pq P)) = 0 \<and> 1 \<le> aimd_limit (state (pq P)) \<and> aimd_limit (state (pq P)) \<le> 50)"
proof -
  have Q: "task_queue G V elems (aimd_out rnd) (\<lambda>_. True)"
    by (rule fair_task_queue [OF assms(5) _ assms(7)])
      (use f64_rounding.aimd_tasks [OF assms(1)] in \<open>simp add: assms(6)\<close>)
  have "aimd_out rnd aimd_start {#}" using assms(2-4) by (simp add: aimd_out_def aimd_ok_def aimd_start_def f64_value_def)
  from main_runs [OF Q this conjunct1 [OF f64_rounding.aimd_main_ok [OF assms(1)]] assms(8)]
    f64_rounding.aimd_main_ok [OF assms(1)] aimd_main_weight [of rnd]
  show ?thesis by (auto simp: aimd_out_def aimd_ok_def uint_0_iff)
qed

theorem aimd_main_finishes_witness:
  "\<exists>P. (task_step (plain_generics aimd_state fair_enqueue_front Uncloseable) (\<lambda>_. aimd_worker round53) (0, Inl ()) ^^ 1)
      (main_start (plain_generics aimd_state fair_enqueue_front Uncloseable) aimd_main (0, Inl ()) aimd_start Fifo)
      (P :: (demo_limit_list, aimd, unit, fair_order, unit, 32 word \<times> (unit + unit)) prog) \<and>
    dom (tasks P) = {0, 1} \<and> (\<forall>n t. tasks P n = Some t \<longrightarrow> \<not> panicked t)"
proof -
  let ?G = "plain_generics aimd_state fair_enqueue_front Uncloseable ::
    (demo_limit_list, nat list, aimd, unit, unit, fair_order, nat) generics"
  have r: "round53 1 = 1" "round53 4 = 4" "round53 50 = 50"
    using round53_exact [of 1 1 0] round53_exact [of 4 4 0] round53_exact [of 50 50 0] by simp_all
  obtain c where c: "aimd_main = Spawn 1 # c" using that by (simp add: aimd_main_def upt_conv_Cons)
  obtain P where P: "(task_step ?G (\<lambda>_. aimd_worker round53) (0, Inl ()) ^^ 1) (main_start ?G aimd_main (0, Inl ()) aimd_start Fifo) P" "dom (tasks P) = {0, 1}"
    by (rule that [OF first_spawn [OF c one_neq_zero]]) auto
  have "\<forall>n t. tasks P n = Some t \<longrightarrow> \<not> panicked t"
    by (rule conjunct1 [OF conjunct2 [OF aimd_main_finishes [OF f64.f64_rounding_axioms r plain_queue.queue_deps_axioms _ _ P(1)]]]) simp_all
  with P show ?thesis by (intro exI conjI)
qed

end
