(* ===== verification/Acquire_Properties.thy ===== *)
theory Acquire_Properties
  imports Queue_Properties Semaphore
begin

text \<open>
  The properties of acquiring: which waiter may try and where it joins, how a parked permit is
  claimed or given back, and what poison does.
\<close>

section \<open>Who may try\<close>

lemma fair_policy: "policy G = fair_enqueue_front \<Longrightarrow> policy G ord k = Returns ord (ord = Lifo)"
  by (simp add: fair.decides)

text \<open>C18. A FIFO queue has no barging: while anyone waits, a fair \<open>try_acquire\<close> is refused with its
  params and the state is not even asked, and a new \<open>acquire\<close> joins the back of the list untried.\<close>

theorem fifo_no_barging:
  assumes "queue_deps G V elems" and "queue_inv G V q" and "\<not> poisoned q" and "\<not> closed q"
    and "policy G = fair_enqueue_front" and "order q = Fifo" and "links V (pins q) \<noteq> []"
    and "\<not> pl_initialized (pl G) (pins q) (fut_node fut)" and "fut_params fut = Some p"
  shows "try_acquire G p True q = Ret q (Inl (NoPermits p)) \<and>
    (\<exists>q'. poll G cx fut q = Ret (q', fut\<lparr>fut_params := None\<rparr>) Pending \<and> state q' = state q \<and>
      links V (pins q') = links V (pins q) @ [(fut_node fut, Some p, cx)] \<and>
      removed V (pins q') = removed V (pins q))"
proof -
  have "q\<lparr>order := Fifo\<rparr> = q" using assms(6) by (cases q) simp
  then have a: "acquire_or_enqueue G p True q = Ret q (Enqueue False p)"
    using queue_deps.acquire_open [OF assms(1-4), of p True] assms(5-7) by simp
  note fresh = assms(8) [unfolded queue_deps.initialized_iff [OF assms(1,2)]]
  from a show ?thesis
    using queue_deps.open_queue [OF assms(1,2,4)] assms(8,9) fresh
      queue_deps.poll_push [OF assms(1,2,4), of "fut_node fut" False "(Some p, cx)"]
    by (simp add: try_acquire_def poll_def poll_first_def Let_def)
qed

theorem fifo_no_barging_witness:
  "try_acquire (demo Closeable) 1 True (demo_queue 9 demo_waiting) =
      Ret (demo_queue 9 demo_waiting) (Inl (NoPermits 1)) \<and>
    (\<exists>q'. poll (demo Closeable) 14 (queue_acquire 4 1) (demo_queue 9 demo_waiting) =
        Ret (q', \<lparr>fut_node = 4, fut_params = None\<rparr>) Pending \<and>
      lp_links (pins q') = demo_waiting @ [(4, Some 1, 14)])"
  using fifo_no_barging [OF demo_deps demo_inv demo_queue_simps(4,5), of Closeable 9
      "queue_acquire 4 1" 1 14]
  by (auto simp: queue_acquire_def plain_pin_list_def demo_queue_def demo_waiting_def)

text \<open>A LIFO queue lets the newest request try although others wait: it takes a permit at once if the
  state grants it, leaving the list alone, and joins the front, ahead of the others, if it is refused.\<close>

theorem lifo_newest_first:
  assumes "queue_deps G V elems" and "queue_inv G V q" and "\<not> poisoned q" and "\<not> closed q"
    and "policy G = fair_enqueue_front" and "order q = Lifo"
    and "\<not> pl_initialized (pl G) (pins q) (fut_node fut)" and "fut_params fut = Some p"
  shows "(\<forall>s a. acquire (sem G) (state q) p = Returns s (Inr a) \<longrightarrow>
      poll G cx fut q = Ret (q\<lparr>state := s\<rparr>, fut\<lparr>fut_params := None\<rparr>) (Ready (Inr a))) \<and>
    (\<forall>s p'. acquire (sem G) (state q) p = Returns s (Inl p') \<longrightarrow>
      (\<exists>q'. poll G cx fut q = Ret (q', fut\<lparr>fut_params := None\<rparr>) Pending \<and> state q' = s \<and>
        links V (pins q') = (fut_node fut, Some p', cx) # links V (pins q)))"
proof -
  have eq: "q\<lparr>order := Lifo\<rparr> = q" "q\<lparr>order := Lifo, state := s\<rparr> = q\<lparr>state := s\<rparr>" for s
    using assms(6) by (cases q; simp)+
  note a = queue_deps.acquire_open [OF assms(1-4), of p True]
  note fresh = assms(7) [unfolded queue_deps.initialized_iff [OF assms(1,2)]]
  show ?thesis
    using a assms(5-8) eq fresh queue_deps.open_queue [OF assms(1,2,4)]
      queue_deps.poll_push [OF assms(1,2,4), of "fut_node fut" True "(p', cx)" for p']
    by (simp add: poll_def poll_first_def Let_def)
qed

theorem lifo_newest_first_witness:
  "poll (demo Closeable) 14 (queue_acquire 4 1) (demo_queue 1 demo_waiting\<lparr>order := Lifo\<rparr>) =
    Ret (demo_queue 1 demo_waiting\<lparr>order := Lifo, state := 0\<rparr>, \<lparr>fut_node = 4, fut_params = None\<rparr>) (Ready (Inr 1))"
proof -
  have "queue_inv (demo Closeable) plain_view (demo_queue 1 demo_waiting\<lparr>order := Lifo\<rparr>)"
    using demo_inv [of Closeable 1] by (simp add: queue_inv_def)
  from lifo_newest_first [OF demo_deps this, of "queue_acquire 4 1" 1 14]
  show ?thesis
    by (simp add: queue_acquire_def plain_pin_list_def demo_queue_def demo_waiting_def)
qed

text \<open>C19. The hybrid order is FIFO up to its threshold and LIFO above it: a new request that the state
  refuses joins the back while at most \<open>lifo_above\<close> others wait, and the front once more do.\<close>

theorem hybrid_switches:
  assumes "queue_deps G V elems" and "queue_inv G V q" and "\<not> poisoned q" and "\<not> closed q"
    and "policy G = hybrid_enqueue_front" and "acquire (sem G) (state q) p = Returns (state q) (Inl p)"
    and "\<not> pl_initialized (pl G) (pins q) (fut_node fut)" and "fut_params fut = Some p"
  shows "\<exists>q'. poll G cx fut q = Ret (q', fut\<lparr>fut_params := None\<rparr>) Pending \<and>
    links V (pins q') =
      (if length (links V (pins q)) \<le> lifo_above (order q)
       then links V (pins q) @ [(fut_node fut, Some p, cx)]
       else (fut_node fut, Some p, cx) # links V (pins q))"
proof -
  have len: "len q = length (links V (pins q))" using assms(2) by (simp add: queue_inv_def)
  have eq: "q\<lparr>order := order q\<rparr> = q" "q\<lparr>order := order q, state := state q\<rparr> = q"
    by (cases q; simp)+
  let ?front = "lifo_above (order q) < len q"
  have a: "acquire_or_enqueue G p True q = Ret q (Enqueue ?front p)"
    using queue_deps.acquire_open [OF assms(1-4), of p True] assms(5,6) eq by simp
  note fresh = assms(7) [unfolded queue_deps.initialized_iff [OF assms(1,2)]]
  show ?thesis
    using a assms(7,8) fresh queue_deps.open_queue [OF assms(1,2,4)] len
      queue_deps.poll_push [OF assms(1,2,4), of "fut_node fut" ?front "(Some p, cx)"]
    by (auto simp: poll_def poll_first_def Let_def)
qed

definition demo_hybrid :: "(demo_list, nat list, 64 word, 64 word, 64 word, Queue_Order.hybrid, nat) generics" where
  "demo_hybrid = plain_generics semaphore_counter hybrid_enqueue_front Closeable"

theorem hybrid_switches_witness:
  "\<exists>q'. poll demo_hybrid 14 (queue_acquire 4 1)
      \<lparr>queue = Open, pins = \<lparr>lp_links = demo_waiting, lp_removed = []\<rparr>, poisoned = False, closed = False,
       len = 3, order = \<lparr>lifo_above = 2\<rparr>, state = 0\<rparr> = Ret (q', \<lparr>fut_node = 4, fut_params = None\<rparr>) Pending \<and>
    lp_links (pins q') = (4, Some 1, 14) # demo_waiting"
proof -
  let ?q = "\<lparr>queue = Open, pins = \<lparr>lp_links = demo_waiting, lp_removed = []\<rparr>, poisoned = False, closed = False,
       len = 3, order = \<lparr>lifo_above = 2\<rparr>, state = 0\<rparr>"
  have "queue_inv demo_hybrid plain_view ?q"
    by (simp add: queue_inv_def lp_wf_def lp_taken_def demo_waiting_def)
  from hybrid_switches [OF _ this, where elems = "\<lambda>v. v" and fut = "queue_acquire 4 1" and p = 1 and cx = 14]
  show ?thesis
    by (simp add: demo_hybrid_def plain_queue.queue_deps_axioms queue_acquire_def plain_pin_list_def demo_waiting_def)
qed

section \<open>Claiming and giving back\<close>

text \<open>A queue in which waiter 1 was granted 3 permits and has not claimed them, while 2 and 3 wait.\<close>

definition demo_granted :: "64 word \<Rightarrow> (demo_list, 64 word, fair_order) queue_state" where
  "demo_granted s = demo_queue s (tl demo_waiting)\<lparr>pins :=
     \<lparr>lp_links = tl demo_waiting, lp_removed = [(1, Inr 3)]\<rparr>\<rparr>"

lemma demo_granted_simps [simp]:
  "lp_links (pins (demo_granted s)) = tl demo_waiting" "state (demo_granted s) = s"
  "lp_taken (pins (demo_granted s)) = [1 \<mapsto> Inr 3]" "\<not> poisoned (demo_granted s)" "\<not> closed (demo_granted s)"
  by (auto simp: demo_granted_def lp_taken_def)

lemma demo_granted_inv: "queue_inv (demo Closeable) plain_view (demo_granted s)"
  by (simp add: queue_inv_def demo_granted_def demo_queue_def demo_waiting_def lp_wf_def lp_taken_def)

text \<open>C21. A permit parked in a waiter's node is delivered by the next poll of that waiter, even if the
  queue was closed or poisoned since; the poll takes it out of the node, so it is delivered once, and
  changes nothing else.\<close>

theorem poll_claims_permit:
  assumes "queue_deps G V elems" and "queue_inv G V q" and "removed V (pins q) (fut_node fut) = Some (Inr a)"
  shows "\<exists>m. poll G cx fut q = Ret (q\<lparr>pins := m\<rparr>, fut) (Ready (Inr a)) \<and>
    links V m = links V (pins q) \<and> removed V m = (removed V (pins q))(fut_node fut := None) \<and>
    queue_inv G V (q\<lparr>pins := m\<rparr>)"
  by (rule queue_deps.poll_removed_result [OF assms])
    (auto simp: queue_deps.poll_removed_eq [OF assms])

theorem poll_claims_permit_witness:
  "\<exists>m. poll (demo Closeable) 14 \<lparr>fut_node = 1, fut_params = None\<rparr> (demo_granted 0) =
      Ret (demo_granted 0\<lparr>pins := m\<rparr>, \<lparr>fut_node = 1, fut_params = None\<rparr>) (Ready (Inr 3)) \<and>
    lp_links m = tl demo_waiting \<and> lp_taken m 1 = None"
  using poll_claims_permit [OF demo_deps demo_granted_inv, of 0 "\<lparr>fut_node = 1, fut_params = None\<rparr>" 3 14]
  by auto

text \<open>C22. A future is finished once: after a poll that was ready or panicked its node is in the initial
  state again, so dropping the future leaves the queue alone, and in particular releases no permit that
  was already delivered.\<close>

theorem poll_finishes_once:
  assumes "queue_deps G V elems" and "queue_inv G V q"
    and "poll G cx fut q = Ret (q', fut') (Ready r) \<or> poll G cx fut q = Unwind (q', fut')"
  shows "drop_acquire G run fut' q' = Some (Ret (q', []) None)"
proof -
  from queue_deps.poll_done [OF assms] have q': "queue_inv G V q'" "fut_node fut' = fut_node fut" by simp_all
  with queue_deps.poll_done_initial [OF assms] queue_deps.initialized_iff [OF assms(1) q'(1)]
  show ?thesis by (simp add: drop_acquire_def)
qed

theorem poll_finishes_once_witness:
  "\<exists>m. poll (demo Closeable) 14 \<lparr>fut_node = 1, fut_params = None\<rparr> (demo_granted 0) =
      Ret (demo_granted 0\<lparr>pins := m\<rparr>, \<lparr>fut_node = 1, fut_params = None\<rparr>) (Ready (Inr 3)) \<and>
    drop_acquire (demo Closeable) schedule_only \<lparr>fut_node = 1, fut_params = None\<rparr> (demo_granted 0\<lparr>pins := m\<rparr>) =
      Some (Ret (demo_granted 0\<lparr>pins := m\<rparr>, []) None)"
proof -
  let ?f = "\<lparr>fut_node = 1, fut_params = None\<rparr>"
  have "removed plain_view (pins (demo_granted 0)) (fut_node ?f) = Some (Inr 3)" by simp
  from queue_deps.poll_removed_result [OF demo_deps demo_granted_inv this]
    queue_deps.poll_removed_eq [OF demo_deps demo_granted_inv this]
  obtain m where "poll (demo Closeable) 14 ?f (demo_granted 0) = Ret (demo_granted 0\<lparr>pins := m\<rparr>, ?f) (Ready (Inr 3))"
    by auto
  with poll_finishes_once [OF demo_deps demo_granted_inv disjI1 [OF this], where run = schedule_only]
  show ?thesis by blast
qed

text \<open>C23. Dropping a future whose permit was granted but never claimed gives the permit back and serves
  the waiters with it: the state is the one after \<open>release\<close> and one pass over the list.\<close>

theorem drop_returns_permit:
  assumes "queue_deps G V elems" and "inert run" and "queue_inv G V q" and "\<not> poisoned q" and "\<not> closed q"
    and "removed V (pins q) (fut_node fut) = Some (Inr a)" and "release (sem G) (state q) a = Returns s1 u"
    and "serve_all (acquire (sem G)) s1 (links V (pins q)) = (s', rest, gs, b)"
  shows "\<exists>q'. drop_acquire G run fut q =
      Some (if b then Unwind (q', grant_wakers gs) else Ret (q', grant_wakers gs) None) \<and>
    queue_inv G V q' \<and> state q' = s' \<and> links V (pins q') = rest \<and>
    removed V (pins q') = park ((removed V (pins q))(fut_node fut := None)) gs"
  by (rule queue_deps.drop_parked [OF assms(1-8)]) blast

lemma counter_release: "unat s + unat p < 2 ^ 64 \<Longrightarrow> release semaphore_counter s p = Returns (s + p) ()"
  by (simp add: semaphore_counter_def checked_add_def)

theorem drop_returns_permit_witness:
  "\<exists>q'. drop_acquire (demo Closeable) schedule_only \<lparr>fut_node = 1, fut_params = None\<rparr> (demo_granted 0) =
      Some (Ret (q', [12, 13]) None) \<and> state q' = 0 \<and> lp_links (pins q') = []"
proof -
  have "serve_all (acquire (sem (demo Closeable))) 3 (links plain_view (pins (demo_granted 0))) =
    (0, [], [(2, 2, 12), (3, 1, 13)], False)"
    by (simp add: serve_all_def demo_waiting_def)
  moreover have "release (sem (demo Closeable)) (state (demo_granted 0)) 3 = Returns 3 ()"
    using counter_release [of 0 3] by simp
  ultimately show ?thesis
    using drop_returns_permit [OF demo_deps schedule_only_inert demo_granted_inv,
        of 0 "\<lparr>fut_node = 1, fut_params = None\<rparr>" 3 3 "()" 0 "[]" "[(2, 2, 12), (3, 1, 13)]" False]
    by auto
qed

text \<open>C24. Cancelling a waiter, also one at the head that blocked the others, removes exactly its node and
  then serves the waiters that are left; the abandoned params and waker come back to the caller, to
  be dropped after the mutex was released.\<close>

theorem drop_waiter_unblocks:
  assumes "queue_deps G V elems" and "inert run" and "queue_inv G V q" and "\<not> poisoned q" and "\<not> closed q"
    and "links V (pins q) = xs @ (fut_node fut, d) # ys"
    and "serve_all (acquire (sem G)) (state q) (xs @ ys) = (s', rest, gs, b)"
  shows "\<exists>q'. drop_acquire G run fut q =
      Some (if b then Unwind (q', grant_wakers gs) else Ret (q', grant_wakers gs) (Some (Linked d))) \<and>
    queue_inv G V q' \<and> state q' = s' \<and> links V (pins q') = rest \<and>
    removed V (pins q') = park (removed V (pins q)) gs"
  by (rule queue_deps.drop_waiting [OF assms(1-7)]) blast

theorem drop_waiter_unblocks_witness:
  "\<exists>q'. drop_acquire (demo Closeable) schedule_only \<lparr>fut_node = 1, fut_params = None\<rparr> (demo_queue 2 demo_waiting) =
      Some (Ret (q', [12]) (Some (Linked (Some 3, 11)))) \<and> state q' = 0 \<and>
      lp_links (pins q') = [(3, Some 1, 13)]"
proof -
  have "serve_all (acquire (sem (demo Closeable))) (state (demo_queue 2 demo_waiting)) ([] @ tl demo_waiting) =
    (0, [(3, Some 1, 13)], [(2, 2, 12)], False)"
    by (simp add: serve_all_def demo_waiting_def)
  with drop_waiter_unblocks [OF demo_deps schedule_only_inert demo_inv, of 2 "[]"
      "\<lparr>fut_node = 1, fut_params = None\<rparr>" "(Some 3, 11)" "tl demo_waiting" Closeable 0 "[(3, Some 1, 13)]"
      "[(2, 2, 12)]" False]
  show ?thesis by (auto simp: demo_waiting_def)
qed

end
