(* ===== verification/Random_Order.thy ===== *)
theory Random_Order
  imports Float64 Acquire_Properties
begin

text \<open>
  \<open>Random\<close> of flag-bearer-tests/src/lib.rs, an order from outside the crates: a new waiter joins the front
  with a probability that grows with the length of the queue. The exponential of the mathematical library
  and the generator of the crate \<open>rand\<close> are parameters, with what their documentation says of them.
\<close>

section \<open>The parameters\<close>

text \<open>\<open>f64::exp\<close>, where \<open>None\<close> is infinity: it is never negative, and it lies on the same side of one as
  the exponential does.\<close>

type_synonym exp_fun = "rat \<Rightarrow> rat option"

definition exp_contract :: "exp_fun \<Rightarrow> bool" where
  "exp_contract exp64 \<longleftrightarrow> (\<forall>x e. exp64 x = Some e \<longrightarrow> 0 \<le> e \<and> (0 \<le> x \<longrightarrow> 1 \<le> e)) \<and>
     (\<forall>x. x \<le> 0 \<longrightarrow> (\<exists>e. exp64 x = Some e \<and> e \<le> 1))"

text \<open>\<open>random_bool\<close> maps a generator and a probability to the generator's new state and an answer. It
  panics unless the probability is between 0 and 1, both included.\<close>

type_synonym 'r random_bool = "'r \<Rightarrow> rat \<Rightarrow> ('r, bool) call"

definition random_contract :: "'r random_bool \<Rightarrow> bool" where
  "random_contract rb \<longleftrightarrow> (\<forall>r p. 0 \<le> p \<and> p \<le> 1 \<longrightarrow> (\<exists>r' b. rb r p = Returns r' b))"

section \<open>The order\<close>

record 'r random =
  midpoint :: rat
  steepness :: rat
  rng :: 'r

text \<open>\<open>queued as f64\<close> rounds. The generator of \<open>new\<close> comes from a fixed seed.\<close>

definition random_new :: "(rat \<Rightarrow> rat) \<Rightarrow> 'r \<Rightarrow> nat \<Rightarrow> 'r random" where
  "random_new rnd seeded m = (let mid = rnd (of_nat m)
     in \<lparr>midpoint = mid, steepness = (if mid > 0 then rnd (4 / mid) else 1), rng = seeded\<rparr>)"

definition p_front :: "(rat \<Rightarrow> rat) \<Rightarrow> exp_fun \<Rightarrow> 'r random \<Rightarrow> nat \<Rightarrow> rat" where
  "p_front rnd exp64 self queued =
    (let x = rnd (steepness self * rnd (rnd (of_nat queued) - midpoint self))
     in case exp64 (- x) of
       None \<Rightarrow> 0
     | Some e \<Rightarrow> rnd (1 / rnd (1 + e)))"

definition random_enqueue_front :: "(rat \<Rightarrow> rat) \<Rightarrow> exp_fun \<Rightarrow> 'r random_bool \<Rightarrow> 'r random order_policy" where
  "random_enqueue_front rnd exp64 rb self queued =
    (case rb (rng self) (p_front rnd exp64 self queued) of
      Returns r front \<Rightarrow> Returns (self\<lparr>rng := r\<rparr>) front
    | Panics r \<Rightarrow> Panics (self\<lparr>rng := r\<rparr>))"

section \<open>The probability\<close>

lemma round53_consts [simp]: "round53 0 = 0" "round53 1 = 1" "round53 2 = 2" "round53 (1 / 2) = 1 / 2"
  using round53_exact [of 1 1 0] round53_exact [of 2 2 0] round53_exact [of "1 / 2" 1 "- 1"]
  by (simp_all add: round53_def [of 0] power_int_minus)

lemma round53_between: "round53 a = a \<Longrightarrow> a \<le> x \<Longrightarrow> a \<le> round53 x" "round53 b = b \<Longrightarrow> x \<le> b \<Longrightarrow> round53 x \<le> b"
  using f64.rnd_mono [of a x] f64.rnd_mono [of x b] by simp_all

lemma round53_sum: "0 \<le> e \<Longrightarrow> 1 \<le> round53 (1 + e)" "1 \<le> e \<Longrightarrow> 2 \<le> round53 (1 + e)" "e \<le> 1 \<Longrightarrow> round53 (1 + e) \<le> 2"
  by (auto intro: round53_between)

lemma round53_inverse:
  "1 \<le> d \<Longrightarrow> 0 \<le> round53 (1 / d) \<and> round53 (1 / d) \<le> 1"
  "2 \<le> d \<Longrightarrow> round53 (1 / d) \<le> 1 / 2"
  "0 < d \<Longrightarrow> d \<le> 2 \<Longrightarrow> 1 / 2 \<le> round53 (1 / d)"
proof -
  show "1 \<le> d \<Longrightarrow> 0 \<le> round53 (1 / d) \<and> round53 (1 / d) \<le> 1"
    by (auto intro!: round53_between)
  show "2 \<le> d \<Longrightarrow> round53 (1 / d) \<le> 1 / 2"
    by (rule round53_between(2)) (simp_all add: frac_le)
  show "0 < d \<Longrightarrow> d \<le> 2 \<Longrightarrow> 1 / 2 \<le> round53 (1 / d)"
    by (rule round53_between(1)) (simp_all add: frac_le)
qed

lemma p_front_range:
  assumes "exp_contract exp64"
  shows "0 \<le> p_front round53 exp64 self queued \<and> p_front round53 exp64 self queued \<le> 1"
  using assms round53_inverse(1) [OF round53_sum(1)]
  by (auto simp: p_front_def exp_contract_def Let_def split: option.split)

text \<open>The sign of the exponent is the side of the midpoint.\<close>

lemma new_steepness: "0 \<le> steepness (random_new round53 seeded m)"
  by (auto simp: random_new_def Let_def intro: round53_between)

lemma exponent_sign:
  fixes self m
  defines "x \<equiv> \<lambda>queued. round53 (steepness self * round53 (round53 (of_nat queued) - midpoint self))"
  assumes "self = random_new round53 seeded m"
  shows "queued \<le> m \<Longrightarrow> x queued \<le> 0" and "m \<le> queued \<Longrightarrow> 0 \<le> x queued"
proof -
  have mid: "midpoint self = round53 (of_nat m)" and st: "0 \<le> steepness self"
    using assms(2) new_steepness by (simp_all add: random_new_def Let_def)
  show "x queued \<le> 0" if "queued \<le> m"
    using st f64.rnd_mono [of "of_nat queued" "of_nat m"] that
    unfolding x_def mid by (auto intro!: round53_between mult_nonneg_nonpos)
  show "0 \<le> x queued" if "m \<le> queued"
    using st f64.rnd_mono [of "of_nat m" "of_nat queued"] that
    unfolding x_def mid by (auto intro!: round53_between mult_nonneg_nonneg)
qed

lemma p_front_low:
  assumes "exp_contract exp64" and "queued \<le> m"
  shows "p_front round53 exp64 (random_new round53 seeded m) queued \<le> 1 / 2"
  using assms(1) exponent_sign(1) [OF refl assms(2), of seeded] round53_inverse(2) [OF round53_sum(2)]
  by (auto simp: p_front_def exp_contract_def Let_def split: option.split)

lemma p_front_high:
  assumes "exp_contract exp64" and "m \<le> queued"
  shows "1 / 2 \<le> p_front round53 exp64 (random_new round53 seeded m) queued"
proof -
  let ?s = "random_new round53 seeded m"
  let ?x = "round53 (steepness ?s * round53 (round53 (of_nat queued) - midpoint ?s))"
  have "0 \<le> ?x" by (rule exponent_sign(2) [OF refl assms(2)])
  with assms(1) obtain e where e: "exp64 (- ?x) = Some e" "0 \<le> e" "e \<le> 1"
    unfolding exp_contract_def by (meson neg_le_0_iff_le)
  with round53_sum(1,3) [of e] round53_inverse(3) [of "round53 (1 + e)"]
  show ?thesis by (simp add: p_front_def Let_def)
qed

text \<open>Rounding swallows a small exponential: the probability then is one.\<close>

lemma round53_swallows:
  assumes "0 \<le> e" and "e \<le> 1 / 2 ^ 53"
  shows "round53 (1 + e) = 1"
proof -
  have "exponent (1 + e) = 0"
    using assms by (intro exponent_unique) auto
  then have u: "ulp (1 + e) = 1 / 2 ^ 52" by (simp add: ulp_def power_int_minus field_simps)
  have "(1 + e) / ulp (1 + e) = of_int (2 ^ 52) + e * 2 ^ 52" unfolding u by (simp add: algebra_simps)
  moreover have "0 \<le> e * 2 ^ 52" "e * 2 ^ 52 \<le> 1 / 2" using assms by simp_all
  moreover from this have "\<lfloor>of_int (2 ^ 52) + e * 2 ^ 52\<rfloor> = 2 ^ 52" by (intro floor_unique) simp_all
  ultimately have "half_even ((1 + e) / ulp (1 + e)) = 2 ^ 52" by (simp add: half_even_def Let_def)
  with assms(1) u show ?thesis by (simp add: round53_def round_pos_def)
qed

lemma p_front_certain:
  assumes "exp64 (- round53 (steepness self * round53 (round53 (of_nat queued) - midpoint self))) = Some e"
    and "0 \<le> e" and "e \<le> 1 / 2 ^ 53"
  shows "p_front round53 exp64 self queued = 1"
  using assms by (simp add: p_front_def Let_def round53_swallows)

lemma random_returns:
  assumes "exp_contract exp64" and "random_contract rb"
  shows "\<exists>r front. rb (rng self) (p_front round53 exp64 self queued) = Returns r front \<and>
    random_enqueue_front round53 exp64 rb self queued = Returns (self\<lparr>rng := r\<rparr>) front"
  using assms(2) p_front_range [OF assms(1), of self queued]
  by (fastforce simp: random_contract_def random_enqueue_front_def)

section \<open>Properties\<close>

text \<open>C20. The random order cannot panic and leans the way it says: whatever finite values its fields have,
  the probability it hands to \<open>random_bool\<close> is between 0 and 1, so it returns, having drawn once and
  changed only the generator. For \<open>Random::new(m)\<close> the probability of the front is at most one half
  while at most \<open>m\<close> wait, and at least one half from \<open>m\<close> on. It can be exactly 1: where the exponential
  is at most \<open>2 ^ -53\<close>, its sum with 1 rounds to 1.\<close>

theorem random_order_leans:
  assumes "exp_contract exp64" and "random_contract rb"
  shows "(\<exists>r front. rb (rng self) (p_front round53 exp64 self queued) = Returns r front \<and>
      random_enqueue_front round53 exp64 rb self queued = Returns (self\<lparr>rng := r\<rparr>) front) \<and>
    0 \<le> p_front round53 exp64 self queued \<and> p_front round53 exp64 self queued \<le> 1 \<and>
    (queued \<le> m \<longrightarrow> p_front round53 exp64 (random_new round53 seeded m) queued \<le> 1 / 2) \<and>
    (m \<le> queued \<longrightarrow> 1 / 2 \<le> p_front round53 exp64 (random_new round53 seeded m) queued) \<and>
    (\<forall>e. exp64 (- round53 (steepness self * round53 (round53 (of_nat queued) - midpoint self))) = Some e \<and>
      e \<le> 1 / 2 ^ 53 \<longrightarrow> p_front round53 exp64 self queued = 1)"
proof (intro conjI allI impI)
  show "\<exists>r front. rb (rng self) (p_front round53 exp64 self queued) = Returns r front \<and>
      random_enqueue_front round53 exp64 rb self queued = Returns (self\<lparr>rng := r\<rparr>) front"
    by (rule random_returns [OF assms])
next
  fix e
  assume e: "exp64 (- round53 (steepness self * round53 (round53 (of_nat queued) - midpoint self))) = Some e \<and>
    e \<le> 1 / 2 ^ 53"
  with assms(1) have "0 \<le> e" unfolding exp_contract_def by blast
  with e show "p_front round53 exp64 self queued = 1" by (blast intro: p_front_certain)
qed (rule p_front_range [OF assms(1), THEN conjunct1] p_front_range [OF assms(1), THEN conjunct2]
    p_front_low [OF assms(1)] p_front_high [OF assms(1)], assumption?)+

text \<open>A stand-in for the exponential, and a generator that counts its draws.\<close>

definition demo_exp :: exp_fun where
  "demo_exp x = Some (max 0 (1 + x / 8) ^ 8)"

definition demo_rng :: "nat random_bool" where
  "demo_rng r p = (if 0 \<le> p \<and> p \<le> 1 then Returns (r + 1) (of_nat (r mod 10) < 10 * p) else Panics r)"

lemma demo_contracts: "exp_contract demo_exp" "random_contract demo_rng"
proof -
  have "1 \<le> max 0 (1 + x / 8) ^ 8" if "0 \<le> x" for x :: rat
    using that by (intro one_le_power) simp
  moreover have "max 0 (1 + x / 8) ^ 8 \<le> 1" if "x \<le> 0" for x :: rat
    using that by (intro power_le_one) simp_all
  ultimately show "exp_contract demo_exp" by (simp add: exp_contract_def demo_exp_def)
  show "random_contract demo_rng" by (simp add: random_contract_def demo_rng_def)
qed

theorem random_order_leans_witness:
  "p_front round53 demo_exp (random_new round53 0 4) 3 \<le> 1 / 2 \<and>
    1 / 2 \<le> p_front round53 demo_exp (random_new round53 0 4) 20 \<and>
    (\<exists>r front. random_enqueue_front round53 demo_exp demo_rng (random_new round53 0 4) 20 =
      Returns ((random_new round53 0 4)\<lparr>rng := r\<rparr>) front)"
  using random_order_leans [OF demo_contracts, of "random_new round53 0 4" 20 4 0]
    random_order_leans [OF demo_contracts, of "random_new round53 0 4" 3 4 0]
  by auto

text \<open>With the random order a new request that the state refuses waits at one end of the list, and the
  others keep their places: nothing unwinds, nothing is poisoned, and the order has drawn once.\<close>

theorem random_joins_an_end:
  assumes "queue_deps G V elems" and "queue_inv G V q" and "\<not> poisoned q" and "\<not> closed q"
    and "exp_contract exp64" and "random_contract rb" and "policy G = random_enqueue_front round53 exp64 rb"
    and "acquire (sem G) (state q) p = Returns (state q) (Inl p)"
    and "\<not> pl_initialized (pl G) (pins q) (fut_node fut)" and "fut_params fut = Some p"
  shows "\<exists>q' r front. rb (rng (order q)) (p_front round53 exp64 (order q) (length (links V (pins q)))) = Returns r front \<and>
    poll G cx fut q = Ret (q', fut\<lparr>fut_params := None\<rparr>) Pending \<and> queue_inv G V q' \<and> \<not> poisoned q' \<and>
    order q' = (order q)\<lparr>rng := r\<rparr> \<and>
    links V (pins q') = (if front then (fut_node fut, Some p, cx) # links V (pins q)
      else links V (pins q) @ [(fut_node fut, Some p, cx)])"
proof -
  have len: "len q = length (links V (pins q))" using assms(2) by (simp add: queue_inv_def)
  from random_returns [OF assms(5,6), of "order q" "len q"] obtain r front where
    r: "rb (rng (order q)) (p_front round53 exp64 (order q) (len q)) = Returns r front"
      "policy G (order q) (len q) = Returns ((order q)\<lparr>rng := r\<rparr>) front"
    unfolding assms(7) by blast
  let ?q1 = "q\<lparr>order := (order q)\<lparr>rng := r\<rparr>\<rparr>"
  have eq: "q\<lparr>order := (order q)\<lparr>rng := r\<rparr>, state := state q\<rparr> = ?q1" by (cases q) simp
  have a: "acquire_or_enqueue G p True q = Ret ?q1 (Enqueue front p)"
    using queue_deps.acquire_open [OF assms(1-4), of p True] r(2) assms(8) eq by simp
  have inv: "queue_inv G V ?q1" using assms(2) by (simp add: queue_inv_def)
  note fresh = assms(9) [unfolded queue_deps.initialized_iff [OF assms(1,2)]]
  show ?thesis
    using a r(1) len assms(3,4,9,10) fresh queue_deps.open_queue [OF assms(1,2,4)]
      queue_deps.poll_push [OF assms(1) inv, of "fut_node fut" front "(Some p, cx)"]
    by (simp add: poll_def poll_first_def Let_def)
qed

definition demo_random :: "(demo_list, nat list, 64 word, 64 word, 64 word, nat random, nat) generics" where
  "demo_random = plain_generics semaphore_counter (random_enqueue_front round53 demo_exp demo_rng) Closeable"

definition demo_random_queue :: "(demo_list, 64 word, nat random) queue_state" where
  "demo_random_queue = \<lparr>queue = Open, pins = \<lparr>lp_links = demo_waiting, lp_removed = []\<rparr>, poisoned = False,
     closed = False, len = 3, order = random_new round53 0 4, state = 0\<rparr>"

theorem random_joins_an_end_witness:
  "\<exists>q'. poll demo_random 14 (queue_acquire 4 1) demo_random_queue =
      Ret (q', \<lparr>fut_node = 4, fut_params = None\<rparr>) Pending \<and> \<not> poisoned q' \<and>
    lp_links (pins q') \<in> {(4, Some 1, 14) # demo_waiting, demo_waiting @ [(4, Some 1, 14)]}"
proof -
  have "queue_inv demo_random plain_view demo_random_queue"
    by (simp add: demo_random_queue_def queue_inv_def lp_wf_def lp_taken_def demo_waiting_def)
  from random_joins_an_end [OF _ this _ _ demo_contracts, where elems = "\<lambda>v. v" and fut = "queue_acquire 4 1"
      and p = 1 and cx = 14]
  show ?thesis
    by (auto simp: demo_random_def demo_random_queue_def plain_queue.queue_deps_axioms queue_acquire_def
        plain_pin_list_def demo_waiting_def split: if_splits)
qed

end
