(* ===== verification/Semaphore_Properties.thy ===== *)
theory Semaphore_Properties
  imports Acquire_Properties
begin

text \<open>
  Properties of poison and closing as callers see them, of permits, of the semaphore's methods, and
  of the states that come with the repository.
\<close>

section \<open>Poison\<close>

text \<open>C25. Poison: a panic of \<open>acquire\<close> inside an attempt unwinds to the caller with the flag set and
  without touching the list. From then on \<open>try_acquire\<close> hands the params back as poisoned, an
  \<open>acquire\<close> that starts panics, a round of \<open>check\<close> grants nothing, and \<open>with_state\<close> still works on the
  state but leaves the flag.\<close>

theorem panic_poisons:
  assumes "queue_deps G V elems" and "queue_inv G V q" and "\<not> poisoned q" and "\<not> closed q"
    and "acquire (sem G) (state q) p = Panics s"
  shows "\<exists>q1. try_acquire G p False q = Unwind q1 \<and> poisoned q1 \<and> state q1 = s \<and> same_list q q1 \<and>
    try_acquire G p' fair q1 = Ret q1 (Inl (TryPoisoned p')) \<and>
    (\<not> pl_initialized (pl G) (pins q1) (fut_node fut) \<and> fut_params fut = Some p' \<longrightarrow>
      poll G cx fut q1 = Unwind (q1, fut\<lparr>fut_params := None\<rparr>)) \<and>
    check G q1 wakes = Some (Ret (q1, wakes) ()) \<and>
    update_state (\<lambda>_. Returns s2 r) q1 = Ret (q1\<lparr>state := s2\<rparr>) r"
proof -
  let ?q = "q\<lparr>order := order q, state := s, poisoned := True\<rparr>"
  have "acquire_or_enqueue G p False q = Unwind ?q"
    using queue_deps.acquire_open [OF assms(1-4), of p False] assms(5) by simp
  moreover have "acquire_or_enqueue G x y ?q = Ret ?q (Poisoned x)" for x y
    by (simp add: acquire_or_enqueue_def)
  ultimately show ?thesis
    by (intro exI [of _ ?q])
      (auto simp: try_acquire_def same_list_def poll_def poll_first_def check_def update_state_def)
qed

text \<open>A state that panics when asked for zero.\<close>

definition picky :: "(nat, nat, nat) semaphore_state" where
  "picky = \<lparr>acquire = (\<lambda>s p. if p = 0 then Panics (s + 1) else Returns s (Inl p)),
     release = (\<lambda>s a. Returns (s + a) ())\<rparr>"

definition picky_queue :: "(((nat, nat) waiting, (nat, nat) removal) plain_list, nat, fair_order) queue_state" where
  "picky_queue = new_queue (plain_generics picky fair_enqueue_front Closeable) 5 Fifo"

theorem panic_poisons_witness:
  "\<exists>q1. try_acquire (plain_generics picky fair_enqueue_front Closeable) 0 False picky_queue = Unwind q1 \<and>
    state q1 = 6 \<and>
    try_acquire (plain_generics picky fair_enqueue_front Closeable) 3 True q1 = Ret q1 (Inl (TryPoisoned 3))"
proof -
  let ?G = "plain_generics picky fair_enqueue_front Closeable"
  have "queue_inv ?G plain_view picky_queue"
    unfolding picky_queue_def by (rule plain_queue.new_queue_inv)
  moreover have "acquire (sem ?G) (state picky_queue) 0 = Panics 6" "\<not> poisoned picky_queue" "\<not> closed picky_queue"
    by (simp_all add: picky_def picky_queue_def new_queue_def)
  ultimately show ?thesis
    using panic_poisons [OF plain_queue.queue_deps_axioms, of picky fair_enqueue_front Closeable
        picky_queue 0 6 3 True "\<lparr>fut_node = 0, fut_params = None\<rparr>" "0 :: nat" "[]" 0 "()"] by blast
qed

text \<open>C26. A waiter whose params were lost to a panic is passed over by \<open>check\<close> after \<open>clear_poison\<close>, but it
  still counts as waiting: in a FIFO queue where only such a waiter is left, a request that the state
  would grant is refused by the fair \<open>try_acquire\<close>, and as an \<open>acquire\<close> it waits untried, until
  another operation runs \<open>check\<close>, which grants it at once.\<close>

theorem dead_waiter_blocks_newcomers:
  assumes "queue_deps G V elems" and "inert run" and "queue_inv G V q" and "\<not> poisoned q" and "\<not> closed q"
    and "policy G = fair_enqueue_front" and "order q = Fifo" and "links V (pins q) = [(n, None, w)]"
    and "acquire (sem G) (state q) p = Returns s1 (Inr a)"
    and "\<not> pl_initialized (pl G) (pins q) (fut_node fut)" and "fut_params fut = Some p"
  shows "try_acquire G p True q = Ret q (Inl (NoPermits p)) \<and>
    (\<exists>q1 q2. poll G cx fut q = Ret (q1, fut\<lparr>fut_params := None\<rparr>) Pending \<and>
      with_state G run (\<lambda>s. Returns s ()) q1 = Some (Ret (q2, [cx]) ()) \<and>
      removed V (pins q2) (fut_node fut) = Some (Inr a) \<and> links V (pins q2) = [(n, None, w)])"
proof -
  have "q\<lparr>order := Fifo\<rparr> = q" using assms(7) by (cases q) simp
  then have a: "acquire_or_enqueue G p True q = Ret q (Enqueue False p)"
    using queue_deps.acquire_open [OF assms(1,3-5), of p True] assms(6-8) by simp
  note fresh = assms(10) [unfolded queue_deps.initialized_iff [OF assms(1,3)]]
  let ?q = "q\<lparr>pins := pl_push_back (pl G) (pins q) (fut_node fut) (Some p, cx), len := len q + 1\<rparr>"
  have pushed: "queue_inv G V ?q" "links V (pins ?q) = [(n, None, w), (fut_node fut, Some p, cx)]"
    using queue_deps.poll_push [OF assms(1,3,5), of "fut_node fut" False "(Some p, cx)"] fresh assms(8)
    by simp_all
  have srv: "serve_all (acquire (sem G)) (state ?q) (links V (pins ?q)) =
      (s1, [(n, None, w)], [(fut_node fut, a, cx)], False)"
    unfolding pushed(2) using assms(9) by (simp add: serve_all_def)
  have "\<not> poisoned ?q" "\<not> closed ?q" using assms(4,5) by simp_all
  from queue_deps.with_state_inert [where f = "\<lambda>s. Returns s ()" and b = False,
      OF assms(1,2) refl pushed(1) this srv]
  obtain q2 where "with_state G run (\<lambda>s. Returns s ()) ?q = Some (Ret (q2, [cx]) ())"
    "links V (pins q2) = [(n, None, w)]"
    "removed V (pins q2) = (removed V (pins ?q))(fut_node fut \<mapsto> Inr a)"
    by auto
  moreover have "poll G cx fut q = Ret (?q, fut\<lparr>fut_params := None\<rparr>) Pending"
    using a assms(10,11) queue_deps.open_queue [OF assms(1,3,5)] by (simp add: poll_def poll_first_def Let_def)
  ultimately show ?thesis using a by (auto simp: try_acquire_def)
qed

theorem dead_waiter_blocks_newcomers_witness:
  "try_acquire (demo Closeable) 1 True (demo_queue 5 [(1, None, 11)]) =
      Ret (demo_queue 5 [(1, None, 11)]) (Inl (NoPermits 1)) \<and>
    (\<exists>q1 q2. poll (demo Closeable) 12 (queue_acquire 2 1) (demo_queue 5 [(1, None, 11)]) =
        Ret (q1, \<lparr>fut_node = 2, fut_params = None\<rparr>) Pending \<and>
      with_state (demo Closeable) schedule_only (\<lambda>s. Returns s ()) q1 = Some (Ret (q2, [12]) ()))"
  using dead_waiter_blocks_newcomers [OF demo_deps schedule_only_inert demo_queue_inv, of
      "[(1, None, 11)]" 5 Closeable 1 11 1 4 1 "queue_acquire 2 1" 12]
  by (auto simp: queue_acquire_def plain_pin_list_def demo_queue_def)

section \<open>Closed semaphores\<close>

text \<open>A closed semaphore that is not poisoned rejects every new request with its params: \<open>try_acquire\<close>,
  fair or not, and a new \<open>acquire\<close>, which is ready at its first poll. The queue is left as it was.\<close>

theorem closed_rejects:
  assumes "queue_deps G V elems" and "queue_inv G V q" and "\<not> poisoned q" and "closed q"
    and "\<not> pl_initialized (pl G) (pins q) n"
  shows "sem_is_closed G q \<and> sem_try_acquire G e p q = Ret q (Inl (TryClosed (AcquireError p))) \<and>
    try_acquire_unfair G e p q = Ret q (Inl (TryClosed (AcquireError p))) \<and>
    acquire_poll G e cx n (sem_acquire p) q = Ret (q, Finished) (Ready (Inl (AcquireError p)))"
  using queue_deps.acquire_closed [OF assms(1-4)] assms
  by (auto simp: sem_is_closed_def queue_is_closed_def is_closed_def queue_inv_def sem_try_acquire_def
      try_acquire_unfair_def try_acquire_def map_permit_def sem_acquire_def await_acquire_def poll_def
      queue_acquire_def poll_first_def)

theorem closed_rejects_witness:
  "acquire_poll (demo Closeable) () 9 4 (sem_acquire 2) (demo_queue 7 []\<lparr>closed := True\<rparr>) =
    Ret (demo_queue 7 []\<lparr>closed := True\<rparr>, Finished) (Ready (Inl (AcquireError 2)))"
proof -
  have "queue_inv (demo Closeable) plain_view (demo_queue 7 []\<lparr>closed := True\<rparr>)"
    using demo_queue_inv [of "[]" Closeable 7] by (simp add: queue_inv_def)
  from closed_rejects [OF demo_deps this, of 4 "()" 2 9] show ?thesis
    by (simp add: plain_pin_list_def demo_queue_def)
qed

text \<open>C27. \<open>must_acquire\<close> on an uncloseable semaphore never reaches the empty match on an error: no poll of
  it, in whatever stage, is undefined behaviour, the queue's invariant is kept, and the queue is
  never closed.\<close>

theorem must_acquire_infallible:
  assumes "queue_deps G V elems" and "queue_inv G V q" and "mode G = Uncloseable"
  shows "\<not> closed q \<and> exec_all (\<lambda>(q', _). queue_inv G V q' \<and> \<not> closed q') (must_acquire_poll G e cx n call q)"
proof -
  have safe: "exec_all (\<lambda>(q', _). queue_inv G V q' \<and> \<not> closed q')
      (case await_acquire G e cx fut q of
        Ret qc Pending \<Rightarrow> Ret qc Pending
      | Ret qc (Ready (Inr permit)) \<Rightarrow> Ret qc (Ready permit)
      | Ret qc (Ready (Inl err)) \<Rightarrow> never err
      | Unwind qc \<Rightarrow> Unwind qc | Abort \<Rightarrow> Abort | UB \<Rightarrow> UB)" for fut
    using queue_deps.poll_safe [OF assms(1,2), of cx fut]
      queue_deps.poll_error_closed [OF assms(1,2), of cx fut]
      queue_deps.uncloseable_open [OF assms(1) _ assms(3)] assms(2)
    by (auto simp: await_acquire_def split: exec.splits poll.splits sum.splits)
  have "\<not> closed q" using queue_deps.uncloseable_open [OF assms] .
  with safe assms(2) show ?thesis
    by (cases call) (simp_all add: must_acquire_poll_def)
qed

theorem must_acquire_infallible_witness:
  "exec_all (\<lambda>(q', _). queue_inv (demo Uncloseable) plain_view q' \<and> \<not> closed q')
    (must_acquire_poll (demo Uncloseable) () 14 4 (sem_acquire 1) (demo_queue 0 demo_waiting))"
  using must_acquire_infallible [OF demo_deps demo_inv, of Uncloseable 0 "()" 14 4 "sem_acquire 1"] by simp

section \<open>Permits\<close>

lemma permit_drop_eq:
  "permit_drop G run (out_of_thin_air e a) q = with_state G run (\<lambda>s. release (sem G) s a) q"
  by (simp add: permit_drop_def dw_drop_def out_of_thin_air_def dw_new_def manually_take_def sem_wrapper_drop_def)

text \<open>C34. Dropping a permit releases it once and serves the waiters: the state is the one after
  \<open>release\<close> and one pass over the list, the wakers of those served are invoked in order, and nothing
  else changes.\<close>

theorem permit_drop_serves:
  assumes "queue_deps G V elems" and "inert run" and "queue_inv G V q" and "\<not> poisoned q" and "\<not> closed q"
    and "release (sem G) (state q) a = Returns s1 ()"
    and "serve_all (acquire (sem G)) s1 (links V (pins q)) = (s', rest, gs, b)"
  shows "\<exists>q'. permit_drop G run (out_of_thin_air e a) q =
      Some (if b then Unwind (q', grant_wakers gs) else Ret (q', grant_wakers gs) ()) \<and>
    queue_inv G V q' \<and> state q' = s' \<and> links V (pins q') = rest \<and>
    removed V (pins q') = park (removed V (pins q)) gs \<and> poisoned q' = b \<and> closed q' = closed q"
  unfolding permit_drop_eq
  by (rule queue_deps.with_state_inert [where f = "\<lambda>s. release (sem G) s a", OF assms(1,2,6,3-5,7)]) blast

theorem permit_drop_serves_witness:
  "\<exists>q'. permit_drop (demo Closeable) schedule_only (out_of_thin_air () 4) (demo_queue 0 demo_waiting) =
    Some (Ret (q', [11]) ()) \<and> state q' = 1 \<and> lp_links (pins q') = tl demo_waiting"
  using permit_drop_serves [OF demo_deps [of Closeable] schedule_only_inert demo_inv [of Closeable 0], of 4 4 1
      "tl demo_waiting" "[(1, 3, 11)]" False "()"] counter_release [of 0 4]
  by (auto simp: demo_serve_all)

text \<open>What the holder makes of a permit is what comes back: after a change through \<open>DerefMut\<close> the guard
  shows the new value, and dropping it releases the new value, not the one that was granted, and serves
  the waiters from the state after that release.\<close>

theorem permit_mutation_released:
  assumes "queue_deps G V elems" and "inert run" and "queue_inv G V q" and "\<not> poisoned q" and "\<not> closed q"
    and "f a = Returns a' r" and "release (sem G) (state q) a' = Returns st ()"
    and "serve_all (acquire (sem G)) st (links V (pins q)) = (st', rest, gs, False)"
  shows "\<exists>p q'. permit_deref_mut (out_of_thin_air e a) f = Ret p r \<and> permit_deref p = Ret p a' \<and>
    permit_semaphore p = e \<and> permit_drop G run p q = Some (Ret (q', grant_wakers gs) ()) \<and>
    state q' = st' \<and> links V (pins q') = rest \<and> removed V (pins q') = park (removed V (pins q)) gs"
proof -
  have "permit_deref_mut (out_of_thin_air e a) f = Ret (out_of_thin_air e a') r"
    "permit_deref (out_of_thin_air e a') = Ret (out_of_thin_air e a') a'" "permit_semaphore (out_of_thin_air e a') = e"
    using assms(6)
    by (simp_all add: permit_deref_mut_def permit_deref_def permit_semaphore_def out_of_thin_air_def dw_new_def)
  moreover have "\<exists>q'. permit_drop G run (out_of_thin_air e a') q = Some (Ret (q', grant_wakers gs) ()) \<and>
    state q' = st' \<and> links V (pins q') = rest \<and> removed V (pins q') = park (removed V (pins q)) gs"
    unfolding permit_drop_eq
    by (rule queue_deps.with_state_inert [where f = "\<lambda>s. release (sem G) s a'", OF assms(1,2,7,3-5,8)]) auto
  ultimately show ?thesis by blast
qed

theorem permit_mutation_released_witness:
  "\<exists>p q'. permit_deref_mut (out_of_thin_air () (1 :: 64 word)) (\<lambda>a. Returns (a + 3) ()) = Ret p () \<and>
    permit_drop (demo Closeable) schedule_only p (demo_queue 0 demo_waiting) = Some (Ret (q', [11]) ()) \<and>
    state q' = 1"
  using permit_mutation_released [OF demo_deps [of Closeable] schedule_only_inert demo_inv [of Closeable 0], where
      f = "\<lambda>a. Returns (a + 3) ()" and a = 1 and e = "()" and gs = "[(1, 3, 11)]" and st' = 1
      and st = 4 and rest = "tl demo_waiting" and a' = 4 and r = "()"] counter_release [of 0 4]
  by (auto simp: demo_serve_all)

text \<open>\<open>Permit::take\<close> after \<open>out_of_thin_air\<close> moves the value out, unchanged and without a release;
  the guard is empty then, and its destructor, which Rust does not run after a move, would be
  undefined behaviour: there is no way to get the value twice.\<close>

theorem permit_taken_once:
  "permit_semaphore (out_of_thin_air e a) = e \<and>
   permit_take (out_of_thin_air e a) = Ret (out_of_thin_air e a\<lparr>dw_t := None\<rparr>) a \<and>
   permit_take (out_of_thin_air e a\<lparr>dw_t := None\<rparr>) = UB \<and>
   permit_drop G run (out_of_thin_air e a\<lparr>dw_t := None\<rparr>) q = Some UB"
  by (simp add: permit_semaphore_def permit_take_def dw_take_def out_of_thin_air_def dw_new_def
      manually_take_def permit_drop_def dw_drop_def)

section \<open>States\<close>

text \<open>No over-issue: for a state that accounts for its units, a round of \<open>check\<close> that returns has
  taken from the state exactly what the permits it parked are worth, in total.\<close>

theorem check_conserves_units:
  assumes "queue_deps G V elems" and "measured_state (sem G) units cost" and "queue_inv G V q"
    and "elems wakes = []" and "check G q wakes = Some (Ret (q', v') ())"
  shows "\<exists>gs. removed V (pins q') = park (removed V (pins q)) gs \<and> elems v' = grant_wakers gs \<and>
    units (state q) = units (state q') + sum_list (map (\<lambda>(_, a, _). cost a) gs)"
proof (rule queue_deps.check_result [OF assms(1,3) queue_deps.batch_empty [OF assms(1,4)]])
  fix q1 v1 gs b
  assume c: "check G q wakes = Some (if b then Unwind (q1, v1) else Ret (q1, v1) ())"
    and rm: "removed V (pins q1) = park (removed V (pins q)) gs" "elems v1 = elems wakes @ grant_wakers gs"
    and srv: "if poisoned q \<or> closed q then q1 = q \<and> gs = [] \<and> \<not> b
     else serve (acquire (sem G)) (batch_cap - length (elems wakes)) (state q) (links V (pins q)) =
       (state q1, links V (pins q1), gs, b)"
  have eq: "q' = q1" "v' = v1" "\<not> b" using c assms(5) by (auto split: if_splits)
  have "units (state q) = units (state q1) + sum_list (map (\<lambda>(_, a, _). cost a) gs)"
    using srv measured_state.serve_units [OF assms(2)] eq(3) by (cases "poisoned q \<or> closed q") auto
  with rm eq assms(4) show ?thesis by auto
qed

theorem check_conserves_units_witness:
  "\<exists>q' v' gs. check (demo Closeable) (demo_queue 4 demo_waiting) [] = Some (Ret (q', v') ()) \<and>
    v' = grant_wakers (gs :: (nid \<times> 64 word \<times> nat) list) \<and> (4 :: int) = uint (state q') + sum_list (map (\<lambda>(_, a, _). uint a) gs)"
proof -
  from queue_deps.check_active [OF demo_deps demo_inv, of 4 "[]" Closeable 1 "tl demo_waiting"
      "[(1, 3, 11)]" False]
  obtain q' where c: "check (demo Closeable) (demo_queue 4 demo_waiting) [] = Some (Ret (q', [11]) ())"
    by (auto simp: demo_serve batch_cap_def Let_def)
  have m: "measured_state (sem (demo Closeable)) uint uint"
    unfolding demo_simps by (rule counter.measured_state_axioms)
  from check_conserves_units [OF demo_deps m demo_inv refl c] obtain gs :: "(nid \<times> 64 word \<times> nat) list" where
    "[11 :: nat] = grant_wakers gs" "uint (4 :: 64 word) = uint (state q') + sum_list (map (\<lambda>(_, a, _). uint a) gs)"
    by auto
  with c show ?thesis by auto
qed

text \<open>The limit on two quantities is all or nothing: a reservation is granted exactly when a request
  slot and its bytes are both free, and takes one slot and those bytes; otherwise it is handed back
  and neither quantity changes.\<close>

theorem limits_all_or_nothing:
  "\<exists>s'. acquire limits_state s req =
      (if 0 < unat (requests s) \<and> unat (bytes req) \<le> unat (free_bytes s)
       then Returns s' (Inr req) else Returns s (Inl req)) \<and>
    (0 < unat (requests s) \<and> unat (bytes req) \<le> unat (free_bytes s) \<longrightarrow>
      unat (requests s') + 1 = unat (requests s) \<and>
      unat (free_bytes s') + unat (bytes req) = unat (free_bytes s))"
  by (intro exI [of _ "s\<lparr>requests := requests s - 1, free_bytes := free_bytes s - bytes req\<rparr>"])
    (auto simp: limits_state_def limits_acquire_eq word_le_nat_alt unat_sub)

theorem limits_all_or_nothing_witness:
  "\<exists>s'. acquire limits_state \<lparr>requests = 2, free_bytes = 5\<rparr> \<lparr>bytes = 3\<rparr> = Returns s' (Inr \<lparr>bytes = 3\<rparr>) \<and>
    unat (free_bytes s') = 2"
  using limits_all_or_nothing [of "\<lparr>requests = 2, free_bytes = 5\<rparr>" "\<lparr>bytes = 3\<rparr>"] by auto

text \<open>The loop of the documentation of \<open>SemaphoreState\<close> ends once a permit can be had: if, with what
  others do between the tries, the try number \<open>k\<close> is the first that the state grants, \<open>get_permit\<close>
  returns its permit.\<close>

theorem get_permit_returns:
  assumes "lawful_state S" and "\<And>j. j < k \<Longrightarrow> \<exists>s'. acquire S ((sleep ^^ j) s) p = Returns s' (Inl p)"
    and "acquire S ((sleep ^^ k) s) p = Returns s' (Inr a)"
  shows "get_permit S sleep s p = Some (Returns s' a)"
  using assms(2,3)
proof (induction k arbitrary: s)
  case 0
  then show ?case by (subst get_permit.simps) simp
next
  case (Suc k)
  from Suc.prems(1) [of 0] obtain s1 where "acquire S s p = Returns s1 (Inl p)" by auto
  with lawful_state.refusal [OF assms(1)] have first: "acquire S s p = Returns s (Inl p)" by blast
  have "\<exists>s'. acquire S ((sleep ^^ j) (sleep s)) p = Returns s' (Inl p)" if "j < k" for j
    using Suc.prems(1) [of "Suc j"] that by (simp add: funpow_swap1)
  moreover have "acquire S ((sleep ^^ k) (sleep s)) p = Returns s' (Inr a)"
    using Suc.prems(2) by (simp add: funpow_swap1)
  ultimately have "get_permit S sleep (sleep s) p = Some (Returns s' a)" by (rule Suc.IH)
  with first show ?case by (subst get_permit.simps) simp
qed

theorem get_permit_returns_witness:
  "get_permit semaphore_counter (\<lambda>s. s + 1) 0 2 = Some (Returns 0 2)"
  by (rule get_permit_returns [OF counter.lawful_state_axioms, of 2])
    (auto simp: less_Suc_eq semaphore_counter_def eval_nat_numeral)

end
