(* ===== verification/Lone_Queue.thy ===== *)
theory Lone_Queue
  imports Semaphore_Properties
begin

text \<open>
  A semaphore that is used by one caller at a time: nobody waits and the wakers leave the queue alone. Each of its
  methods then does what the state says, which the programs of the examples and of the documentation rest on.
\<close>

text \<open>A queue that is open, has this order and this state, and nobody waits.\<close>

definition idle_queue :: "('m, 'v, 's, 'p, 'a, fair_order, 'w) generics \<Rightarrow> ('m, 'p, 'a, 'w) queue_view \<Rightarrow> fair_order
    \<Rightarrow> ('m, 's, fair_order) queue_state \<Rightarrow> 's \<Rightarrow> bool" where
  "idle_queue G V ord q s \<longleftrightarrow> queue_inv G V q \<and> \<not> poisoned q \<and> \<not> closed q \<and> order q = ord \<and>
     links V (pins q) = [] \<and> state q = s"

locale lone_queue = queue_deps G V elems
  for G :: "('m, 'v, 's, 'p, 'a, fair_order, 'w) generics" and V :: "('m, 'p, 'a, 'w) queue_view"
    and elems :: "'v \<Rightarrow> 'w list" +
  fixes run :: "('w, ('m, 's, fair_order) queue_state) run_wake"
  assumes fair: "policy G = fair_enqueue_front" and quiet: "inert run"
begin

lemma idle_state: "idle_queue G V ord q s \<Longrightarrow> idle_queue G V ord (q\<lparr>state := s'\<rparr>) s'"
  by (auto simp: idle_queue_def queue_inv_def)

text \<open>A queue as the builder makes it.\<close>

lemma idle_new: "idle_queue G V ord (new_queue G s ord) s"
  using new_queue_inv [of s ord] PL.new by (simp add: idle_queue_def new_queue_def)

lemma fresh_new: "\<not> pl_initialized (pl G) (pins (new_queue G s ord)) n"
  using initialized_iff [OF new_queue_inv] PL.new by (simp add: new_queue_def)

lemma attempt_lone:
  assumes "idle_queue G V ord q s"
  shows "acquire (sem G) s p = Returns s' (Inr a) \<Longrightarrow> acquire_or_enqueue G p f q = Ret (q\<lparr>state := s'\<rparr>) (Acquired a)"
    and "acquire (sem G) s p = Returns s' (Inl p') \<Longrightarrow> \<exists>front. acquire_or_enqueue G p f q = Ret (q\<lparr>state := s'\<rparr>) (Enqueue front p')"
proof -
  have "q\<lparr>order := order q, state := t\<rparr> = q\<lparr>state := t\<rparr>" for t by simp
  then show "acquire (sem G) s p = Returns s' (Inr a) \<Longrightarrow> acquire_or_enqueue G p f q = Ret (q\<lparr>state := s'\<rparr>) (Acquired a)"
    and "acquire (sem G) s p = Returns s' (Inl p') \<Longrightarrow> \<exists>front. acquire_or_enqueue G p f q = Ret (q\<lparr>state := s'\<rparr>) (Enqueue front p')"
    using assms acquire_open [of q p f] by (auto simp: idle_queue_def fair)
qed

lemma try_lone:
  assumes "idle_queue G V ord q s"
  shows "acquire (sem G) s p = Returns s' (Inr a) \<Longrightarrow> sem_try_acquire G e p q = Ret (q\<lparr>state := s'\<rparr>) (Inr (out_of_thin_air e a))"
    and "acquire (sem G) s p = Returns s' (Inl p') \<Longrightarrow> sem_try_acquire G e p q = Ret (q\<lparr>state := s'\<rparr>) (Inl (NoPermits p'))"
  using attempt_lone [OF assms, of p s' _ True] by (auto simp: sem_try_acquire_def try_acquire_def map_permit_def)

text \<open>A permit that is there at the first poll.\<close>

lemma acquire_lone:
  assumes "idle_queue G V ord q s" and "acquire (sem G) s p = Returns s' (Inr a)"
    and "\<not> pl_initialized (pl G) (pins q) n"
  shows "acquire_poll G e cx n (sem_acquire p) q = Ret (q\<lparr>state := s'\<rparr>, Finished) (Ready (Inr (out_of_thin_air e a)))"
proof -
  have "poll G cx (queue_acquire n p) q =
      Ret (q\<lparr>state := s'\<rparr>, (queue_acquire n p)\<lparr>fut_params := None\<rparr>) (Ready (Inr a))"
    using attempt_lone(1) [OF assms(1,2)] assms(3) by (simp add: poll_def poll_first_def queue_acquire_def)
  then show ?thesis by (simp add: sem_acquire_def await_acquire_def)
qed

lemma must_acquire_lone:
  assumes "idle_queue G V ord q s" and "acquire (sem G) s p = Returns s' (Inr a)"
    and "\<not> pl_initialized (pl G) (pins q) n"
  shows "must_acquire_poll G e cx n (sem_acquire p) q = Ret (q\<lparr>state := s'\<rparr>, Finished) (Ready (out_of_thin_air e a))"
  using acquire_lone [OF assms, of e cx] by (simp add: must_acquire_poll_def)

lemma with_state_lone:
  assumes "idle_queue G V ord q s" and "f s = Returns s' r"
  obtains q' where "with_state G run f q = Some (Ret (q', []) r)" "idle_queue G V ord q' s'"
proof -
  have q: "queue_inv G V q" "\<not> poisoned q" "\<not> closed q" "order q = ord" "links V (pins q) = []" "state q = s"
    using assms(1) by (simp_all add: idle_queue_def)
  have "f (state q) = Returns s' r" using assms(2) q(6) by simp
  moreover have "serve_all (acquire (sem G)) s' (links V (pins q)) = (s', [], [], False)"
    using q(5) by (simp add: serve_all_def)
  ultimately show thesis
    by (rule with_state_inert [OF quiet _ q(1-3)]) (use that q in \<open>simp add: idle_queue_def\<close>)
qed

lemma drop_lone:
  assumes "idle_queue G V ord q s" and "release (sem G) s a = Returns s' ()"
  obtains q' where "permit_drop G run (out_of_thin_air e a) q = Some (Ret (q', []) ())" "idle_queue G V ord q' s'"
  using with_state_lone [where f = "\<lambda>s. release (sem G) s a", OF assms] unfolding permit_drop_eq by blast

lemma close_lone:
  assumes "idle_queue G V ord q s" and "CLOSE (mode G)"
  obtains q' where "close G run q = Some (Ret (q', []) ())" "queue_inv G V q'" "\<not> poisoned q'" "closed q'" "state q' = s"
    "\<And>n. pl_initialized (pl G) (pins q') n = pl_initialized (pl G) (pins q) n"
proof -
  have q: "queue_inv G V q" "\<not> poisoned q" "links V (pins q) = []" "state q = s"
    using assms(1) by (simp_all add: idle_queue_def)
  show thesis by (rule close_inert [OF quiet assms(2) q(1)]) (use that q initialized_iff in \<open>simp add: wakers_def\<close>)
qed

end

text \<open>Neither the mode, which the builder sets, nor the state matters.\<close>

lemma lone_mode: "lone_queue G V elems run \<Longrightarrow> lone_queue (G\<lparr>mode := c\<rparr>) V elems run"
  and lone_sem: "lone_queue G V elems run \<Longrightarrow> lone_queue (G\<lparr>sem := S\<rparr>) V elems run"
  by (simp_all add: lone_queue_def lone_queue_axioms_def queue_deps_def)

text \<open>The reference dependencies, with wakers that only schedule.\<close>

lemma plain_lone: "lone_queue (plain_generics S fair_enqueue_front c) plain_view (\<lambda>v. v) schedule_only"
  by (simp add: lone_queue_def lone_queue_axioms_def plain_queue.queue_deps_axioms schedule_only_inert)

end
