(* ===== verification/Connection_Pool.thy ===== *)
theory Connection_Pool
  imports Lone_Queue "HOL-Library.Monad_Syntax"
begin

text \<open>
  Semaphores whose permits are connections: the program flag-bearer-examples/examples/connection_pool.rs with
  its \<open>checkout\<close> and \<open>main\<close>, and \<open>acquire_conn\<close> of the crate documentation, which waits with a timeout and
  replaces connections that do not answer.
\<close>

section \<open>The example program\<close>

text \<open>\<open>checkout\<close> hands out an idle connection, or a new one, numbered by the global counter \<open>NEXT_ID\<close>, a
  32-bit word that wraps.\<close>

definition connection_open :: "32 word \<Rightarrow> 32 word \<times> 32 word" where
  "connection_open next_id = (next_id, next_id + 1)"

definition checkout ::
  "('m, 'v, 32 word list, unit, 32 word, 'o, 'w) generics \<Rightarrow> 'e \<Rightarrow> ('m, 32 word list, 'o) queue_state \<Rightarrow> 32 word
    \<Rightarrow> (('m, 32 word list, 'o) queue_state \<times> 32 word, (32 word, 'e) permit) exec" where
  "checkout G pool q next_id = (case sem_try_acquire G pool () q of
     Ret q' (Inr conn) \<Rightarrow> Ret (q', next_id) conn
   | Ret q' (Inl _) \<Rightarrow> (case connection_open next_id of
       (conn, next_id') \<Rightarrow> Ret (q', next_id') (out_of_thin_air pool conn))
   | Unwind q' \<Rightarrow> Unwind (q', next_id)
   | Abort \<Rightarrow> Abort
   | UB \<Rightarrow> UB)"

text \<open>What an operation that returns leaves and answers; \<open>main\<close> stops at one that does not.\<close>

definition returned :: "('q, 'r) exec option \<Rightarrow> ('q \<times> 'r) option" where
  "returned x = (case x of Some (Ret q r) \<Rightarrow> Some (q, r) | _ \<Rightarrow> None)"

text \<open>\<open>main\<close>, with the numbers it prints: the connections checked out, the one reused, the idle ones left.\<close>

definition pool_main ::
  "('m, 'v, 32 word list, unit, 32 word, fair_order, 'w) generics
    \<Rightarrow> ('w, ('m, 32 word list, fair_order) queue_state) run_wake
    \<Rightarrow> (32 word \<times> 32 word \<times> 32 word \<times> nat) option" where
  "pool_main G0 run = (let (G, q0) = builder_with_state G0 lifo [] in do {
     let (seed, id1) = connection_open 0;
     ((q1, _), _) \<leftarrow> returned (sem_with_state G run (\<lambda>p. Returns (p @ [seed]) ()) q0);
     ((q2, id2), a) \<leftarrow> returned (Some (checkout G () q1 id1));
     ((q3, id3), b) \<leftarrow> returned (Some (checkout G () q2 id2));
     (a, a_id) \<leftarrow> returned (Some (permit_deref a));
     (b, b_id) \<leftarrow> returned (Some (permit_deref b));
     ((q4, _), _) \<leftarrow> returned (permit_drop G run a q3);
     ((q5, _), _) \<leftarrow> returned (permit_drop G run b q4);
     ((q6, _), c) \<leftarrow> returned (Some (checkout G () q5 id3));
     (c, c_id) \<leftarrow> returned (Some (permit_deref c));
     _ \<leftarrow> returned (Some (permit_take c));
     (_, left) \<leftarrow> returned (sem_with_state G run (\<lambda>p. Returns p (length p)) q6);
     Some (a_id, b_id, c_id, left)
   })"

section \<open>Waiting with a timeout\<close>

text \<open>
  \<open>acquire_conn\<close>. \<open>timeout\<close> polls the future it was given and, once the time is up, drops it and returns
  an error. \<open>conn_poll\<close> is a poll before that: when the permit is there, \<open>check\<close>, here \<open>probe\<close>, is run on the connection,
  which may change it, and a connection that fails is taken out of its permit, so that it does not return
  to the pool, and replaced. \<open>conn_timeout\<close> is the end of the wait. \<open>fresh\<close> is \<open>Connection::new()\<close>.
\<close>

definition conn_poll ::
  "('m, 'v, 'c list, unit, 'c, 'o, 'w) generics \<Rightarrow> 'e \<Rightarrow> 'w \<Rightarrow> nid \<Rightarrow> ('c \<Rightarrow> 'c \<times> bool) \<Rightarrow> 'c
    \<Rightarrow> unit acquire_call \<Rightarrow> ('m, 'c list, 'o) queue_state
    \<Rightarrow> (('m, 'c list, 'o) queue_state \<times> unit acquire_call, ('c, 'e) permit poll) exec" where
  "conn_poll G s cx n probe fresh call q = (case must_acquire_poll G s cx n call q of
     Ret qc Pending \<Rightarrow> Ret qc Pending
   | Ret qc (Ready permit) \<Rightarrow>
       (case permit_deref_mut permit (\<lambda>c. case probe c of (c', alive) \<Rightarrow> Returns c' alive) of
         Ret permit' alive \<Rightarrow>
           if alive then Ret qc (Ready permit')
           else (case permit_take permit' of
               Ret _ _ \<Rightarrow> Ret qc (Ready (out_of_thin_air s fresh))
             | _ \<Rightarrow> UB)
       | Unwind _ \<Rightarrow> Unwind qc
       | Abort \<Rightarrow> Abort
       | UB \<Rightarrow> UB)
   | Unwind qc \<Rightarrow> Unwind qc
   | Abort \<Rightarrow> Abort
   | UB \<Rightarrow> UB)"

definition conn_timeout ::
  "('m, 'v, 'c list, unit, 'c, 'o, 'w) generics \<Rightarrow> ('w, ('m, 'c list, 'o) queue_state) run_wake \<Rightarrow> 'e \<Rightarrow> 'c
    \<Rightarrow> unit acquire_call \<Rightarrow> ('m, 'c list, 'o) queue_state
    \<Rightarrow> (('m, 'c list, 'o) queue_state \<times> 'w list, ('c, 'e) permit) exec option" where
  "conn_timeout G run s fresh call q = (case acquire_drop G run call q of
     None \<Rightarrow> None
   | Some (Ret ql _) \<Rightarrow> Some (Ret ql (out_of_thin_air s fresh))
   | Some (Unwind ql) \<Rightarrow> Some (Unwind ql)
   | Some Abort \<Rightarrow> Some Abort
   | Some UB \<Rightarrow> Some UB)"

section \<open>A pool behind a LIFO queue\<close>

locale pool_queue = lone_queue G V elems run
  for G :: "('m, 'v, 'c list, unit, 'c, fair_order, 'w) generics" and V :: "('m, unit, 'c, 'w) queue_view"
    and elems :: "'v \<Rightarrow> 'w list" and run :: "('w, ('m, 'c list, fair_order) queue_state) run_wake" +
  assumes pool: "sem G = pool_state"
begin

lemma drop_idle:
  assumes "idle_queue G V Lifo q cs"
  obtains q' where "permit_drop G run (out_of_thin_air e c) q = Some (Ret (q', []) ())" "idle_queue G V Lifo q' (cs @ [c])"
  by (rule drop_lone [OF assms, of c]) (use that in \<open>auto simp: pool pool_state_def\<close>)

lemma try_idle:
  assumes "idle_queue G V Lifo q cs"
  shows "sem_try_acquire G e () q = (if cs = [] then Ret q (Inl (NoPermits ()))
    else Ret (q\<lparr>state := butlast cs\<rparr>) (Inr (out_of_thin_air e (last cs))))"
proof -
  have "q\<lparr>state := []\<rparr> = q" if "cs = []" using assms that by (cases q) (simp add: idle_queue_def)
  with try_lone [OF assms, of _ _ _ e] show ?thesis by (cases "cs = []") (simp_all add: pool pool_state_def)
qed

lemma serve_empty: "serve_all (acquire (sem G)) [] xs = ([], xs, [], False)"
proof -
  have "serve (acquire (sem G)) k [] xs = ([], xs, [], False)" for k
  proof (induction xs)
    case (Cons x xs)
    then show ?case by (cases x; cases "fst (snd x)") (simp_all add: pool pool_state_def)
  qed simp
  then show ?thesis by (simp add: serve_all_def)
qed

text \<open>A permit that is there at the first poll.\<close>

lemma must_acquire_idle:
  assumes "idle_queue G V Lifo q cs" and "cs \<noteq> []" and "\<not> pl_initialized (pl G) (pins q) n"
  shows "must_acquire_poll G e cx n (sem_acquire ()) q =
    Ret (q\<lparr>state := butlast cs\<rparr>, Finished) (Ready (out_of_thin_air e (last cs)))"
  using must_acquire_lone [OF assms(1) _ assms(3), of _ _ _ e cx] assms(2) by (simp add: pool pool_state_def)

lemma conn_poll_idle:
  assumes "idle_queue G V Lifo q cs" and "cs \<noteq> []" and "\<not> pl_initialized (pl G) (pins q) n"
  shows "conn_poll G e cx n probe fresh (sem_acquire ()) q =
    Ret (q\<lparr>state := butlast cs\<rparr>, Finished)
      (Ready (out_of_thin_air e (if snd (probe (last cs)) then fst (probe (last cs)) else fresh)))"
  using must_acquire_idle [OF assms, of e cx]
  by (cases "probe (last cs)")
    (simp add: conn_poll_def permit_deref_mut_def permit_take_def dw_take_def manually_take_def out_of_thin_air_def dw_new_def)

text \<open>The time is up: while the call still waits in an empty pool, or after a connection was parked for it.\<close>

lemma conn_timeout_waiting:
  assumes "queue_inv G V q" and "\<not> poisoned q" and "\<not> closed q" and "state q = []"
    and "links V (pins q) = xs @ (fut_node fut, d) # ys"
  obtains q' where "conn_timeout G run e fresh (Awaiting fut) q = Some (Ret (q', []) (out_of_thin_air e fresh))"
    "queue_inv G V q'" "state q' = []" "links V (pins q') = xs @ ys" "removed V (pins q') = removed V (pins q)"
proof -
  have "serve_all (acquire (sem G)) (state q) (xs @ ys) = ([], xs @ ys, [], False)"
    using assms(4) serve_empty by simp
  then show thesis
    by (rule drop_waiting [OF quiet assms(1-3,5)]) (use that in \<open>simp add: conn_timeout_def\<close>)
qed

lemma conn_timeout_parked:
  assumes "queue_inv G V q" and "\<not> poisoned q" and "\<not> closed q"
    and "removed V (pins q) (fut_node fut) = Some (Inr c)"
    and "serve_all (acquire (sem G)) (state q @ [c]) (links V (pins q)) = (cs, rest, gs, False)"
  obtains q' where "conn_timeout G run e fresh (Awaiting fut) q =
      Some (Ret (q', grant_wakers gs) (out_of_thin_air e fresh))"
    "queue_inv G V q'" "state q' = cs" "links V (pins q') = rest"
    "removed V (pins q') = park ((removed V (pins q))(fut_node fut := None)) gs"
proof -
  have "release (sem G) (state q) c = Returns (state q @ [c]) ()" by (simp add: pool pool_state_def)
  from this assms(5) show thesis
    by (rule drop_parked [OF quiet assms(1-4)]) (use that in \<open>simp add: conn_timeout_def\<close>)
qed

end

section \<open>The pool over the reference dependencies\<close>

definition demo_pool :: "(((unit, nat) waiting, (unit, 32 word) removal) plain_list, nat list, 32 word list,
    unit, 32 word, fair_order, nat) generics" where
  "demo_pool = plain_generics pool_state fair_enqueue_front Uncloseable"

interpretation demo_pool: pool_queue demo_pool plain_view "\<lambda>v. v" schedule_only
  unfolding demo_pool_def pool_queue_def pool_queue_axioms_def lone_queue_def lone_queue_axioms_def
  by (simp add: plain_queue.queue_deps_axioms schedule_only_inert)

section \<open>Properties\<close>

lemma checkout_idle:
  assumes "pool_queue G V elems run" and "idle_queue G V Lifo q cs"
  shows "checkout G e q next_id = (if cs = [] then Ret (q, next_id + 1) (out_of_thin_air e next_id)
    else Ret (q\<lparr>state := butlast cs\<rparr>, next_id) (out_of_thin_air e (last cs)))"
  using pool_queue.try_idle [OF assms, of e] by (simp add: checkout_def connection_open_def)

lemma pool_main_result:
  assumes "pool_queue G V elems run" and "mode G = Uncloseable"
  shows "pool_main G run = Some (0, 1, 1, 1)"
proof -
  have L: "lone_queue G V elems run" by (rule pool_queue.axioms(1) [OF assms(1)])
  have G: "G\<lparr>mode := Uncloseable\<rparr> = G" using assms(2) by (cases G) simp
  let ?deref = "\<lambda>c. permit_deref (out_of_thin_air () c)"
  have deref: "?deref c = Ret (out_of_thin_air () c) c"
    "permit_take (out_of_thin_air () c) = Ret ((out_of_thin_air () c)\<lparr>dw_t := None\<rparr>) c" for c :: "32 word"
    by (simp_all add: permit_deref_def permit_take_def dw_take_def manually_take_def out_of_thin_air_def dw_new_def)
  note idle = lone_queue.with_state_lone [OF L] pool_queue.drop_idle [OF assms(1)] lone_queue.idle_state [OF L]
  note checkout = checkout_idle [OF assms(1)]
  have q0: "idle_queue G V Lifo (new_queue G [] Lifo) []" by (rule lone_queue.idle_new [OF L])
  from idle(1) [OF q0, of "\<lambda>p. Returns (p @ [0]) ()"] obtain q1 where
    q1: "with_state G run (\<lambda>p. Returns (p @ [0]) ()) (new_queue G [] Lifo) = Some (Ret (q1, []) ())" "idle_queue G V Lifo q1 [0]"
    by auto
  have q2: "idle_queue G V Lifo (q1\<lparr>state := []\<rparr>) []" by (rule idle(3) [OF q1(2)])
  from idle(2) [OF q2] obtain q4 where
    q4: "permit_drop G run (out_of_thin_air () 0) (q1\<lparr>state := []\<rparr>) = Some (Ret (q4, []) ())" "idle_queue G V Lifo q4 [0]"
    by (metis append_Nil)
  from idle(2) [OF q4(2)] obtain q5 where
    q5: "permit_drop G run (out_of_thin_air () 1) q4 = Some (Ret (q5, []) ())" "idle_queue G V Lifo q5 [0, 1]"
    by (metis append_Cons append_Nil)
  have q6: "idle_queue G V Lifo (q5\<lparr>state := [0]\<rparr>) [0]" by (rule idle(3) [OF q5(2)])
  from idle(1) [OF q6, of "\<lambda>p. Returns p (length p)"] obtain q7 where
    q7: "with_state G run (\<lambda>p. Returns p (length p)) (q5\<lparr>state := [0]\<rparr>) = Some (Ret (q7, []) 1)"
    by auto
  show ?thesis
    using q1(1) q4(1) q5(1) q7 checkout [OF q1(2), of "()"] checkout [OF q2, of "()"] checkout [OF q5(2), of "()"] deref
    by (simp add: pool_main_def builder_with_state_def lifo_def G sem_with_state_def returned_def connection_open_def)
qed

text \<open>C36. A LIFO connection pool hands out the connection returned last: \<open>checkout\<close> from a pool with
  idle connections takes the last one, numbers no new one, and dropping that permit, when nobody
  waits, puts the pool back as it was; from an empty pool \<open>checkout\<close> numbers a new connection and
  leaves the pool alone.\<close>

theorem checkout_reuses_last:
  assumes "queue_deps G V elems" and "inert run" and "queue_inv G V q" and "\<not> poisoned q" and "\<not> closed q"
    and "sem G = pool_state" and "policy G = fair_enqueue_front" and "order q = Lifo"
    and "links V (pins q) = []"
  shows "(state q = [] \<longrightarrow> checkout G pool q next_id = Ret (q, next_id + 1) (out_of_thin_air pool next_id)) \<and>
    (state q \<noteq> [] \<longrightarrow> (\<exists>q1 q2. checkout G pool q next_id = Ret (q1, next_id) (out_of_thin_air pool (last (state q))) \<and>
      state q1 = butlast (state q) \<and>
      permit_drop G run (out_of_thin_air pool (last (state q))) q1 = Some (Ret (q2, []) ()) \<and>
      state q2 = state q))"
proof -
  have P: "pool_queue G V elems run"
    using assms(1,2,6,7) by (simp add: pool_queue_def pool_queue_axioms_def lone_queue_def lone_queue_axioms_def)
  have q: "idle_queue G V Lifo q (state q)" using assms(3-5,8,9) by (simp add: idle_queue_def)
  from pool_queue.drop_idle [OF P lone_queue.idle_state [OF pool_queue.axioms(1) [OF P] q, of "butlast (state q)"], of pool "last (state q)"]
  obtain q2 where "permit_drop G run (out_of_thin_air pool (last (state q))) (q\<lparr>state := butlast (state q)\<rparr>) =
      Some (Ret (q2, []) ())" "state q2 = butlast (state q) @ [last (state q)]"
    by (auto simp: idle_queue_def)
  then show ?thesis
    using checkout_idle [OF P q, of pool next_id] by auto
qed

theorem checkout_reuses_last_witness:
  "\<exists>q1. checkout demo_pool () (new_queue demo_pool [3, 8] Lifo) 9 = Ret (q1, 9) (out_of_thin_air () 8) \<and> state q1 = [3]"
proof -
  have "queue_deps demo_pool plain_view (\<lambda>v. v)"
    unfolding demo_pool_def by (rule plain_queue.queue_deps_axioms)
  moreover have "queue_inv demo_pool plain_view (new_queue demo_pool [3, 8] Lifo)"
    unfolding demo_pool_def by (rule plain_queue.new_queue_inv)
  ultimately show ?thesis
    using checkout_reuses_last [where run = schedule_only and next_id = 9 and pool = "()", OF _ schedule_only_inert, of demo_pool
        plain_view "\<lambda>v. v" "new_queue demo_pool [3, 8] Lifo"]
    by (auto simp: demo_pool_def new_queue_def plain_pin_list_def)
qed

text \<open>C35. \<open>acquire_conn\<close> accounts for every connection. One that is idle is handed out as \<open>check\<close> left it if it
  answers, and otherwise leaves the pool for good and is replaced by a new one. A time that is up before the
  first poll leaves no trace. If it is up while the call waits, its place in the line goes and nothing else changes; if a connection was parked for it
  in the meantime, that connection goes back to the pool, where it serves the next waiter; the caller gets a
  new one in both cases.\<close>

theorem acquire_conn_accounts:
  assumes "pool_queue G V elems run" and "queue_inv G V q" and "\<not> poisoned q" and "\<not> closed q"
  shows "(\<forall>cs c n. order q = Lifo \<and> links V (pins q) = [] \<and> state q = cs @ [c] \<and> \<not> pl_initialized (pl G) (pins q) n \<longrightarrow>
      conn_poll G e cx n probe fresh (sem_acquire ()) q = Ret (q\<lparr>state := cs\<rparr>, Finished)
        (Ready (out_of_thin_air e (if snd (probe c) then fst (probe c) else fresh)))) \<and>
    conn_timeout G run e fresh (sem_acquire ()) q = Some (Ret (q, []) (out_of_thin_air e fresh)) \<and>
    (\<forall>xs d ys. state q = [] \<and> links V (pins q) = xs @ (fut_node fut, d) # ys \<longrightarrow>
      (\<exists>q'. conn_timeout G run e fresh (Awaiting fut) q = Some (Ret (q', []) (out_of_thin_air e fresh)) \<and>
        state q' = [] \<and> links V (pins q') = xs @ ys \<and> removed V (pins q') = removed V (pins q))) \<and>
    (\<forall>c cs rest gs. removed V (pins q) (fut_node fut) = Some (Inr c) \<and>
      serve_all (acquire (sem G)) (state q @ [c]) (links V (pins q)) = (cs, rest, gs, False) \<longrightarrow>
      (\<exists>q'. conn_timeout G run e fresh (Awaiting fut) q = Some (Ret (q', grant_wakers gs) (out_of_thin_air e fresh)) \<and>
        state q' = cs \<and> links V (pins q') = rest \<and>
        removed V (pins q') = park ((removed V (pins q))(fut_node fut := None)) gs))"
proof (intro conjI allI impI; (elim conjE)?)
  fix cs c n
  assume q: "order q = Lifo" "links V (pins q) = []" "state q = cs @ [c]" and n: "\<not> pl_initialized (pl G) (pins q) n"
  then have "idle_queue G V Lifo q (cs @ [c])" using assms(2-4) by (simp add: idle_queue_def)
  from pool_queue.conn_poll_idle [OF assms(1) this _ n, of e cx probe fresh]
  show "conn_poll G e cx n probe fresh (sem_acquire ()) q = Ret (q\<lparr>state := cs\<rparr>, Finished)
      (Ready (out_of_thin_air e (if snd (probe c) then fst (probe c) else fresh)))" by simp
next
  show "conn_timeout G run e fresh (sem_acquire ()) q = Some (Ret (q, []) (out_of_thin_air e fresh))"
    by (simp add: conn_timeout_def sem_acquire_def)
next
  fix xs d ys
  assume "state q = []" "links V (pins q) = xs @ (fut_node fut, d) # ys"
  then show "\<exists>q'. conn_timeout G run e fresh (Awaiting fut) q = Some (Ret (q', []) (out_of_thin_air e fresh)) \<and>
      state q' = [] \<and> links V (pins q') = xs @ ys \<and> removed V (pins q') = removed V (pins q)"
    by (rule pool_queue.conn_timeout_waiting [OF assms]) blast
next
  fix c cs rest gs
  assume "removed V (pins q) (fut_node fut) = Some (Inr c)"
    "serve_all (acquire (sem G)) (state q @ [c]) (links V (pins q)) = (cs, rest, gs, False)"
  then show "\<exists>q'. conn_timeout G run e fresh (Awaiting fut) q =
      Some (Ret (q', grant_wakers gs) (out_of_thin_air e fresh)) \<and>
    state q' = cs \<and> links V (pins q') = rest \<and>
    removed V (pins q') = park ((removed V (pins q))(fut_node fut := None)) gs"
    by (rule pool_queue.conn_timeout_parked [OF assms]) blast
qed

theorem acquire_conn_accounts_witness:
  "conn_poll demo_pool () 14 4 (\<lambda>c. (c, c \<noteq> 8)) 9 (sem_acquire ()) (new_queue demo_pool [3, 8] Lifo) =
    Ret ((new_queue demo_pool [3, 8] Lifo)\<lparr>state := [3]\<rparr>, Finished) (Ready (out_of_thin_air () 9))"
proof -
  have "idle_queue demo_pool plain_view Lifo (new_queue demo_pool [3, 8] Lifo) [3, 8]"
    by (rule demo_pool.idle_new)
  then have "queue_inv demo_pool plain_view (new_queue demo_pool [3, 8] Lifo)" by (simp add: idle_queue_def)
  from acquire_conn_accounts [OF demo_pool.pool_queue_axioms this, where e = "()" and cx = 14 and fresh = 9
      and probe = "\<lambda>c. (c, c \<noteq> 8)" and fut = "queue_acquire 4 ()"]
  show ?thesis by (auto simp: demo_pool_def new_queue_def plain_pin_list_def)
qed

end
