(* ===== verification/Raw_Mutex.thy ===== *)
theory Raw_Mutex
  imports "HOL-Library.Word"
begin

text \<open>
  flag-bearer-mutex/src/futex.rs: the mutex that guards the queue on linux. Its one atomic word is
  shared by threads that run the code of \<open>lock\<close>, \<open>try_lock\<close>, \<open>unlock\<close> and \<open>lock_contended\<close> one
  access at a time, in any interleaving. The word has the release/acquire semantics of the Rust memory model: a relaxed
  load, or an exchange that fails, may find any value that is not older than what the thread found before; an exchange that
  succeeds and \<open>swap\<close> act on the last one, and their ordering decides what else they pass on or take over. The futex
  system calls of the kernel are a parameter with their documented behaviour.
\<close>

section \<open>The futex system call\<close>

type_synonym tid = nat

text \<open>
  \<open>fx_sleep k t\<close>: a wait whose comparison succeeded puts \<open>t\<close> to sleep; \<open>fx_wake\<close> wakes one sleeper
  if there is one; \<open>fx_leave\<close>: a sleeper may also return by itself, for example on a signal.
\<close>

record 'k futex_api =
  fx_sleep :: "'k \<Rightarrow> tid \<Rightarrow> 'k"
  fx_wake :: "'k \<Rightarrow> tid option \<times> 'k"
  fx_leave :: "'k \<Rightarrow> tid \<Rightarrow> 'k"

locale futex_laws =
  fixes fx :: "'k futex_api"
    and sleepers :: "'k \<Rightarrow> tid set"
  assumes law_sleep: "sleepers (fx_sleep fx k t) = insert t (sleepers k)"
    and law_wake_none: "fx_wake fx k = (None, k') \<Longrightarrow> sleepers k = {} \<and> sleepers k' = {}"
    and law_wake_one: "fx_wake fx k = (Some t, k') \<Longrightarrow> t \<in> sleepers k \<and> sleepers k' = sleepers k - {t}"
    and law_leave: "sleepers (fx_leave fx k t) = sleepers k - {t}"

text \<open>A reference instance that wakes in the order of arrival.\<close>

definition fifo_futex :: "tid list futex_api" where
  "fifo_futex = \<lparr>
     fx_sleep = (\<lambda>k t. k @ [t]),
     fx_wake = (\<lambda>k. case k of [] \<Rightarrow> (None, []) | t # k' \<Rightarrow> (Some t, removeAll t k')),
     fx_leave = (\<lambda>k t. removeAll t k)\<rparr>"

interpretation fifo_futex: futex_laws fifo_futex set
  by unfold_locales (auto simp: fifo_futex_def split: list.splits)

section \<open>State\<close>

definition UNLOCKED :: "32 word" where "UNLOCKED = 0"
definition LOCKED :: "32 word" where "LOCKED = 1"
definition CONTENDED :: "32 word" where "CONTENDED = 2"

lemmas word_states = UNLOCKED_def LOCKED_def CONTENDED_def

text \<open>
  Where a thread is. \<open>Spin again k\<close> is the loop of \<open>spin\<close> with \<open>k\<close> spins left, called first or, with
  \<open>again\<close>, in the loop; \<open>Exchange\<close> is the exchange after the first spin; \<open>Top state\<close> is the top of the
  loop of \<open>lock_contended\<close> with its local variable; \<open>Wait\<close> is before the system call and \<open>Asleep\<close> in
  it; \<open>Wake\<close> is in \<open>unlock\<close> before \<open>wake\<close>.
\<close>

datatype pc = Out | Enter | Spin bool nat | Exchange | Top "32 word" | Wait | Asleep | Held | Wake

text \<open>
  The atomic: \<open>writes\<close> are the values written to it, oldest first, each with the view it carries; \<open>seen t\<close> is the
  youngest write that \<open>t\<close> found. The view of a thread, \<open>knows t\<close>, is how many accesses to the data behind the mutex
  happen before what it does next; the view of a write is what a thread that acquires it learns.
\<close>

datatype ordering = Relaxed | Acquire | Release

record 'k raw_mutex =
  writes :: "(32 word \<times> nat) list"
  seen :: "tid \<Rightarrow> nat"
  knows :: "tid \<Rightarrow> nat"
  pcs :: "tid \<Rightarrow> pc"
  kernel :: 'k

definition mutex_init :: "'k \<Rightarrow> 'k raw_mutex" where
  "mutex_init k = \<lparr>writes = [(0, 0)], seen = \<lambda>_. 0, knows = \<lambda>_. 0, pcs = \<lambda>_. Out, kernel = k\<rparr>"

text \<open>The last value and its view; the value of a write, and those that a load of \<open>t\<close> may find.\<close>

definition word :: "'k raw_mutex \<Rightarrow> 32 word" where
  "word m = fst (last (writes m))"

definition published :: "'k raw_mutex \<Rightarrow> nat" where
  "published m = snd (last (writes m))"

definition found :: "'k raw_mutex \<Rightarrow> nat \<Rightarrow> 32 word" where
  "found m i = fst (writes m ! i)"

definition visible :: "'k raw_mutex \<Rightarrow> tid \<Rightarrow> nat \<Rightarrow> bool" where
  "visible m t i \<longleftrightarrow> seen m t \<le> i \<and> i < length (writes m)"

definition goto :: "'k raw_mutex \<Rightarrow> tid \<Rightarrow> pc \<Rightarrow> 'k raw_mutex" where
  "goto m t c = m\<lparr>pcs := (pcs m)(t := c)\<rparr>"

text \<open>A relaxed load that finds write \<open>i\<close>.\<close>

definition load :: "nat \<Rightarrow> tid \<Rightarrow> 'k raw_mutex \<Rightarrow> 'k raw_mutex" where
  "load i t m = m\<lparr>seen := (seen m)(t := i)\<rparr>"

text \<open>A read-modify-write reads the last write and adds one. The new write passes on the view of the last, and with
  \<open>Release\<close> also that of the thread; with \<open>Acquire\<close> the thread learns the view of the last.\<close>

definition rmw :: "ordering \<Rightarrow> 32 word \<Rightarrow> tid \<Rightarrow> 'k raw_mutex \<Rightarrow> 'k raw_mutex" where
  "rmw ord v t m = m\<lparr>
     writes := writes m @ [(v, if ord = Release then max (published m) (knows m t) else published m)],
     seen := (seen m)(t := length (writes m)),
     knows := if ord = Acquire then (knows m)(t := max (knows m t) (published m)) else knows m\<rparr>"

text \<open>An access to the data by \<open>t\<close>, after which it knows of \<open>n\<close>.\<close>

definition learn :: "'k raw_mutex \<Rightarrow> tid \<Rightarrow> nat \<Rightarrow> 'k raw_mutex" where
  "learn m t n = m\<lparr>knows := (knows m)(t := n)\<rparr>"

section \<open>The code of the operations\<close>

definition SPINS :: nat where
  "SPINS = 4"

text \<open>One iteration of the loop of \<open>spin\<close>, on the loaded value: return it, or spin on.\<close>

definition spin :: "bool \<Rightarrow> nat \<Rightarrow> 32 word \<Rightarrow> pc" where
  "spin again k v =
    (if v \<noteq> LOCKED \<or> k = 0 then (if \<not> again \<and> v = UNLOCKED then Exchange else Top v)
     else Spin again (k - 1))"

text \<open>\<open>try_lock\<close> and \<open>unlock\<close> on the value that their access finds: the answer, and the word they store; \<open>is_locked\<close> on
  the value that its load finds.\<close>

definition try_lock :: "32 word \<Rightarrow> bool \<times> 32 word" where
  "try_lock w = (if w = UNLOCKED then (True, LOCKED) else (False, w))"

definition unlock :: "32 word \<Rightarrow> bool \<times> 32 word" where
  "unlock w = (w = CONTENDED, UNLOCKED)"

definition is_locked :: "32 word \<Rightarrow> bool" where
  "is_locked w \<longleftrightarrow> w \<noteq> UNLOCKED"

text \<open>The methods, with their answers. \<open>mutex_call fx t c m m'\<close> is one access of \<open>t\<close> in its call \<open>c\<close>. A thread that is in no call may
  try the mutex and ask for it also when it holds it, as the \<open>Debug\<close> output of a queue does.\<close>

datatype lock_method = Lock | TryLock bool | Unlock | IsLocked bool

definition between_calls :: "'k raw_mutex \<Rightarrow> tid \<Rightarrow> bool" where
  "between_calls m t \<longleftrightarrow> pcs m t = Out \<or> pcs m t = Held"

inductive mutex_call :: "'k futex_api \<Rightarrow> tid \<Rightarrow> lock_method \<Rightarrow> 'k raw_mutex \<Rightarrow> 'k raw_mutex \<Rightarrow> bool" for fx where
  call_lock: "pcs m t = Out \<Longrightarrow> mutex_call fx t Lock m (goto m t Enter)"
| enter: "pcs m t = Enter \<Longrightarrow> word m = UNLOCKED \<Longrightarrow> mutex_call fx t Lock m (goto (rmw Acquire LOCKED t m) t Held)"
| enter_fails: "pcs m t = Enter \<Longrightarrow> visible m t i \<Longrightarrow> mutex_call fx t Lock m (goto (load i t m) t (Spin False SPINS))"
| spins: "pcs m t = Spin again k \<Longrightarrow> visible m t i \<Longrightarrow>
    mutex_call fx t Lock m (goto (load i t m) t (spin again k (found m i)))"
| exchange: "pcs m t = Exchange \<Longrightarrow> word m = UNLOCKED \<Longrightarrow> mutex_call fx t Lock m (goto (rmw Acquire LOCKED t m) t Held)"
| exchange_fails: "pcs m t = Exchange \<Longrightarrow> visible m t i \<Longrightarrow> found m i \<noteq> UNLOCKED \<Longrightarrow>
    mutex_call fx t Lock m (goto (load i t m) t (Top (found m i)))"
| top_contended: "pcs m t = Top CONTENDED \<Longrightarrow> mutex_call fx t Lock m (goto m t Wait)"
| top_swap: "pcs m t = Top v \<Longrightarrow> v \<noteq> CONTENDED \<Longrightarrow>
    mutex_call fx t Lock m (goto (rmw Acquire CONTENDED t m) t (if word m = UNLOCKED then Held else Wait))"
| wait_sleeps: "pcs m t = Wait \<Longrightarrow> word m = CONTENDED \<Longrightarrow>
    mutex_call fx t Lock m ((goto m t Asleep)\<lparr>kernel := fx_sleep fx (kernel m) t\<rparr>)"
| wait_returns: "pcs m t = Wait \<Longrightarrow> mutex_call fx t Lock m (goto m t (Spin True SPINS))"
| wakes_up: "pcs m t = Asleep \<Longrightarrow>
    mutex_call fx t Lock m ((goto m t (Spin True SPINS))\<lparr>kernel := fx_leave fx (kernel m) t\<rparr>)"
| try_succeeds: "between_calls m t \<Longrightarrow> try_lock (word m) = (True, w) \<Longrightarrow>
    mutex_call fx t (TryLock True) m (goto (rmw Acquire w t m) t Held)"
| try_fails: "between_calls m t \<Longrightarrow> visible m t i \<Longrightarrow> try_lock (found m i) = (False, w) \<Longrightarrow>
    mutex_call fx t (TryLock False) m (load i t m)"
| unlocks: "pcs m t = Held \<Longrightarrow> unlock (word m) = (contended, w) \<Longrightarrow>
    mutex_call fx t Unlock m (goto (rmw Release w t m) t (if contended then Wake else Out))"
| wake_one: "pcs m t = Wake \<Longrightarrow> fx_wake fx (kernel m) = (Some u, k) \<Longrightarrow>
    mutex_call fx t Unlock m ((goto (goto m u (Spin True SPINS)) t Out)\<lparr>kernel := k\<rparr>)"
| wake_none: "pcs m t = Wake \<Longrightarrow> fx_wake fx (kernel m) = (None, k) \<Longrightarrow>
    mutex_call fx t Unlock m ((goto m t Out)\<lparr>kernel := k\<rparr>)"
| asks: "between_calls m t \<Longrightarrow> visible m t i \<Longrightarrow>
    mutex_call fx t (IsLocked (is_locked (found m i))) m (load i t m)"

inductive_cases try_lock_cases: "mutex_call fx t (TryLock b) m m'"
inductive_cases is_locked_cases: "mutex_call fx t (IsLocked b) m m'"

definition mutex_step :: "'k futex_api \<Rightarrow> 'k raw_mutex \<Rightarrow> 'k raw_mutex \<Rightarrow> bool" where
  "mutex_step fx m m' \<longleftrightarrow> (\<exists>t c. mutex_call fx t c m m')"

lemma call_step: "mutex_call fx t c m m' \<Longrightarrow> mutex_step fx m m'"
  by (auto simp: mutex_step_def)

inductive mutex_reachable :: "'k futex_api \<Rightarrow> 'k \<Rightarrow> 'k raw_mutex \<Rightarrow> bool" for fx k0 where
  start: "mutex_reachable fx k0 (mutex_init k0)"
| step: "mutex_reachable fx k0 m \<Longrightarrow> mutex_step fx m m' \<Longrightarrow> mutex_reachable fx k0 m'"

section \<open>Invariant\<close>

text \<open>Threads that will mark the word contended, or wake a sleeper, before they stop.\<close>

fun on_the_way :: "pc \<Rightarrow> bool" where
  "on_the_way (Spin again k) = again"
| "on_the_way (Top v) = True"
| "on_the_way Wait = True"
| "on_the_way Wake = True"
| "on_the_way _ = False"

text \<open>The threads at a place.\<close>

definition threads :: "(pc \<Rightarrow> bool) \<Rightarrow> 'k raw_mutex \<Rightarrow> tid set" where
  "threads P m = {t. P (pcs m t)}"

abbreviation holders :: "'k raw_mutex \<Rightarrow> tid set" where
  "holders m \<equiv> threads (\<lambda>c. c = Held) m"

abbreviation asleep :: "'k raw_mutex \<Rightarrow> tid set" where
  "asleep m \<equiv> threads (\<lambda>c. c = Asleep) m"

definition mutex_inv :: "('k \<Rightarrow> tid set) \<Rightarrow> 'k raw_mutex \<Rightarrow> bool" where
  "mutex_inv sleepers m \<longleftrightarrow>
     (if word m = UNLOCKED then holders m = {} else \<exists>t. holders m = {t}) \<and>
     word m \<in> {UNLOCKED, LOCKED, CONTENDED} \<and>
     sleepers (kernel m) = asleep m \<and>
     (asleep m \<noteq> {} \<longrightarrow> word m = CONTENDED \<or> threads on_the_way m \<noteq> {})"

lemma threads_goto [simp]:
  "threads P (goto m t c) = (if P c then insert t (threads P m) else threads P m - {t})"
  by (auto simp: threads_def goto_def)

lemma threads_other [simp]: "threads P (rmw ord v t m) = threads P m" "threads P (load i t m) = threads P m"
  "threads P (learn m t n) = threads P m" "threads P (m\<lparr>kernel := k\<rparr>) = threads P m"
  by (simp_all add: threads_def rmw_def load_def learn_def)

lemma in_threads: "t \<in> threads P m \<longleftrightarrow> P (pcs m t)"
  by (simp add: threads_def)

lemma word_states_distinct [simp]:
  "UNLOCKED \<noteq> LOCKED" "LOCKED \<noteq> UNLOCKED" "UNLOCKED \<noteq> CONTENDED" "CONTENDED \<noteq> UNLOCKED"
  "LOCKED \<noteq> CONTENDED" "CONTENDED \<noteq> LOCKED"
  by (simp_all add: word_states)

lemma access_simps [simp]:
  "word (goto m t c) = word m" "word (load i t m) = word m" "word (rmw ord v t m) = v" "word (learn m t n) = word m"
  "word (m\<lparr>kernel := k\<rparr>) = word m"
  "pcs (goto m t c) = (pcs m)(t := c)" "pcs (load i t m) = pcs m" "pcs (rmw ord v t m) = pcs m" "pcs (learn m t n) = pcs m"
  "kernel (goto m t c) = kernel m" "kernel (load i t m) = kernel m" "kernel (rmw ord v t m) = kernel m"
  "kernel (learn m t n) = kernel m"
  by (simp_all add: goto_def load_def rmw_def learn_def word_def)

lemma spin_not [simp]: "spin again k v \<noteq> Held" "spin again k v \<noteq> Asleep"
  by (simp_all add: spin_def)

lemma spin_on_the_way: "on_the_way (spin True k v)"
  by (simp add: spin_def)

lemma mutex_inv_other [simp]: "mutex_inv sl (load i t m) = mutex_inv sl m" "mutex_inv sl (learn m t n) = mutex_inv sl m"
  by (simp_all add: mutex_inv_def)

text \<open>A thread that neither holds the mutex nor sleeps may move on.\<close>

lemma mutex_inv_goto:
  assumes "mutex_inv sl m" and "pcs m t \<noteq> Held" and "pcs m t \<noteq> Asleep" and "c \<noteq> Held" and "c \<noteq> Asleep"
    and "on_the_way (pcs m t) \<Longrightarrow> on_the_way c"
  shows "mutex_inv sl (goto m t c)"
proof -
  have "threads on_the_way m = {}" if "threads on_the_way m \<subseteq> {t}" "\<not> on_the_way c"
    using that assms(6) by (auto simp: threads_def)
  with assms(1-5) show ?thesis
    by (auto simp: mutex_inv_def in_threads)
qed

context futex_laws
begin

lemma call_mutex_inv:
  assumes "mutex_inv sleepers m" and "mutex_call fx t c m m'"
  shows "mutex_inv sleepers m'"
  using assms(2)
proof cases
  case (spins again k i)
  with assms(1) show ?thesis
    unfolding spins(2) by (intro mutex_inv_goto) (auto simp: spin_on_the_way)
next
  case (wake_one u k)
  from law_wake_one [OF wake_one(4)] assms(1) have "pcs m u = Asleep"
    "sleepers k = sleepers (kernel m) - {u}"
    by (auto simp: mutex_inv_def in_threads)
  with assms(1) wake_one(2,3) show ?thesis
    by (auto simp: mutex_inv_def in_threads)
next
  case (wake_none k)
  from law_wake_none [OF wake_none(4)] assms(1) have "asleep m = {}" "sleepers k = {}"
    by (simp_all add: mutex_inv_def)
  with assms(1) wake_none(2,3) show ?thesis
    by (simp add: mutex_inv_def in_threads)
next
  case wakes_up
  with assms(1) show ?thesis
    by (simp add: mutex_inv_def in_threads law_leave)
next
  case wait_sleeps
  with assms(1) show ?thesis
    by (simp add: mutex_inv_def in_threads law_sleep)
next
  case (unlocks contended w)
  then have "t \<in> holders m" by (simp add: in_threads)
  with assms(1) have "holders m = {t}" by (auto simp: mutex_inv_def split: if_splits)
  with assms(1) unlocks show ?thesis
    by (auto simp: mutex_inv_def in_threads unlock_def split: if_splits)
next
  case (try_succeeds w)
  with assms(1) show ?thesis
    by (auto simp: mutex_inv_def in_threads try_lock_def between_calls_def split: if_splits)
qed (use assms(1) in \<open>auto simp: mutex_inv_def in_threads split: if_splits\<close>)

lemma reachable_mutex_inv:
  "mutex_reachable fx k0 m \<Longrightarrow> sleepers k0 = {} \<Longrightarrow> mutex_inv sleepers m"
proof (induction rule: mutex_reachable.induct)
  case start
  then show ?case by (simp add: mutex_inv_def mutex_init_def word_def threads_def UNLOCKED_def)
next
  case (step m m')
  then show ?case by (auto simp: mutex_step_def intro: call_mutex_inv)
qed

end

text \<open>Coherence: a thread that holds the mutex found its own write, and every write since then marks the mutex held.\<close>

definition coherent :: "'k raw_mutex \<Rightarrow> bool" where
  "coherent m \<longleftrightarrow> writes m \<noteq> [] \<and> (\<forall>t. seen m t < length (writes m)) \<and>
     (\<forall>t i. pcs m t = Held \<and> visible m t i \<longrightarrow> found m i \<noteq> UNLOCKED)"

lemma coherent_goto: "coherent m \<Longrightarrow> c \<noteq> Held \<Longrightarrow> coherent (goto m t c)"
  by (auto simp: coherent_def goto_def visible_def found_def)

lemma coherent_load: "coherent m \<Longrightarrow> visible m t i \<Longrightarrow> coherent (load i t m)"
  unfolding coherent_def load_def visible_def found_def by simp (meson le_trans)

lemma coherent_other [simp]: "coherent (m\<lparr>kernel := k\<rparr>) = coherent m" "coherent (learn m t n) = coherent m"
  by (auto simp: coherent_def learn_def visible_def found_def)

text \<open>A write that marks the mutex free must have no holder left.\<close>

lemma coherent_rmw:
  assumes "coherent m" and "v = UNLOCKED \<Longrightarrow> c \<noteq> Held \<and> (\<forall>u. u \<noteq> t \<longrightarrow> pcs m u \<noteq> Held)"
  shows "coherent (goto (rmw ord v t m) t c)"
  using assms by (auto simp: coherent_def goto_def rmw_def visible_def found_def nth_append less_Suc_eq)

text \<open>Publication: the last write carries what every thread knows while the mutex is free, and the holder knows it while
  it is held.\<close>

definition publishes :: "'k raw_mutex \<Rightarrow> bool" where
  "publishes m \<longleftrightarrow> (\<exists>u. published m \<le> knows m u) \<and>
     (\<forall>u. holders m = {} \<longrightarrow> knows m u \<le> published m) \<and>
     (\<forall>t u. t \<in> holders m \<longrightarrow> knows m u \<le> knows m t \<and> published m \<le> knows m t)"

lemma view_simps [simp]:
  "published (goto m t c) = published m" "published (load i t m) = published m" "published (learn m t n) = published m"
  "published (m\<lparr>kernel := k\<rparr>) = published m"
  "published (rmw ord v t m) = (if ord = Release then max (published m) (knows m t) else published m)"
  "knows (goto m t c) = knows m" "knows (load i t m) = knows m" "knows (learn m t n) = (knows m)(t := n)"
  "knows (rmw ord v t m) = (if ord = Acquire then (knows m)(t := max (knows m t) (published m)) else knows m)"
  by (simp_all add: published_def goto_def load_def learn_def rmw_def)

lemma publishes_other:
  assumes "publishes m" and "published m' = published m" and "knows m' = knows m" and "holders m' = holders m"
  shows "publishes m'"
  using assms by (simp add: publishes_def)

text \<open>Whoever takes the mutex takes over what was published.\<close>

lemma publishes_take:
  assumes "publishes m" and "holders m = {}"
  shows "publishes (goto (rmw Acquire v t m) t Held)"
  using assms by (auto simp: publishes_def max_def)

lemma publishes_swap:
  assumes "publishes m" and "h \<in> holders m" and "t \<notin> holders m" and "c \<noteq> Held"
  shows "publishes (goto (rmw Acquire v t m) t c)"
proof -
  have "h \<noteq> t" using assms(2,3) by blast
  moreover have "knows m u \<le> knows m h" "published m \<le> knows m h" if "h \<in> holders m" for h u
    using assms(1) that by (auto simp: publishes_def)
  moreover obtain u where "published m \<le> knows m u" using assms(1) by (auto simp: publishes_def)
  ultimately show ?thesis using assms(2-4)
    unfolding publishes_def by (auto intro!: exI [of _ h])
qed

text \<open>Whoever gives it back publishes what it knows.\<close>

lemma publishes_give:
  assumes "publishes m" and "holders m = {t}" and "c \<noteq> Held"
  shows "publishes (goto (rmw Release v t m) t c)"
  using assms by (auto simp: publishes_def max_def)

lemma publishes_learn:
  assumes "publishes m" and "holders m = {t}" and "knows m t \<le> n"
  shows "publishes (learn m t n)"
  using assms unfolding publishes_def by (auto intro: le_trans)

text \<open>All of it together.\<close>

definition mutex_ok :: "('k \<Rightarrow> tid set) \<Rightarrow> 'k raw_mutex \<Rightarrow> bool" where
  "mutex_ok sleepers m \<longleftrightarrow> mutex_inv sleepers m \<and> coherent m \<and> publishes m"

context futex_laws
begin

lemma one_holder: "mutex_inv sleepers m \<Longrightarrow> t \<in> holders m \<Longrightarrow> holders m = {t} \<and> word m \<noteq> UNLOCKED"
  by (auto simp: mutex_inv_def split: if_splits)

lemma no_holder: "mutex_inv sleepers m \<Longrightarrow> word m = UNLOCKED \<Longrightarrow> holders m = {}"
  by (simp add: mutex_inv_def)

lemma call_coherent:
  assumes "mutex_inv sleepers m" and "coherent m" and "mutex_call fx t c m m'"
  shows "coherent m'"
  using assms(3)
proof cases
  case (unlocks contended w)
  with one_holder [OF assms(1), of t] have "u \<noteq> t \<longrightarrow> pcs m u \<noteq> Held" for u by (auto simp: threads_def)
  with unlocks assms(2) show ?thesis by (auto intro!: coherent_rmw)
next
  case (wake_one u k)
  with assms(2) show ?thesis by (auto intro!: coherent_goto)
qed (use assms(2) in \<open>auto intro!: coherent_goto coherent_load coherent_rmw simp: try_lock_def split: if_splits\<close>)

lemma call_publishes:
  assumes "mutex_inv sleepers m" and "publishes m" and "mutex_call fx t c m m'"
  shows "publishes m'"
  using assms(3)
proof cases
  case enter
  with publishes_take [OF assms(2) no_holder [OF assms(1)]] show ?thesis by simp
next
  case exchange
  with publishes_take [OF assms(2) no_holder [OF assms(1)]] show ?thesis by simp
next
  case (try_succeeds w)
  with publishes_take [OF assms(2) no_holder [OF assms(1)]] show ?thesis
    by (auto simp: try_lock_def split: if_splits)
next
  case (top_swap v)
  show ?thesis
  proof (cases "word m = UNLOCKED")
    case True
    with publishes_take [OF assms(2) no_holder [OF assms(1)]] top_swap show ?thesis by simp
  next
    case False
    with assms(1) obtain h where "h \<in> holders m" by (auto simp: mutex_inv_def)
    with publishes_swap [OF assms(2) this] False top_swap show ?thesis by (simp add: in_threads)
  qed
next
  case (unlocks contended w)
  with one_holder [OF assms(1), of t] have "holders m = {t}" by (simp add: in_threads)
  with publishes_give [OF assms(2)] unlocks show ?thesis by simp
next
  case (wake_one u k)
  with law_wake_one [OF wake_one(4)] assms(1) have "pcs m u = Asleep" by (auto simp: mutex_inv_def in_threads)
  with wake_one show ?thesis by (intro publishes_other [OF assms(2)]) (auto simp: in_threads)
qed (use publishes_other [OF assms(2), of m'] in \<open>auto simp: in_threads\<close>)

lemma call_ok: "mutex_ok sleepers m \<Longrightarrow> mutex_call fx t c m m' \<Longrightarrow> mutex_ok sleepers m'"
  using call_mutex_inv call_coherent call_publishes unfolding mutex_ok_def by blast

lemma init_ok: "sleepers k0 = {} \<Longrightarrow> mutex_ok sleepers (mutex_init k0)"
  by (simp add: mutex_ok_def mutex_inv_def coherent_def publishes_def mutex_init_def word_def published_def visible_def
      found_def threads_def UNLOCKED_def)

lemma learn_ok:
  assumes "mutex_ok sleepers m" and "pcs m t = Held" and "knows m t \<le> n"
  shows "mutex_ok sleepers (learn m t n)"
proof -
  from assms(1,2) have "holders m = {t}" unfolding mutex_ok_def using one_holder [of m t] in_threads [of t] by blast
  from publishes_learn [OF _ this assms(3)] assms(1) show ?thesis by (simp add: mutex_ok_def)
qed

lemma reachable_ok:
  "mutex_reachable fx k0 m \<Longrightarrow> sleepers k0 = {} \<Longrightarrow> mutex_ok sleepers m"
  by (induction rule: mutex_reachable.induct) (auto simp: mutex_step_def intro: init_ok call_ok)

end

section \<open>Properties\<close>

text \<open>C30. Mutual exclusion: in every interleaving at most one thread holds the mutex, and the word is marked exactly when
  one does. While it is held, every \<open>try_lock\<close>, of any thread, answers no. \<open>is_locked\<close> changes neither the word nor who
  holds the mutex; asked by the holder it answers yes, although its load is relaxed. Another thread may be told what was.\<close>

theorem mutual_exclusion:
  assumes "futex_laws fx sleepers" and "sleepers k0 = {}" and "mutex_reachable fx k0 m"
  shows "(\<forall>t u. pcs m t = Held \<and> pcs m u = Held \<longrightarrow> t = u) \<and>
    (word m \<noteq> UNLOCKED \<longleftrightarrow> (\<exists>t. pcs m t = Held)) \<and>
    (\<forall>t u b m'. pcs m t = Held \<and> mutex_call fx u (TryLock b) m m' \<longrightarrow> \<not> b \<and> word m' = word m \<and> pcs m' = pcs m) \<and>
    (\<forall>t b m'. mutex_call fx t (IsLocked b) m m' \<longrightarrow>
      word m' = word m \<and> pcs m' = pcs m \<and> (pcs m t = Held \<longrightarrow> b))"
proof -
  have ok: "mutex_inv sleepers m" "coherent m"
    using futex_laws.reachable_ok [OF assms(1,3,2)] by (simp_all add: mutex_ok_def)
  have held: "pcs m t = Held \<longleftrightarrow> t \<in> holders m" for t
    by (simp add: in_threads)
  have one: "if word m = UNLOCKED then holders m = {} else \<exists>t. holders m = {t}"
    using ok(1) by (simp add: mutex_inv_def)
  have "\<not> b \<and> word m' = word m \<and> pcs m' = pcs m"
    if "pcs m t = Held" "mutex_call fx u (TryLock b) m m'" for t u b m'
  proof (rule try_lock_cases [OF that(2)])
    fix w assume "try_lock (word m) = (True, w)"
    with one that(1) show ?thesis by (auto simp: held try_lock_def split: if_splits)
  qed auto
  moreover have "word m' = word m \<and> pcs m' = pcs m \<and> (pcs m t = Held \<longrightarrow> b)"
    if "mutex_call fx t (IsLocked b) m m'" for t b m'
    using that ok(2) by (auto elim!: is_locked_cases simp: coherent_def is_locked_def)
  moreover have "(\<forall>t u. pcs m t = Held \<and> pcs m u = Held \<longrightarrow> t = u) \<and> (word m \<noteq> UNLOCKED \<longleftrightarrow> (\<exists>t. pcs m t = Held))"
    using one by (auto simp: held split: if_splits)
  ultimately show ?thesis by blast
qed

text \<open>A run in which thread 1 takes the mutex and thread 2 goes to sleep on it.\<close>

definition demo_sleeping :: "tid list raw_mutex" where
  "demo_sleeping = \<lparr>writes = [(UNLOCKED, 0), (LOCKED, 0), (CONTENDED, 0)], seen = (\<lambda>_. 0)(1 := 1, 2 := 2),
     knows = (\<lambda>_. 0), pcs = (\<lambda>_. Out)(1 := Held, 2 := Asleep), kernel = [2]\<rparr>"

text \<open>Thread 2 spins, finds the mutex held until it gives up, and marks it.\<close>

definition demo_spinning :: "pc \<Rightarrow> tid list raw_mutex" where
  "demo_spinning c = \<lparr>writes = [(UNLOCKED, 0), (LOCKED, 0)], seen = (\<lambda>_. 0)(1 := 1, 2 := 1),
     knows = (\<lambda>_. 0), pcs = (\<lambda>_. Out)(1 := Held, 2 := c), kernel = []\<rparr>"

lemma demo_held_reachable: "mutex_reachable fifo_futex [] (goto (rmw Acquire LOCKED 1 (mutex_init [])) 1 Held)"
  by (rule mutex_reachable.step [OF mutex_reachable.start call_step [OF mutex_call.try_succeeds]])
    (simp_all add: mutex_init_def word_def try_lock_def between_calls_def UNLOCKED_def)

lemma demo_spins:
  assumes "mutex_reachable fifo_futex [] (demo_spinning (Spin again k))"
  shows "mutex_reachable fifo_futex [] (demo_spinning (spin again k LOCKED))"
proof -
  have "mutex_call fifo_futex 2 Lock (demo_spinning (Spin again k))
      (goto (load 1 2 (demo_spinning (Spin again k))) 2 (spin again k (found (demo_spinning (Spin again k)) 1)))"
    by (rule mutex_call.spins) (simp_all add: demo_spinning_def visible_def)
  moreover have "goto (load 1 2 (demo_spinning (Spin again k))) 2 (spin again k (found (demo_spinning (Spin again k)) 1)) =
      demo_spinning (spin again k LOCKED)"
    by (simp add: demo_spinning_def goto_def load_def found_def fun_eq_iff)
  ultimately show ?thesis using mutex_reachable.step [OF assms call_step] by metis
qed

lemma demo_sleeping_reachable: "mutex_reachable fifo_futex [] demo_sleeping"
proof -
  let ?m = "goto (rmw Acquire LOCKED 1 (mutex_init [])) 1 Held :: tid list raw_mutex"
  note step = mutex_reachable.step [where fx = fifo_futex and ?k0.0 = "[]", OF _ call_step]
  have "mutex_reachable fifo_futex [] (goto ?m 2 Enter)"
    by (rule step [OF demo_held_reachable mutex_call.call_lock]) (simp add: mutex_init_def)
  then have "mutex_reachable fifo_futex [] (goto (load 1 2 (goto ?m 2 Enter)) 2 (Spin False SPINS))"
    by (rule step [OF _ mutex_call.enter_fails]) (simp_all add: mutex_init_def visible_def rmw_def goto_def)
  moreover have "goto (load 1 2 (goto ?m 2 Enter)) 2 (Spin False SPINS) = demo_spinning (Spin False 4)"
    by (simp add: mutex_init_def rmw_def goto_def load_def demo_spinning_def published_def SPINS_def UNLOCKED_def fun_eq_iff)
  ultimately have "mutex_reachable fifo_futex [] (demo_spinning (Spin False 4))" by simp
  from demo_spins [OF this] have "mutex_reachable fifo_futex [] (demo_spinning (Spin False 3))" by (simp add: spin_def)
  from demo_spins [OF this] have "mutex_reachable fifo_futex [] (demo_spinning (Spin False 2))" by (simp add: spin_def)
  from demo_spins [OF this] have "mutex_reachable fifo_futex [] (demo_spinning (Spin False 1))" by (simp add: spin_def)
  from demo_spins [OF this] have "mutex_reachable fifo_futex [] (demo_spinning (Spin False 0))" by (simp add: spin_def)
  from demo_spins [OF this] have top: "mutex_reachable fifo_futex [] (demo_spinning (Top LOCKED))" by (simp add: spin_def)
  let ?w = "goto (rmw Acquire CONTENDED 2 (demo_spinning (Top LOCKED))) 2 Wait"
  have "mutex_call fifo_futex 2 Lock (demo_spinning (Top LOCKED)) (goto (rmw Acquire CONTENDED 2 (demo_spinning (Top LOCKED))) 2
      (if word (demo_spinning (Top LOCKED)) = UNLOCKED then Held else Wait))"
    by (rule mutex_call.top_swap [where v = LOCKED]) (simp_all add: demo_spinning_def)
  then have "mutex_call fifo_futex 2 Lock (demo_spinning (Top LOCKED)) ?w" by (simp add: demo_spinning_def word_def)
  from step [OF top this] have "mutex_reachable fifo_futex [] ?w" .
  then have "mutex_reachable fifo_futex [] ((goto ?w 2 Asleep)\<lparr>kernel := fx_sleep fifo_futex (kernel ?w) 2\<rparr>)"
    by (rule step [OF _ mutex_call.wait_sleeps]) simp_all
  moreover have "(goto ?w 2 Asleep)\<lparr>kernel := fx_sleep fifo_futex (kernel ?w) 2\<rparr> = demo_sleeping"
    by (simp add: demo_spinning_def demo_sleeping_def goto_def rmw_def fifo_futex_def published_def fun_eq_iff)
  ultimately show ?thesis by simp
qed

text \<open>Thread 1 asks and is told the truth; thread 3, which never looked, may find the oldest value.\<close>

lemma demo_asks: "mutex_call fifo_futex 1 (IsLocked (is_locked LOCKED)) demo_sleeping (load 1 1 demo_sleeping)"
  "mutex_call fifo_futex 3 (IsLocked (is_locked UNLOCKED)) demo_sleeping (load 0 3 demo_sleeping)"
  using mutex_call.asks [of demo_sleeping 1 1 fifo_futex] mutex_call.asks [of demo_sleeping 3 0 fifo_futex]
  by (simp_all add: demo_sleeping_def between_calls_def visible_def found_def)

theorem mutual_exclusion_witness:
  "word demo_sleeping \<noteq> UNLOCKED \<and> pcs demo_sleeping 1 = Held \<and> pcs demo_sleeping 3 \<noteq> Held \<and> is_locked LOCKED \<and>
    (\<nexists>m'. mutex_call fifo_futex 3 (TryLock True) demo_sleeping m')"
proof -
  have held: "pcs demo_sleeping 1 = Held" by (simp add: demo_sleeping_def)
  have "set ([] :: tid list) = {}" by simp
  note all = mutual_exclusion [OF fifo_futex.futex_laws_axioms this demo_sleeping_reachable]
  from all held have "word demo_sleeping \<noteq> UNLOCKED" "pcs demo_sleeping 3 = Held \<longrightarrow> (3 :: tid) = 1"
    "\<nexists>m'. mutex_call fifo_futex 3 (TryLock True) demo_sleeping m'" by blast+
  moreover have "is_locked LOCKED" using all held demo_asks(1) by blast
  ultimately show ?thesis using held by simp
qed

text \<open>C31. No sleeper is forgotten: as long as a thread sleeps in \<open>lock\<close>, either the mutex is held and
  marked contended, so that its \<open>unlock\<close> will wake a sleeper, or some thread is on its way to wake one
  or to mark the mutex contended. In particular the mutex is never idle with a thread asleep.\<close>

theorem no_sleeper_forgotten:
  assumes "futex_laws fx sleepers" and "sleepers k0 = {}" and "mutex_reachable fx k0 m"
    and "pcs m t = Asleep"
  shows "(\<exists>u. pcs m u = Held \<and> unlock (word m) = (True, UNLOCKED)) \<or> (\<exists>u. on_the_way (pcs m u))"
proof -
  from futex_laws.reachable_mutex_inv [OF assms(1,3,2)]
  have inv: "if word m = UNLOCKED then holders m = {} else \<exists>t. holders m = {t}"
    "asleep m \<noteq> {} \<longrightarrow> word m = CONTENDED \<or> threads on_the_way m \<noteq> {}"
    by (simp_all add: mutex_inv_def)
  have "asleep m \<noteq> {}" using assms(4) by (auto simp: threads_def)
  with inv(2) consider "word m = CONTENDED" | "threads on_the_way m \<noteq> {}" by blast
  then show ?thesis
  proof cases
    case 1
    with inv(1) obtain u where "u \<in> holders m" by auto
    then have "pcs m u = Held" by (simp add: in_threads)
    with 1 show ?thesis by (auto simp: unlock_def)
  next
    case 2
    then show ?thesis by (auto simp: threads_def)
  qed
qed

theorem no_sleeper_forgotten_witness:
  "pcs demo_sleeping 2 = Asleep \<and>
    ((\<exists>u. pcs demo_sleeping u = Held \<and> unlock (word demo_sleeping) = (True, UNLOCKED)) \<or>
     (\<exists>u. on_the_way (pcs demo_sleeping u)))"
  using no_sleeper_forgotten [OF fifo_futex.futex_laws_axioms _ demo_sleeping_reachable, of 2]
  by (simp add: demo_sleeping_def)

text \<open>An abstract lock: free, or held by one thread.\<close>

inductive lock_step :: "tid option \<Rightarrow> tid option \<Rightarrow> bool" where
  acquires: "lock_step None (Some t)"
| releases: "lock_step (Some t) None"

definition holder_is :: "'k raw_mutex \<Rightarrow> tid option \<Rightarrow> bool" where
  "holder_is m h \<longleftrightarrow> (\<forall>t. pcs m t = Held \<longleftrightarrow> h = Some t)"

lemma holder_goto:
  assumes "holder_is m h"
  shows "pcs m t \<noteq> Held \<Longrightarrow> c \<noteq> Held \<Longrightarrow> holder_is (goto m t c) h"
    and "h = None \<Longrightarrow> holder_is (goto m t Held) (Some t)"
    and "pcs m t = Held \<Longrightarrow> c \<noteq> Held \<Longrightarrow> h = Some t \<and> holder_is (goto m t c) None"
  using assms by (auto simp: holder_is_def)

lemma holder_other [simp]: "holder_is (rmw ord v t m) h = holder_is m h" "holder_is (load i t m) h = holder_is m h"
  "holder_is (m\<lparr>kernel := k\<rparr>) h = holder_is m h"
  by (simp_all add: holder_is_def)

lemma lock_taken:
  "holder_is m h \<Longrightarrow> h = None \<Longrightarrow>
    \<exists>h'. holder_is (goto (rmw ord v t m) t Held) h' \<and> (h' = h \<or> lock_step h h')"
  using holder_goto(2) [of "rmw ord v t m" h t] by (auto intro: lock_step.intros)

text \<open>C32. The mutex refines the abstract lock: every step of every thread either leaves the holder as it
  is, or is a free lock being taken by one thread, or the lock being released by its holder.\<close>

theorem mutex_refines_lock:
  assumes "futex_laws fx sleepers" and "sleepers k0 = {}" and "mutex_reachable fx k0 m"
    and "mutex_step fx m m'" and "holder_is m h"
  shows "\<exists>h'. holder_is m' h' \<and> (h' = h \<or> lock_step h h')"
proof -
  have free: "h = None" if "word m = UNLOCKED"
    using futex_laws.reachable_mutex_inv [OF assms(1,3,2)] assms(5) that
    by (cases h) (auto simp: mutex_inv_def holder_is_def threads_def)
  note move = holder_goto [OF assms(5)]
  from assms(4) obtain t c where "mutex_call fx t c m m'" by (auto simp: mutex_step_def)
  then show ?thesis
  proof cases
    case (wake_one u k)
    with futex_laws.law_wake_one [OF assms(1) wake_one(4)] futex_laws.reachable_mutex_inv [OF assms(1,3,2)]
    have "pcs m u = Asleep" by (auto simp: mutex_inv_def threads_def)
    with move(1) [of u "Spin True SPINS"] wake_one show ?thesis
      by (intro exI [of _ h]) (auto intro!: holder_goto(1) split: if_splits)
  next
    case (unlocks contended w)
    then show ?thesis
      using move(3) [of t "if contended then Wake else Out"]
      by (intro exI [of _ None]) (auto simp: holder_is_def intro: lock_step.intros)
  next
    case (try_succeeds w)
    with lock_taken [OF assms(5) free] show ?thesis by (auto simp: try_lock_def split: if_splits)
  next
    case (top_swap v)
    with lock_taken [OF assms(5) free] holder_goto(1) [of "rmw Acquire CONTENDED t m" h t Wait] assms(5) show ?thesis
      by (cases "word m = UNLOCKED") auto
  qed (use assms(5) lock_taken [OF assms(5) free] in \<open>auto intro!: exI [of _ h] holder_goto(1)\<close>)
qed

theorem mutex_refines_lock_witness:
  "mutex_step fifo_futex demo_sleeping (goto (rmw Release UNLOCKED 1 demo_sleeping) 1 Wake) \<and>
    (\<exists>h'. holder_is (goto (rmw Release UNLOCKED 1 demo_sleeping) 1 Wake) h' \<and> (h' = Some 1 \<or> lock_step (Some 1) h'))"
proof -
  have "mutex_call fifo_futex 1 Unlock demo_sleeping (goto (rmw Release UNLOCKED 1 demo_sleeping) 1 (if True then Wake else Out))"
    by (rule mutex_call.unlocks) (simp_all add: demo_sleeping_def word_def unlock_def)
  then have step: "mutex_step fifo_futex demo_sleeping (goto (rmw Release UNLOCKED 1 demo_sleeping) 1 Wake)"
    by (auto intro: call_step)
  have "holder_is demo_sleeping (Some 1)" by (auto simp: holder_is_def demo_sleeping_def)
  with mutex_refines_lock [OF fifo_futex.futex_laws_axioms _ demo_sleeping_reachable step] step
  show ?thesis by simp
qed

end
