(* ===== verification/Locked_Data.thy ===== *)
theory Locked_Data
  imports Raw_Mutex
begin

text \<open>
  flag-bearer-mutex/src/lib.rs and what the queue relies on it for. The crate's \<open>RawMutex\<close> is a newtype that
  forwards to the mutex of the platform, on linux that of \<open>Raw_Mutex\<close>. \<open>lock_api::Mutex\<close> pairs a raw mutex
  with data: a guard gives access to the data between taking the mutex and giving it back. Here a section
  of code under the guard is any number of accesses to the data, interleaved with the steps of all other
  threads. The data is ordinary memory: an access that is not ordered after all earlier ones races with them, and may find
  an old version. The theorem is that sections nevertheless happen one after the other, without a race.
\<close>

section \<open>The newtype\<close>

datatype 'i default_mutex = RawMutex (raw_inner: 'i)

definition default_init :: "'k \<Rightarrow> 'k raw_mutex default_mutex" where
  "default_init k = RawMutex (mutex_init k)"

text \<open>Each method calls that of the inner mutex: one access of the thread in its call of the one is one in its call of the
  other, with the same answer.\<close>

type_synonym 'k default_access = "tid \<Rightarrow> 'k raw_mutex default_mutex \<Rightarrow> 'k raw_mutex default_mutex \<Rightarrow> bool"

definition default_lock :: "'k futex_api \<Rightarrow> 'k default_access" where
  "default_lock fx t this this' \<longleftrightarrow> mutex_call fx t Lock (raw_inner this) (raw_inner this')"

definition default_try_lock :: "'k futex_api \<Rightarrow> bool \<Rightarrow> 'k default_access" where
  "default_try_lock fx b t this this' \<longleftrightarrow> mutex_call fx t (TryLock b) (raw_inner this) (raw_inner this')"

definition default_unlock :: "'k futex_api \<Rightarrow> 'k default_access" where
  "default_unlock fx t this this' \<longleftrightarrow> mutex_call fx t Unlock (raw_inner this) (raw_inner this')"

definition default_is_locked :: "'k futex_api \<Rightarrow> bool \<Rightarrow> 'k default_access" where
  "default_is_locked fx b t this this' \<longleftrightarrow> mutex_call fx t (IsLocked b) (raw_inner this) (raw_inner this')"

fun default_call :: "'k futex_api \<Rightarrow> lock_method \<Rightarrow> 'k default_access" where
  "default_call fx Lock = default_lock fx"
| "default_call fx (TryLock b) = default_try_lock fx b"
| "default_call fx Unlock = default_unlock fx"
| "default_call fx (IsLocked b) = default_is_locked fx b"

definition default_step :: "'k futex_api \<Rightarrow> 'k raw_mutex default_mutex \<Rightarrow> 'k raw_mutex default_mutex \<Rightarrow> bool" where
  "default_step fx m m' \<longleftrightarrow> (\<exists>t c. default_call fx c t m m')"

lemmas default_methods = default_lock_def default_try_lock_def default_unlock_def default_is_locked_def

text \<open>Forwarding neither adds nor loses anything.\<close>

lemma default_call_iff: "default_call fx c t m m' \<longleftrightarrow> mutex_call fx t c (raw_inner m) (raw_inner m')"
  by (cases c) (simp_all add: default_methods)

section \<open>Data behind a mutex\<close>

text \<open>
  What the sections need to know of a mutex: its steps; who is between taking it and giving it back; how many accesses to
  the data happen before what a thread does next, and that a thread knows of its own.
\<close>

record 'm mutex_api =
  mx_step :: "'m \<Rightarrow> 'm \<Rightarrow> bool"
  mx_held :: "'m \<Rightarrow> tid \<Rightarrow> bool"
  mx_knows :: "'m \<Rightarrow> tid \<Rightarrow> nat"
  mx_learn :: "'m \<Rightarrow> tid \<Rightarrow> nat \<Rightarrow> 'm"

text \<open>A thread that has taken the mutex starts a section with a local state that \<open>begins\<close> allows, does accesses of \<open>micro\<close>,
  and gives the mutex back when its local state is final; the guard is dropped on a return and on a panic
  alike, so both are final.\<close>

record ('d, 'l) code =
  begins :: "'l \<Rightarrow> bool"
  micro :: "'d \<times> 'l \<Rightarrow> 'd \<times> 'l \<Rightarrow> bool"
  final :: "'l \<Rightarrow> bool"

text \<open>The data has a version for every access so far, also for one that only reads.\<close>

record ('m, 'd, 'l) locked =
  lk_mutex :: 'm
  lk_versions :: "'d list"
  lk_local :: "tid \<Rightarrow> 'l"

text \<open>Nothing in these steps keeps two threads from working at the same time, or lets an access find the last version
  rather than any that the thread does not know to be out of date: that is the mutex's task.\<close>

inductive locked_step :: "'m mutex_api \<Rightarrow> ('d, 'l) code \<Rightarrow> ('m, 'd, 'l) locked \<Rightarrow> ('m, 'd, 'l) locked \<Rightarrow> bool"
  for X C where
  quiet: "mx_step X (lk_mutex s) m \<Longrightarrow> mx_held X m = mx_held X (lk_mutex s) \<Longrightarrow>
    locked_step X C s (s\<lparr>lk_mutex := m\<rparr>)"
| takes: "mx_step X (lk_mutex s) m \<Longrightarrow> \<not> mx_held X (lk_mutex s) t \<Longrightarrow>
    mx_held X m = (mx_held X (lk_mutex s))(t := True) \<Longrightarrow> begins C l \<Longrightarrow>
    locked_step X C s (s\<lparr>lk_mutex := m, lk_local := (lk_local s)(t := l)\<rparr>)"
| works: "mx_held X (lk_mutex s) t \<Longrightarrow> mx_knows X (lk_mutex s) t \<le> i \<Longrightarrow> i < length (lk_versions s) \<Longrightarrow>
    micro C (lk_versions s ! i, lk_local s t) (d, l) \<Longrightarrow>
    locked_step X C s (s\<lparr>lk_mutex := mx_learn X (lk_mutex s) t (length (lk_versions s)),
      lk_versions := lk_versions s @ [d], lk_local := (lk_local s)(t := l)\<rparr>)"
| gives: "mx_step X (lk_mutex s) m \<Longrightarrow> mx_held X (lk_mutex s) t \<Longrightarrow> final C (lk_local s t) \<Longrightarrow>
    mx_held X m = (mx_held X (lk_mutex s))(t := False) \<Longrightarrow> locked_step X C s (s\<lparr>lk_mutex := m\<rparr>)"

inductive locked_reachable :: "'m mutex_api \<Rightarrow> ('d, 'l) code \<Rightarrow> 'm \<Rightarrow> 'd \<Rightarrow> ('m, 'd, 'l) locked \<Rightarrow> bool"
  for X C m0 d0 where
  fresh: "lk_mutex s = m0 \<Longrightarrow> lk_versions s = [d0] \<Longrightarrow> locked_reachable X C m0 d0 s"
| onward: "locked_reachable X C m0 d0 s \<Longrightarrow> locked_step X C s s' \<Longrightarrow> locked_reachable X C m0 d0 s'"

text \<open>The specification: whole sections, one after the other.\<close>

definition atomic_step :: "('d, 'l) code \<Rightarrow> 'd \<Rightarrow> 'd \<Rightarrow> bool" where
  "atomic_step C d d' \<longleftrightarrow> (\<exists>l l'. begins C l \<and> (micro C)\<^sup>*\<^sup>* (d, l) (d', l') \<and> final C l')"

text \<open>The data is what the completed sections made of it, and what the holder has done since.\<close>

definition serial :: "('d, 'l) code \<Rightarrow> 'd \<Rightarrow> (tid \<Rightarrow> bool) \<Rightarrow> 'd \<Rightarrow> (tid \<Rightarrow> 'l) \<Rightarrow> 'd \<Rightarrow> bool" where
  "serial C d0 h d ls base \<longleftrightarrow> (atomic_step C)\<^sup>*\<^sup>* d0 base \<and> ((\<forall>t. \<not> h t) \<longrightarrow> d = base) \<and>
     (\<forall>t. h t \<longrightarrow> (\<exists>l. begins C l \<and> (micro C)\<^sup>*\<^sup>* (base, l) (d, ls t)))"

section \<open>What a mutex must promise\<close>

text \<open>\<open>ok\<close> is an invariant of the mutex. At most one thread holds it, and the holder knows of whatever anyone knows of.\<close>

locale exclusive_lock =
  fixes X :: "'m mutex_api"
    and start :: "'m \<Rightarrow> bool"
    and ok :: "'m \<Rightarrow> bool"
  assumes start_ok: "start m \<Longrightarrow> ok m"
    and start_free: "start m \<Longrightarrow> \<not> mx_held X m t"
    and start_knows: "start m \<Longrightarrow> mx_knows X m t = 0"
    and step_ok: "ok m \<Longrightarrow> mx_step X m m' \<Longrightarrow> ok m'"
    and learn_ok: "ok m \<Longrightarrow> mx_held X m t \<Longrightarrow> mx_knows X m t \<le> n \<Longrightarrow> ok (mx_learn X m t n)"
    and learn_held: "mx_held X (mx_learn X m t n) = mx_held X m"
    and learn_knows: "mx_knows X (mx_learn X m t n) = (mx_knows X m)(t := n)"
    and exclusive: "ok m \<Longrightarrow> mx_held X m t \<Longrightarrow> mx_held X m u \<Longrightarrow> t = u"
    and holder_knows: "ok m \<Longrightarrow> mx_held X m t \<Longrightarrow> mx_knows X m u \<le> mx_knows X m t"
    and never_forgets: "ok m \<Longrightarrow> mx_step X m m' \<Longrightarrow> mx_knows X m t \<le> mx_knows X m' t"
    and no_prophets: "ok m \<Longrightarrow> mx_step X m m' \<Longrightarrow> \<exists>u. mx_knows X m' t \<le> mx_knows X m u"
begin

text \<open>Some thread knows of the last access, and none of more.\<close>

definition informed :: "('m, 'd, 'l) locked \<Rightarrow> bool" where
  "informed s \<longleftrightarrow> ok (lk_mutex s) \<and> lk_versions s \<noteq> [] \<and>
     (\<exists>u. mx_knows X (lk_mutex s) u = length (lk_versions s) - 1) \<and>
     (\<forall>u. mx_knows X (lk_mutex s) u \<le> length (lk_versions s) - 1)"

lemma informed_holder:
  assumes "informed s" and "mx_held X (lk_mutex s) t"
  shows "mx_knows X (lk_mutex s) t = length (lk_versions s) - 1"
  using assms holder_knows [of "lk_mutex s" t] unfolding informed_def by (metis le_antisym)

lemma informed_step:
  assumes "informed s" and "mx_step X (lk_mutex s) m" and "lk_mutex s' = m" and "lk_versions s' = lk_versions s"
  shows "informed s'"
proof -
  have ok: "ok (lk_mutex s)" using assms(1) by (simp add: informed_def)
  have top: "mx_knows X m u \<le> length (lk_versions s) - 1" for u
    using no_prophets [OF ok assms(2), of u] assms(1) unfolding informed_def by (meson le_trans)
  obtain u where "mx_knows X (lk_mutex s) u = length (lk_versions s) - 1" using assms(1) by (auto simp: informed_def)
  with never_forgets [OF ok assms(2), of u] top [of u] have "mx_knows X m u = length (lk_versions s) - 1" by simp
  with top assms(1,3,4) step_ok [OF ok assms(2)] show ?thesis by (auto simp: informed_def)
qed

lemma informed_works:
  assumes "informed s" and "mx_held X (lk_mutex s) t"
    and "lk_mutex s' = mx_learn X (lk_mutex s) t (length (lk_versions s))" and "lk_versions s' = lk_versions s @ [d]"
  shows "informed s'"
proof -
  have le: "mx_knows X (lk_mutex s) u \<le> length (lk_versions s)" for u
    using assms(1) unfolding informed_def by (meson diff_le_self le_trans)
  have "ok (mx_learn X (lk_mutex s) t (length (lk_versions s)))"
    using assms(1) by (intro learn_ok assms(2) le) (simp add: informed_def)
  with assms(3,4) le show ?thesis by (auto simp: informed_def learn_knows)
qed

lemma locked_informed:
  assumes "locked_step X C s s'" and "informed s"
  shows "informed s'"
  using assms(1)
proof cases
  case (works t i d l)
  then show ?thesis by (intro informed_works [OF assms(2), of t]) simp_all
qed (auto intro: informed_step [OF assms(2)])

lemma step_serial:
  assumes "informed s" and "locked_step X C s s'"
    and ser: "serial C d0 (mx_held X (lk_mutex s)) (last (lk_versions s)) (lk_local s) base"
  shows "\<exists>base. serial C d0 (mx_held X (lk_mutex s')) (last (lk_versions s')) (lk_local s') base"
  using assms(2)
proof cases
  case (quiet m)
  with ser show ?thesis by (auto simp: serial_def)
next
  case (takes m t l)
  have ok: "ok (lk_mutex s')" using locked_informed [OF assms(2,1)] by (simp add: informed_def)
  have m: "lk_mutex s' = m" "lk_versions s' = lk_versions s" "lk_local s' = (lk_local s)(t := l)"
    unfolding takes(1) by simp_all
  have t: "mx_held X m t" unfolding takes(4) by simp
  have held: "mx_held X m u \<longleftrightarrow> u = t" for u
    using exclusive [OF ok, of u t] t unfolding m by blast
  have "\<not> mx_held X (lk_mutex s) u" for u
    using held [of u] takes(3) unfolding takes(4) by (cases "u = t") simp_all
  with ser have "(atomic_step C)\<^sup>*\<^sup>* d0 base" "last (lk_versions s) = base" by (simp_all add: serial_def)
  with takes(5) have "serial C d0 (mx_held X (lk_mutex s')) (last (lk_versions s')) (lk_local s') base"
    unfolding serial_def m held by auto
  then show ?thesis ..
next
  case (works t i d l)
  have ok: "ok (lk_mutex s)" using assms(1) by (simp add: informed_def)
  have m: "mx_held X (lk_mutex s') = mx_held X (lk_mutex s)" "last (lk_versions s') = d"
      "lk_local s' = (lk_local s)(t := l)"
    unfolding works(1) by (simp_all add: learn_held)
  have held: "mx_held X (lk_mutex s) u \<longleftrightarrow> u = t" for u
    using exclusive [OF ok, of u t] works(2) by blast
  have "i = length (lk_versions s) - 1" using informed_holder [OF assms(1) works(2)] works(3,4) by simp
  then have "lk_versions s ! i = last (lk_versions s)" using assms(1) by (simp add: informed_def last_conv_nth)
  with works(5) have work: "micro C (last (lk_versions s), lk_local s t) (d, l)" by simp
  from ser works(2) obtain l0 where l0: "begins C l0" "(micro C)\<^sup>*\<^sup>* (base, l0) (last (lk_versions s), lk_local s t)"
    unfolding serial_def by blast
  from this(2) work have "(micro C)\<^sup>*\<^sup>* (base, l0) (d, l)" by (rule rtranclp.rtrancl_into_rtrancl)
  moreover have "(atomic_step C)\<^sup>*\<^sup>* d0 base" using ser unfolding serial_def by blast
  ultimately have "serial C d0 (mx_held X (lk_mutex s')) (last (lk_versions s')) (lk_local s') base"
    unfolding serial_def m held using l0(1) by auto
  then show ?thesis ..
next
  case (gives m t)
  have ok: "ok (lk_mutex s)" using assms(1) by (simp add: informed_def)
  have m: "lk_mutex s' = m" "lk_versions s' = lk_versions s" "lk_local s' = lk_local s"
    unfolding gives(1) by simp_all
  have free: "\<not> mx_held X m u" for u
    using exclusive [OF ok _ gives(3), of u] unfolding gives(5) by (cases "u = t") auto
  from ser gives(3,4) have "atomic_step C base (last (lk_versions s))" "(atomic_step C)\<^sup>*\<^sup>* d0 base"
    unfolding serial_def atomic_step_def by blast+
  then have "(atomic_step C)\<^sup>*\<^sup>* d0 (last (lk_versions s))" by (meson rtranclp.rtrancl_into_rtrancl)
  then have "serial C d0 (mx_held X (lk_mutex s')) (last (lk_versions s')) (lk_local s') (last (lk_versions s))"
    unfolding serial_def m using free by blast
  then show ?thesis ..
qed

lemma reachable_serial:
  assumes "start m0"
  shows "locked_reachable X C m0 d0 s \<Longrightarrow>
    informed s \<and> (\<exists>base. serial C d0 (mx_held X (lk_mutex s)) (last (lk_versions s)) (lk_local s) base)"
proof (induction rule: locked_reachable.induct)
  case (fresh s)
  with start_free [OF assms] start_ok [OF assms] start_knows [OF assms] show ?case
    by (auto simp: serial_def informed_def)
next
  case (onward s s')
  with locked_informed [OF onward.hyps(2)] step_serial [OF _ onward.hyps(2)] show ?case by blast
qed

end

section \<open>The two mutexes\<close>

abbreviation has_lock :: "'k raw_mutex \<Rightarrow> tid \<Rightarrow> bool" where
  "has_lock m t \<equiv> pcs m t = Held"

definition raw_api :: "'k futex_api \<Rightarrow> 'k raw_mutex mutex_api" where
  "raw_api fx = \<lparr>mx_step = mutex_step fx, mx_held = has_lock, mx_knows = knows, mx_learn = learn\<rparr>"

definition default_api :: "'k futex_api \<Rightarrow> 'k raw_mutex default_mutex mutex_api" where
  "default_api fx = \<lparr>mx_step = default_step fx, mx_held = (\<lambda>m. has_lock (raw_inner m)),
     mx_knows = (\<lambda>m. knows (raw_inner m)), mx_learn = (\<lambda>m t n. RawMutex (learn (raw_inner m) t n))\<rparr>"

lemma api_simps [simp]:
  "mx_step (raw_api fx) = mutex_step fx" "mx_held (raw_api fx) = has_lock" "mx_knows (raw_api fx) = knows"
  "mx_learn (raw_api fx) = learn"
  "mx_step (default_api fx) = default_step fx" "mx_held (default_api fx) m = has_lock (raw_inner m)"
  "mx_knows (default_api fx) m = knows (raw_inner m)" "mx_learn (default_api fx) m t n = RawMutex (learn (raw_inner m) t n)"
  by (simp_all add: raw_api_def default_api_def)

lemma default_step_iff: "default_step fx m m' \<longleftrightarrow> mutex_step fx (raw_inner m) (raw_inner m')"
  by (auto simp: default_step_def mutex_step_def default_call_iff)

context futex_laws
begin

text \<open>What the accesses of the futex mutex do to the views.\<close>

lemma step_knows:
  assumes "mutex_ok sleepers m" and "mutex_step fx m m'"
  shows "knows m t \<le> knows m' t \<and> (\<exists>u. knows m' t \<le> knows m u)"
proof -
  obtain u where u: "published m \<le> knows m u" using assms(1) by (auto simp: mutex_ok_def publishes_def)
  from assms(2) obtain v c where "mutex_call fx v c m m'" by (auto simp: mutex_step_def)
  then have "knows m' t = knows m t \<or> knows m' t = max (knows m t) (published m)" by cases auto
  with u show ?thesis by (auto simp: max_def)
qed

end

sublocale futex_laws < futex: exclusive_lock "raw_api fx" "\<lambda>m. \<exists>k. m = mutex_init k \<and> sleepers k = {}" "mutex_ok sleepers"
proof
  fix m m' t u n
  assume ok: "mutex_ok sleepers m"
  then have inv: "mutex_inv sleepers m" "publishes m" by (simp_all add: mutex_ok_def)
  {
    assume "mx_step (raw_api fx) m m'"
    with ok show "mutex_ok sleepers m'" "mx_knows (raw_api fx) m t \<le> mx_knows (raw_api fx) m' t"
      "\<exists>u. mx_knows (raw_api fx) m' t \<le> mx_knows (raw_api fx) m u"
      using step_knows [OF ok, of m' t] by (auto simp: mutex_step_def intro: call_ok)
  next
    assume "mx_held (raw_api fx) m t" "mx_held (raw_api fx) m u"
    with inv(1) show "t = u" using one_holder [of m t] by (auto simp: threads_def)
  next
    assume "mx_held (raw_api fx) m t" "mx_knows (raw_api fx) m t \<le> n"
    with ok show "mutex_ok sleepers (mx_learn (raw_api fx) m t n)" by (simp add: learn_ok)
  next
    assume "mx_held (raw_api fx) m t"
    with inv(2) show "mx_knows (raw_api fx) m u \<le> mx_knows (raw_api fx) m t" by (simp add: publishes_def in_threads)
  }
qed (force simp: init_ok, auto simp: mutex_init_def)

text \<open>Forwarding keeps the promise.\<close>

sublocale futex_laws < default: exclusive_lock "default_api fx" "\<lambda>m. \<exists>k. m = default_init k \<and> sleepers k = {}"
  "\<lambda>m. mutex_ok sleepers (raw_inner m)"
proof
  fix m m' t
  assume "mutex_ok sleepers (raw_inner m)" "mx_step (default_api fx) m m'"
  then show "mutex_ok sleepers (raw_inner m')" "mx_knows (default_api fx) m t \<le> mx_knows (default_api fx) m' t"
    "\<exists>u. mx_knows (default_api fx) m' t \<le> mx_knows (default_api fx) m u"
    using futex.step_ok [of "raw_inner m" "raw_inner m'"] futex.never_forgets [of "raw_inner m" "raw_inner m'"]
      futex.no_prophets [of "raw_inner m" "raw_inner m'"] by (simp_all add: default_step_iff)
next
  fix m t n
  assume "mutex_ok sleepers (raw_inner m)" "mx_held (default_api fx) m t" "mx_knows (default_api fx) m t \<le> n"
  then show "mutex_ok sleepers (raw_inner (mx_learn (default_api fx) m t n))" by (simp add: learn_ok)
next
  fix m t u
  assume "mutex_ok sleepers (raw_inner m)" "mx_held (default_api fx) m t"
  then show "mx_held (default_api fx) m u \<Longrightarrow> t = u" "mx_knows (default_api fx) m u \<le> mx_knows (default_api fx) m t"
    using futex.exclusive [of "raw_inner m" t u] futex.holder_knows [of "raw_inner m" t u] by simp_all
qed (force simp: default_init_def init_ok, auto simp: default_init_def mutex_init_def fun_eq_iff)

context futex_laws
begin

lemma default_serial:
  assumes "sleepers k0 = {}" and "locked_reachable (default_api fx) C (default_init k0) d0 s"
  shows "\<exists>base. serial C d0 (has_lock (raw_inner (lk_mutex s))) (last (lk_versions s)) (lk_local s) base"
    and "has_lock (raw_inner (lk_mutex s)) t \<Longrightarrow> knows (raw_inner (lk_mutex s)) t = length (lk_versions s) - 1"
  using default.reachable_serial [OF _ assms(2)] default.informed_holder [of s t] assms(1) by auto

end

section \<open>Property\<close>

text \<open>C33. Sections are atomic: whatever code runs between taking the default mutex and giving it back, in
  however many accesses to the data and however the threads interleave, the data is what some sequence of whole
  sections makes of the initial data, and, while a thread holds the mutex, what that thread has done since
  in the section it is in. Every earlier access of anyone happens before the next one of the holder, so it races with none
  and finds the last version: the release of \<open>unlock\<close> and the acquires of \<open>lock\<close> and \<open>try_lock\<close> suffice.\<close>

theorem sections_are_atomic:
  assumes "futex_laws fx sleepers" and "sleepers k0 = {}"
    and "locked_reachable (default_api fx) C (default_init k0) d0 s"
  shows "\<exists>base. (atomic_step C)\<^sup>*\<^sup>* d0 base \<and>
    ((\<forall>t. \<not> has_lock (raw_inner (lk_mutex s)) t) \<longrightarrow> last (lk_versions s) = base) \<and>
    (\<forall>t. has_lock (raw_inner (lk_mutex s)) t \<longrightarrow>
      knows (raw_inner (lk_mutex s)) t = length (lk_versions s) - 1 \<and>
      (\<exists>l. begins C l \<and> (micro C)\<^sup>*\<^sup>* (base, l) (last (lk_versions s), lk_local s t)))"
  using futex_laws.default_serial [OF assms] unfolding serial_def by blast

text \<open>Sections that add two, one at a time: thread 1 is in the middle of its first section.\<close>

definition demo_code :: "(nat, nat) code" where
  "demo_code = \<lparr>begins = (\<lambda>l. l = 2), micro = (\<lambda>(d, l) (d', l'). l = Suc l' \<and> d' = Suc d), final = (\<lambda>l. l = 0)\<rparr>"

definition demo_taken :: "tid list raw_mutex default_mutex" where
  "demo_taken = RawMutex (goto (rmw Acquire LOCKED 1 (mutex_init [])) 1 Held)"

definition demo_half :: "(tid list raw_mutex default_mutex, nat, nat) locked" where
  "demo_half = \<lparr>lk_mutex = RawMutex (learn (raw_inner demo_taken) 1 1), lk_versions = [0, 1], lk_local = (\<lambda>_. 0)(1 := 1)\<rparr>"

lemma demo_half_reachable: "locked_reachable (default_api fifo_futex) demo_code (default_init []) 0 demo_half"
proof -
  let ?X = "default_api fifo_futex"
  let ?s = "\<lparr>lk_mutex = default_init [], lk_versions = [0], lk_local = \<lambda>_. 0\<rparr> :: (tid list raw_mutex default_mutex, nat, nat) locked"
  let ?t = "\<lparr>lk_mutex = demo_taken, lk_versions = [0], lk_local = (\<lambda>_. 0)(1 := 2)\<rparr> :: (tid list raw_mutex default_mutex, nat, nat) locked"
  have "default_try_lock fifo_futex True 1 (default_init []) demo_taken"
    unfolding default_try_lock_def default_init_def demo_taken_def default_mutex.sel
    by (rule mutex_call.try_succeeds)
      (simp_all add: mutex_init_def word_def try_lock_def between_calls_def UNLOCKED_def)
  then have "default_call fifo_futex (TryLock True) 1 (default_init []) demo_taken" by simp
  then have "mx_step ?X (lk_mutex ?s) demo_taken" unfolding api_simps default_step_def locked.simps by blast
  moreover have "mx_held ?X demo_taken = (mx_held ?X (lk_mutex ?s))(1 := True)"
    by (simp add: fun_eq_iff default_init_def demo_taken_def mutex_init_def)
  ultimately have "locked_step ?X demo_code ?s (?s\<lparr>lk_mutex := demo_taken, lk_local := (lk_local ?s)(1 := 2)\<rparr>)"
    by (intro locked_step.takes) (simp_all add: default_init_def mutex_init_def demo_code_def)
  then have 1: "locked_reachable ?X demo_code (default_init []) 0 ?t"
    by (intro locked_reachable.onward [OF locked_reachable.fresh [of ?s]]) simp_all
  have "locked_step ?X demo_code ?t demo_half"
    using locked_step.works [where X = ?X and C = demo_code and t = 1 and i = 0 and d = 1 and l = 1 and s = ?t]
    by (simp add: demo_code_def demo_half_def demo_taken_def mutex_init_def published_def)
  with 1 show ?thesis by (rule locked_reachable.onward)
qed

theorem sections_are_atomic_witness:
  "has_lock (raw_inner (lk_mutex demo_half)) 1 \<and> last (lk_versions demo_half) = 1 \<and>
    (\<exists>base. (atomic_step demo_code)\<^sup>*\<^sup>* 0 base \<and> (\<exists>l. l = 2 \<and> (micro demo_code)\<^sup>*\<^sup>* (base, l) (1, 1)))"
proof -
  have held: "has_lock (raw_inner (lk_mutex demo_half)) 1" "last (lk_versions demo_half) = 1" "lk_local demo_half 1 = 1"
    by (simp_all add: demo_half_def demo_taken_def)
  have "set ([] :: tid list) = {}" by simp
  from sections_are_atomic [OF fifo_futex.futex_laws_axioms this demo_half_reachable] held
  have "\<exists>base. (atomic_step demo_code)\<^sup>*\<^sup>* 0 base \<and> (\<exists>l. begins demo_code l \<and> (micro demo_code)\<^sup>*\<^sup>* (base, l) (1, 1))"
    by metis
  with held show ?thesis by (simp add: demo_code_def)
qed

end
