(* ===== verification/Debug_Output.thy ===== *)
theory Debug_Output
  imports Locked_Data Semaphore
begin

text \<open>
  The \<open>Debug\<close> implementations of flag-bearer and flag-bearer-queue, for the format \<open>{:?}\<close>. That of the queue
  tries the mutex and never waits for it, so a semaphore can be printed while its own mutex is held, for
  example from a closure of \<open>with_state\<close>.
\<close>

section \<open>The builder of the standard library\<close>

text \<open>\<open>debug_struct\<close> with the fields that were added, and its two ends.\<close>

fun debug_fields :: "(string \<times> string) list \<Rightarrow> string" where
  "debug_fields [] = []"
| "debug_fields [(f, v)] = f @ '': '' @ v"
| "debug_fields ((f, v) # fs) = f @ '': '' @ v @ '', '' @ debug_fields fs"

definition debug_finish :: "string \<Rightarrow> (string \<times> string) list \<Rightarrow> string" where
  "debug_finish name fs = (if fs = [] then name else name @ '' { '' @ debug_fields fs @ '' }'')"

definition debug_finish_non_exhaustive :: "string \<Rightarrow> (string \<times> string) list \<Rightarrow> string" where
  "debug_finish_non_exhaustive name fs =
     (if fs = [] then name @ '' { .. }'' else name @ '' { '' @ debug_fields fs @ '', .. }'')"

section \<open>The implementations\<close>

text \<open>\<open>dbg\<close> is the \<open>Debug\<close> of the user's state, and \<open>got\<close> what \<open>try_lock\<close> of the mutex answers; the guard is dropped after
  the formatting.\<close>

definition queue_state_debug :: "('s \<Rightarrow> string) \<Rightarrow> ('m, 's, 'o) queue_state \<Rightarrow> string" where
  "queue_state_debug dbg q = debug_finish_non_exhaustive ''SemaphoreQueue'' [(''state'', dbg (state q))]"

definition semaphore_queue_debug :: "('s \<Rightarrow> string) \<Rightarrow> bool \<Rightarrow> ('m, 's, 'o) queue_state \<Rightarrow> string" where
  "semaphore_queue_debug dbg got q = (if got then queue_state_debug dbg q else ''<locked>'')"

definition semaphore_debug :: "('s \<Rightarrow> string) \<Rightarrow> bool \<Rightarrow> ('m, 's, 'o) queue_state \<Rightarrow> string" where
  "semaphore_debug dbg got q = debug_finish ''Semaphore'' [(''queue'', semaphore_queue_debug dbg got q)]"

text \<open>That of a permit shows the value; \<open>None\<close> for one whose value was moved out, which is never shown.\<close>

definition permit_debug :: "('a \<Rightarrow> string) \<Rightarrow> ('a, 'e) permit \<Rightarrow> string option" where
  "permit_debug dbg this = (case dw_t this of
     None \<Rightarrow> None
   | Some t \<Rightarrow> Some (debug_finish_non_exhaustive ''Permit'' [(''permit'', dbg t)]))"

section \<open>What is printed\<close>

lemma semaphore_debug_free:
  "semaphore_debug dbg True q = ''Semaphore { queue: SemaphoreQueue { state: '' @ dbg (state q) @ '', .. } }''"
  by (simp add: semaphore_debug_def semaphore_queue_debug_def queue_state_debug_def
      debug_finish_def debug_finish_non_exhaustive_def)

lemma semaphore_debug_held: "semaphore_debug dbg False q = ''Semaphore { queue: <locked> }''"
  by (simp add: semaphore_debug_def semaphore_queue_debug_def debug_finish_def)

text \<open>The string that the test of the crate expects.\<close>

lemma semaphore_debug_dummy:
  "semaphore_debug (\<lambda>_. ''Dummy'') True q = ''Semaphore { queue: SemaphoreQueue { state: Dummy, .. } }''"
  by (simp add: semaphore_debug_free)

lemma permit_debug_held:
  "permit_debug dbg (out_of_thin_air e a) = Some (''Permit { permit: '' @ dbg a @ '', .. }'')"
  by (simp add: permit_debug_def out_of_thin_air_def dw_new_def debug_finish_non_exhaustive_def)

text \<open>While a thread holds the mutex, printing, by this thread or another, tells the reader so and does not touch the state
  behind it.\<close>

lemma debug_while_held:
  assumes "futex_laws fx sleepers" and "sleepers k0 = {}" and "mutex_reachable fx k0 (raw_inner m)"
    and "pcs (raw_inner m) t = Held" and "default_try_lock fx got u m m'"
  shows "semaphore_debug dbg got q = ''Semaphore { queue: <locked> }''"
proof -
  have inv: "mutex_inv sleepers (raw_inner m)" by (rule futex_laws.reachable_mutex_inv [OF assms(1,3,2)])
  have "word (raw_inner m) \<noteq> UNLOCKED"
    using futex_laws.one_holder [OF assms(1) inv, of t] assms(4) by (simp add: in_threads)
  then have "\<not> got"
    using assms(5) by (auto simp: default_try_lock_def try_lock_def elim!: try_lock_cases split: if_splits)
  then show ?thesis by (simp add: semaphore_debug_held)
qed

end
