(* ===== verification/Doc_Runs.thy ===== *)
theory Doc_Runs
  imports Connection_Pool Debug_Output
begin

text \<open>
  The programs in the documentation of flag-bearer/src/lib.rs and the tests inside the sources of the crates, as
  functions that run the modelled operations in the order of the code, and what each of them comes to.
\<close>

section \<open>The programs\<close>

text \<open>\<open>block_on\<close> polls the future and sleeps until its waker is invoked; a future that is ready at the first poll
  lets the program go on. \<open>expect\<close> and the arms with \<open>unreachable!()\<close> panic: no result.\<close>

definition ready_now :: "('q \<times> 'c, 'r poll) exec \<Rightarrow> ('q \<times> 'r) option" where
  "ready_now x = (case x of Ret (q, _) (Ready r) \<Rightarrow> Some (q, r) | _ \<Rightarrow> None)"

definition expect :: "'e + 'a \<Rightarrow> 'a option" where
  "expect x = (case x of Inr a \<Rightarrow> Some a | Inl _ \<Rightarrow> None)"

definition unwrap_err :: "'e + 'a \<Rightarrow> 'e option" where
  "unwrap_err x = (case x of Inl e \<Rightarrow> Some e | Inr _ \<Rightarrow> None)"

text \<open>A semaphore like \<open>tokio::sync::Semaphore\<close>: acquire, add permits, release, close. The result is the counter and
  whether the semaphore is closed.\<close>

definition counter_run ::
  "('m, 'v, 64 word, 64 word, 64 word, fair_order, 'w) generics
    \<Rightarrow> ('w, ('m, 64 word, fair_order) queue_state) run_wake \<Rightarrow> 'w \<Rightarrow> nid \<Rightarrow> (64 word \<times> bool) option" where
  "counter_run G0 run cx n = (let (G, q0) = builder_with_state G0 (closeable fifo) 20 in do {
     (q1, res) \<leftarrow> ready_now (acquire_poll G () cx n (sem_acquire 1) q0);
     permit \<leftarrow> expect res;
     ((q2, _), _) \<leftarrow> returned (sem_with_state G run
       (\<lambda>s. case checked_add s 20 of None \<Rightarrow> Panics s | Some c \<Rightarrow> Returns c ()) q1);
     ((q3, _), _) \<leftarrow> returned (permit_drop G run permit q2);
     ((q4, _), _) \<leftarrow> returned (sem_close G run q3);
     Some (state q4, sem_is_closed G q4)
   })"

text \<open>Limits on demand: the state after ten tokens were removed under a permit.\<close>

definition utilisation_run ::
  "('m, 'v, utilisation, unit, unit, fair_order, 'w) generics
    \<Rightarrow> ('w, ('m, utilisation, fair_order) queue_state) run_wake \<Rightarrow> 'w \<Rightarrow> nid \<Rightarrow> utilisation option" where
  "utilisation_run G0 run cx n = (let (G, q0) = builder_with_state G0 fifo (utilisation_new 20) in do {
     (q1, permit) \<leftarrow> ready_now (must_acquire_poll G () cx n (sem_acquire ()) q0);
     ((q2, _), _) \<leftarrow> returned (sem_with_state G run (remove_tokens 10) q1);
     ((q3, _), _) \<leftarrow> returned (permit_drop G run permit q2);
     Some (state q3)
   })"

text \<open>Two values at once: \<open>Utilisation\<close> with \<open>Request\<close>, whose fields are those of \<open>Limits\<close> and \<open>Reservation\<close>.\<close>

definition request_state :: "(limits, reservation, reservation) semaphore_state" where
  "request_state = \<lparr>
     acquire = (\<lambda>self p.
       if requests self \<ge> 1 \<and> free_bytes self \<ge> bytes p
       then (case checked_sub (requests self) 1 of
           None \<Rightarrow> Panics self
         | Some r \<Rightarrow> (case checked_sub (free_bytes self) (bytes p) of
             None \<Rightarrow> Panics (self\<lparr>requests := r\<rparr>)
           | Some b \<Rightarrow> Returns (self\<lparr>requests := r, free_bytes := b\<rparr>) (Inr p)))
       else Returns self (Inl p)),
     release = (\<lambda>self p. case checked_add (requests self) 1 of
         None \<Rightarrow> Panics self
       | Some r \<Rightarrow> (case checked_add (free_bytes self) (bytes p) of
           None \<Rightarrow> Panics (self\<lparr>requests := r\<rparr>)
         | Some b \<Rightarrow> Returns (self\<lparr>requests := r, free_bytes := b\<rparr>) ()))\<rparr>"

lemma request_state_limits: "request_state = limits_state"
  by (simp add: request_state_def limits_state_def fun_eq_iff limits_acquire_def limits_release_def)

text \<open>What is free while the permit is held, and after it was dropped at the end of the block.\<close>

definition request_run ::
  "('m, 'v, limits, reservation, reservation, fair_order, 'w) generics
    \<Rightarrow> ('w, ('m, limits, fair_order) queue_state) run_wake \<Rightarrow> 'w \<Rightarrow> nid \<Rightarrow> (limits \<times> limits) option" where
  "request_run G0 run cx n =
     (let (G, q0) = builder_with_state G0 lifo \<lparr>requests = 20, free_bytes = 1024 * 1024\<rparr> in do {
     (q1, permit) \<leftarrow> ready_now (must_acquire_poll G () cx n (sem_acquire \<lparr>bytes = 64 * 1024\<rparr>) q0);
     ((q2, _), _) \<leftarrow> returned (permit_drop G run permit q1);
     Some (state q1, state q2)
   })"

text \<open>The connection pool: the \<open>timeout\<close> of the documentation drops the future unpolled and reports that the time is up, so
  \<open>acquire_conn\<close> makes a connection; \<open>query\<close> borrows it and leaves it alone. The result is the pool at the end.\<close>

definition conn_run ::
  "('m, 'v, 'c list, unit, 'c, fair_order, 'w) generics
    \<Rightarrow> ('w, ('m, 'c list, fair_order) queue_state) run_wake \<Rightarrow> 'c \<Rightarrow> 'c list option" where
  "conn_run G0 run fresh = (let (G, q0) = builder_with_state G0 lifo [] in do {
     ((q1, _), conn) \<leftarrow> returned (conn_timeout G run () fresh (sem_acquire ()) q0);
     (conn, _) \<leftarrow> returned (Some (permit_deref_mut conn (\<lambda>c. Returns c ())));
     ((q2, _), _) \<leftarrow> returned (permit_drop G run conn q1);
     Some (state q2)
   })"

text \<open>The two programs at \<open>TryAcquireError\<close>: \<open>True\<close> when the expected arm is taken.\<close>

definition no_permits_run :: "('m, 'v, 64 word, unit, unit, fair_order, 'w) generics \<Rightarrow> bool" where
  "no_permits_run G0 = (let (G, q0) = builder_with_state G0 fifo 0 in
     case sem_try_acquire G () () q0 of Ret _ (Inl (NoPermits _)) \<Rightarrow> True | _ \<Rightarrow> False)"

definition closed_run ::
  "('m, 'v, 64 word, unit, unit, fair_order, 'w) generics
    \<Rightarrow> ('w, ('m, 64 word, fair_order) queue_state) run_wake \<Rightarrow> bool" where
  "closed_run G0 run = (let (G, q0) = builder_with_state G0 (closeable fifo) 1 in
     case sem_close G run q0 of
       Some (Ret (q1, _) _) \<Rightarrow>
         (case sem_try_acquire G () () q1 of Ret _ (Inl (TryClosed _)) \<Rightarrow> True | _ \<Rightarrow> False)
     | _ \<Rightarrow> False)"

section \<open>The tests inside the sources\<close>

text \<open>\<open>Dummy\<close> of flag-bearer/src/lib.rs grants everything, \<open>NeverSucceeds\<close> of flag-bearer-queue/src/lib.rs nothing.\<close>

definition dummy_state :: "(unit, unit, unit) semaphore_state" where
  "dummy_state = \<lparr>acquire = (\<lambda>self _. Returns self (Inr ())), release = (\<lambda>self _. Returns self ())\<rparr>"

definition never_succeeds :: "(unit, unit, unit) semaphore_state" where
  "never_succeeds = \<lparr>acquire = (\<lambda>self _. Returns self (Inl ())), release = (\<lambda>self _. Returns self ())\<rparr>"

lemma dummies_undo: "undoes dummy_state u ()" "undoes never_succeeds u ()"
  by (simp_all add: undoes_def dummy_state_def never_succeeds_def)

definition debug_test :: "('m, 'v, unit, unit, unit, fair_order, 'w) generics \<Rightarrow> bool" where
  "debug_test G0 = (let (G, q) = builder_with_state (G0\<lparr>sem := dummy_state\<rparr>) fifo () in
     semaphore_debug (\<lambda>_. ''Dummy'') (fst (Raw_Mutex.try_lock UNLOCKED)) q = ''Semaphore { queue: SemaphoreQueue { state: Dummy, .. } }'')"

definition is_closed_test ::
  "('m, 'v, unit, unit, unit, fair_order, 'w) generics
    \<Rightarrow> ('w, ('m, unit, fair_order) queue_state) run_wake \<Rightarrow> bool" where
  "is_closed_test G0 run =
     ((let (G, q) = builder_with_state (G0\<lparr>sem := dummy_state\<rparr>) fifo () in \<not> sem_is_closed G q) \<and>
      (let (G, q) = builder_with_state (G0\<lparr>sem := dummy_state\<rparr>) (closeable fifo) () in
         \<not> sem_is_closed G q \<and>
         (case sem_close G run q of Some (Ret (q', _) _) \<Rightarrow> sem_is_closed G q' | _ \<Rightarrow> False)))"

text \<open>\<open>concurrent_closed\<close>: one thread waits for a permit, the other closes the queue. The call is polled before the close or
  only after it; when the first poll waits, \<open>block_on\<close> polls again once its waker was invoked, and sleeps for ever if
  it never is. The result is what \<open>unwrap_err\<close> gives to the joining thread.\<close>

definition concurrent_closed ::
  "('m, 'v, unit, unit, unit, fair_order, 'w) generics
    \<Rightarrow> ('w, ('m, unit, fair_order) queue_state) run_wake \<Rightarrow> 'w \<Rightarrow> nid \<Rightarrow> bool \<Rightarrow> unit acquire_error option" where
  "concurrent_closed G0 run cx n early =
     (let G = G0\<lparr>sem := never_succeeds, mode := Closeable\<rparr>; q0 = new_queue G () Fifo; fut = queue_acquire n () in
      if early then
        (case poll G cx fut q0 of
          Ret (q1, fut') Pending \<Rightarrow> do {
            ((q2, wakes), _) \<leftarrow> returned (close G run q1);
            (_, res) \<leftarrow> (if cx \<in> set wakes then ready_now (poll G cx fut' q2) else None);
            unwrap_err res }
        | Ret (q1, fut') (Ready res) \<Rightarrow> do { _ \<leftarrow> returned (close G run q1); unwrap_err res }
        | _ \<Rightarrow> None)
      else do {
        ((q1, _), _) \<leftarrow> returned (close G run q0);
        (_, res) \<leftarrow> ready_now (poll G cx fut q1);
        unwrap_err res })"

section \<open>What they come to\<close>

lemma builder_simps [simp]:
  "builder_with_state G fifo s = (G\<lparr>mode := Uncloseable\<rparr>, new_queue (G\<lparr>mode := Uncloseable\<rparr>) s Fifo)"
  "builder_with_state G lifo s = (G\<lparr>mode := Uncloseable\<rparr>, new_queue (G\<lparr>mode := Uncloseable\<rparr>) s Lifo)"
  "builder_with_state G (closeable fifo) s = (G\<lparr>mode := Closeable\<rparr>, new_queue (G\<lparr>mode := Closeable\<rparr>) s Fifo)"
  by (simp_all add: builder_with_state_def fifo_def lifo_def closeable_def)

lemma is_closed_iff: "sem_is_closed G q \<longleftrightarrow> CLOSE (mode G) \<and> closed q"
  by (simp add: sem_is_closed_def queue_is_closed_def is_closed_def)

text \<open>The methods under the names that the programs call.\<close>

context lone_queue
begin

lemma first_acquire:
  assumes "acquire (sem G) s p = Returns s' (Inr a)"
  obtains q where "ready_now (acquire_poll G e cx n (sem_acquire p) (new_queue G s ord)) = Some (q, Inr (out_of_thin_air e a))"
    "ready_now (must_acquire_poll G e cx n (sem_acquire p) (new_queue G s ord)) = Some (q, out_of_thin_air e a)"
    "idle_queue G V ord q s'"
  using acquire_lone [OF idle_new assms fresh_new, of e cx] must_acquire_lone [OF idle_new assms fresh_new, of e cx]
    idle_state [OF idle_new] that by (simp add: ready_now_def)

lemma next_with_state:
  assumes "idle_queue G V ord q s" and "f s = Returns s' r"
  obtains q' where "returned (sem_with_state G run f q) = Some ((q', []), r)" "idle_queue G V ord q' s'"
  by (rule with_state_lone [where f = f, OF assms]) (use that in \<open>simp add: sem_with_state_def returned_def\<close>)

lemma next_drop:
  assumes "idle_queue G V ord q s" and "release (sem G) s a = Returns s' ()"
  obtains q' where "returned (permit_drop G run (out_of_thin_air e a) q) = Some ((q', []), ())" "idle_queue G V ord q' s'"
  by (rule drop_lone [OF assms, of e]) (use that in \<open>simp add: returned_def\<close>)

lemma next_close:
  assumes "idle_queue G V ord q s" and "CLOSE (mode G)"
  obtains q' where "sem_close G run q = Some (Ret (q', []) ())" "queue_inv G V q'" "\<not> poisoned q'" "closed q'" "state q' = s"
    "\<And>n. pl_initialized (pl G) (pins q') n = pl_initialized (pl G) (pins q) n"
  by (rule close_lone [OF assms]) (use that in \<open>simp add: sem_close_def\<close>)

end

text \<open>One after the other.\<close>

lemma counter_run_result:
  assumes "lone_queue G V elems run" and "sem G = doc_semaphore_counter"
  shows "counter_run G run cx n = Some (40, True)"
proof -
  let ?G = "G\<lparr>mode := Closeable\<rparr>"
  let ?add = "\<lambda>s. case checked_add s 20 of None \<Rightarrow> Panics s | Some c \<Rightarrow> Returns c ()"
  have L: "lone_queue ?G V elems run" by (rule lone_mode [OF assms(1)])
  have "acquire (sem ?G) 20 1 = Returns 19 (Inr 1)"
    by (simp add: assms(2) doc_semaphore_counter_def checked_sub_def)
  from lone_queue.first_acquire [OF L this, of "()" cx n Fifo] obtain q1 where
    q1: "ready_now (acquire_poll ?G () cx n (sem_acquire 1) (new_queue ?G 20 Fifo)) = Some (q1, Inr (out_of_thin_air () 1))"
      "idle_queue ?G V Fifo q1 19" by auto
  have "?add 19 = Returns 39 ()" by (simp add: checked_add_def)
  from lone_queue.next_with_state [where f = ?add, OF L q1(2) this] obtain q2 where
    q2: "returned (sem_with_state ?G run ?add q1) = Some ((q2, []), ())" "idle_queue ?G V Fifo q2 39" by auto
  have "release (sem ?G) 39 1 = Returns 40 ()" by (simp add: assms(2) doc_semaphore_counter_def checked_add_def)
  from lone_queue.next_drop [OF L q2(2) this, of "()"] obtain q3 where
    q3: "returned (permit_drop ?G run (out_of_thin_air () 1) q2) = Some ((q3, []), ())" "idle_queue ?G V Fifo q3 40" by auto
  from lone_queue.next_close [OF L q3(2)] obtain q4 where
    q4: "sem_close ?G run q3 = Some (Ret (q4, []) ())" "closed q4" "state q4 = 40" by auto
  show ?thesis
    using q1(1) q2(1) q3(1) q4 by (simp add: counter_run_def expect_def returned_def is_closed_iff)
qed

lemma utilisation_run_result:
  assumes "lone_queue G V elems run" and "sem G = utilisation_state"
  shows "utilisation_run G run cx n = Some \<lparr>taken = 0, limit = 10\<rparr>"
proof -
  let ?G = "G\<lparr>mode := Uncloseable\<rparr>"
  have L: "lone_queue ?G V elems run" by (rule lone_mode [OF assms(1)])
  have "acquire (sem ?G) (utilisation_new 20) () = Returns \<lparr>taken = 1, limit = 20\<rparr> (Inr ())"
    by (simp add: assms(2) utilisation_state_def utilisation_new_def checked_add_def)
  from lone_queue.first_acquire [OF L this, of "()" cx n Fifo] obtain q1 where
    q1: "ready_now (must_acquire_poll ?G () cx n (sem_acquire ()) (new_queue ?G (utilisation_new 20) Fifo)) =
        Some (q1, out_of_thin_air () ())" "idle_queue ?G V Fifo q1 \<lparr>taken = 1, limit = 20\<rparr>" by auto
  have "remove_tokens 10 \<lparr>taken = 1, limit = 20\<rparr> = Returns \<lparr>taken = 1, limit = 10\<rparr> ()"
    by (simp add: remove_tokens_def checked_sub_def)
  from lone_queue.next_with_state [where f = "remove_tokens 10", OF L q1(2) this] obtain q2 where
    q2: "returned (sem_with_state ?G run (remove_tokens 10) q1) = Some ((q2, []), ())"
      "idle_queue ?G V Fifo q2 \<lparr>taken = 1, limit = 10\<rparr>" by auto
  have "release (sem ?G) \<lparr>taken = 1, limit = 10\<rparr> () = Returns \<lparr>taken = 0, limit = 10\<rparr> ()"
    by (simp add: assms(2) utilisation_state_def checked_sub_def)
  from lone_queue.next_drop [OF L q2(2) this, of "()"] obtain q3 where
    q3: "returned (permit_drop ?G run (out_of_thin_air () ()) q2) = Some ((q3, []), ())"
      "state q3 = \<lparr>taken = 0, limit = 10\<rparr>" by (auto simp: idle_queue_def)
  show ?thesis using q1(1) q2(1) q3 by (simp add: utilisation_run_def)
qed

lemma request_run_result:
  assumes "lone_queue G V elems run" and "sem G = request_state"
  shows "request_run G run cx n =
    Some (\<lparr>requests = 19, free_bytes = 960 * 1024\<rparr>, \<lparr>requests = 20, free_bytes = 1024 * 1024\<rparr>)"
proof -
  let ?G = "G\<lparr>mode := Uncloseable\<rparr>"
  let ?s = "\<lparr>requests = 20, free_bytes = 1024 * 1024\<rparr>" and ?t = "\<lparr>requests = 19, free_bytes = 960 * 1024\<rparr>"
  let ?p = "\<lparr>bytes = 64 * 1024\<rparr>"
  have L: "lone_queue ?G V elems run" by (rule lone_mode [OF assms(1)])
  have "acquire (sem ?G) ?s ?p = Returns ?t (Inr ?p)"
    by (simp add: assms(2) request_state_limits limits_state_def limits_acquire_def checked_sub_def)
  from lone_queue.first_acquire [OF L this, of "()" cx n Lifo] obtain q1 where
    q1: "ready_now (must_acquire_poll ?G () cx n (sem_acquire ?p) (new_queue ?G ?s Lifo)) = Some (q1, out_of_thin_air () ?p)"
      "idle_queue ?G V Lifo q1 ?t" by auto
  have "release (sem ?G) ?t ?p = Returns ?s ()"
    by (simp add: assms(2) request_state_limits limits_state_def limits_release_def checked_add_def)
  from lone_queue.next_drop [OF L q1(2) this, of "()"] obtain q2 where
    q2: "returned (permit_drop ?G run (out_of_thin_air () ?p) q1) = Some ((q2, []), ())" "state q2 = ?s"
    by (auto simp: idle_queue_def)
  have "state q1 = ?t" using q1(2) by (simp add: idle_queue_def)
  with q1(1) q2 show ?thesis unfolding request_run_def by simp
qed

lemma conn_run_result:
  assumes "lone_queue G V elems run" and "sem G = pool_state"
  shows "conn_run G run fresh = Some [fresh]"
proof -
  let ?G = "G\<lparr>mode := Uncloseable\<rparr>"
  have L: "lone_queue ?G V elems run" by (rule lone_mode [OF assms(1)])
  have "release (sem ?G) [] fresh = Returns [fresh] ()" by (simp add: assms(2) pool_state_def)
  from lone_queue.next_drop [OF L lone_queue.idle_new [OF L] this, of "()" Lifo] obtain q2 where
    "returned (permit_drop ?G run (out_of_thin_air () fresh) (new_queue ?G [] Lifo)) = Some ((q2, []), ())" "state q2 = [fresh]"
    by (auto simp: idle_queue_def)
  then show ?thesis
    by (simp add: conn_run_def conn_timeout_def sem_acquire_def returned_def permit_deref_mut_def out_of_thin_air_def dw_new_def)
qed

lemma no_permits_run_result:
  assumes "lone_queue G V elems run" and "sem G = unit_counter"
  shows "no_permits_run G"
proof -
  let ?G = "G\<lparr>mode := Uncloseable\<rparr>"
  have L: "lone_queue ?G V elems run" by (rule lone_mode [OF assms(1)])
  have "acquire (sem ?G) 0 () = Returns 0 (Inl ())" by (simp add: assms(2) unit_counter_def)
  from lone_queue.try_lone(2) [OF L lone_queue.idle_new [OF L] this, of "()" Fifo] show ?thesis
    by (simp add: no_permits_run_def)
qed

lemma closed_run_result:
  assumes "lone_queue G V elems run"
  shows "closed_run G run"
proof -
  let ?G = "G\<lparr>mode := Closeable\<rparr>"
  have L: "lone_queue ?G V elems run" by (rule lone_mode [OF assms])
  from lone_queue.next_close [OF L lone_queue.idle_new [OF L], of 1 Fifo] obtain q1 where
    q1: "sem_close ?G run (new_queue ?G 1 Fifo) = Some (Ret (q1, []) ())" "queue_inv ?G V q1" "\<not> poisoned q1" "closed q1" by auto
  from queue_deps.acquire_closed [OF lone_queue.axioms(1) [OF L] q1(2-4), of "()" True] q1(1) show ?thesis
    by (simp add: closed_run_def sem_try_acquire_def try_acquire_def map_permit_def)
qed

lemma debug_test_passes: "debug_test G"
  by (simp add: debug_test_def try_lock_def semaphore_debug_dummy)

lemma is_closed_test_passes:
  assumes "lone_queue G V elems run"
  shows "is_closed_test G run"
proof -
  let ?G = "G\<lparr>sem := dummy_state, mode := Closeable\<rparr>"
  have L: "lone_queue ?G V elems run" by (rule lone_mode [OF lone_sem [OF assms]])
  from lone_queue.next_close [OF L lone_queue.idle_new [OF L], of "()" Fifo] obtain q1 where
    "sem_close ?G run (new_queue ?G () Fifo) = Some (Ret (q1, []) ())" "closed q1" by auto
  then show ?thesis by (simp add: is_closed_test_def is_closed_iff new_queue_def)
qed

text \<open>Whichever comes first, the waiting call gets the error of the closed queue.\<close>

lemma concurrent_closed_result:
  assumes "lone_queue G V elems run"
  shows "concurrent_closed G run cx n early = Some (AcquireError ())"
proof -
  let ?G = "G\<lparr>sem := never_succeeds, mode := Closeable\<rparr>" and ?fut = "queue_acquire n ()"
  let ?q0 = "new_queue ?G () Fifo"
  have L: "lone_queue ?G V elems run" by (rule lone_mode [OF lone_sem [OF assms]])
  note D = lone_queue.axioms(1) [OF L]
  note i0 = lone_queue.idle_new [OF L, of Fifo "()"] and fresh = lone_queue.fresh_new [OF L]
  have inv0: "queue_inv ?G V ?q0" by (rule queue_deps.new_queue_inv [OF D])
  show ?thesis
  proof (cases early)
    case True
    obtain front where "acquire_or_enqueue ?G () True ?q0 = Ret (?q0\<lparr>state := ()\<rparr>) (Enqueue front ())"
      using lone_queue.attempt_lone(2) [OF L i0, of "()" "()" "()" True] by (auto simp: never_succeeds_def)
    note join = this
    have n: "fut_params ?fut = Some ()" "fut_node ?fut = n" "n \<notin> ids (links V (pins ?q0))" "removed V (pins ?q0) n = None"
      using fresh queue_deps.initialized_iff [OF D inv0, of n] by (auto simp: queue_acquire_def)
    obtain q1 where q1: "poll ?G cx ?fut ?q0 = Ret (q1, ?fut\<lparr>fut_params := None\<rparr>) Pending" "queue_inv ?G V q1"
      "links V (pins q1) = [(n, Some (), cx)]"
      by (rule queue_deps.poll_first_joins [OF D inv0 n(1) _ _ join, where cx = cx])
        (use that n i0 fresh in \<open>simp_all add: poll_def idle_queue_def\<close>)
    have "CLOSE (mode ?G)" by simp
    then obtain q2 where
      q2: "close ?G run q1 = Some (Ret (q2, [cx]) ())" "queue_inv ?G V q2" "removed V (pins q2) n = Some (Inl (Some ()))"
      by (rule queue_deps.close_inert [OF D lone_queue.quiet [OF L] _ q1(2)])
        (use that q1(3) revoke_at [of "links V (pins q1)" n "Some ()" cx] in \<open>simp add: wakers_def\<close>)
    let ?fut' = "?fut\<lparr>fut_params := None\<rparr>"
    have "removed V (pins q2) (fut_node ?fut') = Some (Inl (Some ()))" using q2(3) by (simp add: queue_acquire_def)
    note r = q2(2) this
    from queue_deps.poll_removed_result [OF D r] queue_deps.poll_removed_eq [OF D r, of cx] obtain q3 where
      "poll ?G cx ?fut' q2 = Ret (q3, ?fut') (Ready (Inl (AcquireError ())))" by auto
    with True q1(1) q2(1) show ?thesis
      by (simp add: concurrent_closed_def returned_def ready_now_def unwrap_err_def)
  next
    case False
    have "CLOSE (mode ?G)" by simp
    then obtain q1 where
      q1: "close ?G run ?q0 = Some (Ret (q1, []) ())" "queue_inv ?G V q1" "\<not> poisoned q1" "closed q1"
      and "\<not> pl_initialized (pl ?G) (pins q1) n"
      by (rule lone_queue.close_lone [OF L i0]) (use that fresh in simp)
    moreover from queue_deps.acquire_closed [OF D q1(2-4), of "()" True] this(5)
    have "poll ?G cx ?fut q1 = Ret (q1, ?fut\<lparr>fut_params := None\<rparr>) (Ready (Inl (AcquireError ())))"
      by (simp add: poll_def poll_first_def queue_acquire_def)
    ultimately show ?thesis
      using False by (simp add: concurrent_closed_def returned_def ready_now_def unwrap_err_def)
  qed
qed

section \<open>Properties\<close>

text \<open>C40. The programs of the documentation do what their comments say: each runs to its end without waiting, panicking or
  reaching an \<open>unreachable!()\<close>, with the counter at 40 and the semaphore closed, ten tokens left and none taken, 19
  requests and 960 KiB free under the permit and all of it after, and the pool holding the connection that was made.\<close>

theorem doc_programs_run:
  assumes "lone_queue G1 V1 elems1 run1" and "sem G1 = doc_semaphore_counter"
    and "lone_queue G2 V2 elems2 run2" and "sem G2 = utilisation_state"
    and "lone_queue G3 V3 elems3 run3" and "sem G3 = request_state"
    and "lone_queue G4 V4 elems4 run4" and "sem G4 = pool_state"
    and "lone_queue G5 V5 elems5 run5" and "sem G5 = unit_counter"
  shows "counter_run G1 run1 cx1 n = Some (40, True) \<and>
    utilisation_run G2 run2 cx2 n = Some \<lparr>taken = 0, limit = 10\<rparr> \<and>
    request_run G3 run3 cx3 n = Some (\<lparr>requests = 19, free_bytes = 960 * 1024\<rparr>, \<lparr>requests = 20, free_bytes = 1024 * 1024\<rparr>) \<and>
    conn_run G4 run4 fresh = Some [fresh] \<and> no_permits_run G5 \<and> closed_run G5 run5"
  using counter_run_result [OF assms(1,2)] utilisation_run_result [OF assms(3,4)] request_run_result [OF assms(5,6)]
    conn_run_result [OF assms(7,8)] no_permits_run_result [OF assms(9,10)] closed_run_result [OF assms(9)]
  by blast

theorem doc_programs_run_witness:
  "counter_run (plain_generics doc_semaphore_counter fair_enqueue_front Uncloseable) schedule_only (7 :: nat) 0 =
      Some (40, True) \<and>
    request_run (plain_generics request_state fair_enqueue_front Uncloseable) schedule_only (7 :: nat) 0 =
      Some (\<lparr>requests = 19, free_bytes = 983040\<rparr>, \<lparr>requests = 20, free_bytes = 1048576\<rparr>)"
  using doc_programs_run [OF plain_lone plain_generics_simps(3) plain_lone plain_generics_simps(3) plain_lone plain_generics_simps(3)
      plain_lone plain_generics_simps(3) plain_lone plain_generics_simps(3), of Uncloseable "7 :: nat" 0 Uncloseable "7 :: nat" Uncloseable
      "7 :: nat" Uncloseable "()" Uncloseable]
  by (elim conjE, intro conjI) (assumption, simp)

end
