(* ===== verification/Arrival_Order.thy ===== *)
theory Arrival_Order
  imports Queue_System "HOL-Library.Sublist"
begin

text \<open>
  The order of the waiters over a whole run: the list is at any time a subsequence of the arrivals, in
  order of arrival or in the opposite order, as the policy says. Nobody ever changes place: granting,
  cancelling, closing and attempts only take nodes out, and a newcomer joins at the end its order chose.
\<close>

section \<open>History\<close>

definition waiting_ids :: "('m, 'p, 'a, 'w) queue_view \<Rightarrow> ('m, 's, 'o) queue_state \<Rightarrow> nid list" where
  "waiting_ids V q = map fst (links V (pins q))"

text \<open>The nodes that joined the list in a step, and the runs with all arrivals so far.\<close>

definition newcomers :: "nid list \<Rightarrow> nid list \<Rightarrow> nid list" where
  "newcomers before after = filter (\<lambda>n. n \<notin> set before) after"

inductive history ::
  "('m, 'v, 's, 'p, 'a, 'o, 'w) generics \<Rightarrow> ('m, 'p, 'a, 'w) queue_view \<Rightarrow> 'o
    \<Rightarrow> ('m, 's, 'p, 'o, 'w) sys \<Rightarrow> nid list \<Rightarrow> bool" for G V ord where
  hist_start: "history G V ord (init_sys G s ord) []"
| hist_step: "history G V ord s arrivals \<Longrightarrow> sys_step G s t \<Longrightarrow>
    history G V ord t (arrivals @ newcomers (waiting_ids V (sq s)) (waiting_ids V (sq t)))"

lemma history_reachable: "history G V ord s arrivals \<Longrightarrow> reachable G s"
  by (induction rule: history.induct) (blast intro: reachable.intros)+

section \<open>What a section does to the list\<close>

text \<open>It only takes nodes out, and leaves the policy as it is.\<close>

definition shrinks :: "('m, 'p, 'a, 'w) queue_view \<Rightarrow> ('m, 's, 'o) queue_state \<Rightarrow> ('m, 's, 'o) queue_state \<Rightarrow> bool"
  where
  "shrinks V q q' \<longleftrightarrow> subseq (waiting_ids V q') (waiting_ids V q) \<and> order q' = order q"

lemma shrinks_trans: "shrinks V q q1 \<Longrightarrow> shrinks V q1 q2 \<Longrightarrow> shrinks V q q2"
  by (auto simp: shrinks_def intro: subseq_order.trans)

lemma shrinks_refl: "pins q' = pins q \<Longrightarrow> order q' = order q \<Longrightarrow> shrinks V q q'"
  by (simp add: shrinks_def waiting_ids_def)

lemma no_newcomers: "subseq ys xs \<Longrightarrow> newcomers xs ys = []"
  by (auto simp: newcomers_def filter_empty_conv dest: list_emb_set)

locale ordered_queue = queue_deps G V elems + O: stateless_policy "policy G" front
  for G :: "('m, 'v, 's, 'p, 'a, 'o, 'w) generics"
    and V :: "('m, 'p, 'a, 'w) queue_view"
    and elems :: "'v \<Rightarrow> 'w list" and front
begin

lemma check_shrinks:
  assumes "queue_inv G V q" and "check G q (av_new (av G)) = Some x" and "round_end G k x = Some (q', frame)"
  shows "shrinks V q q'"
proof (rule check_result [OF assms(1) batch_empty [OF AV.av_new]])
  fix q1 v1 gs b
  assume c: "check G q (av_new (av G)) = Some (if b then Unwind (q1, v1) else Ret (q1, v1) ())" "order q1 = order q"
    and srv: "if poisoned q \<or> closed q then q1 = q \<and> gs = [] \<and> \<not> b
     else serve (acquire (sem G)) (batch_cap - length (elems (av_new (av G)))) (state q) (links V (pins q)) =
       (state q1, links V (pins q1), gs, b)"
  have "q' = q1" using c(1) assms(2,3) by (auto split: if_splits)
  moreover have "subseq (waiting_ids V q1) (waiting_ids V q)"
  proof (cases "poisoned q \<or> closed q")
    case True
    with srv show ?thesis by simp
  next
    case False
    with srv have "serve (acquire (sem G)) (batch_cap - length (elems (av_new (av G)))) (state q) (links V (pins q)) =
       (state q1, links V (pins q1), gs, b)" by simp
    from serve_rest_distinct [OF this waiters_distinct [OF assms(1)]] show ?thesis by (simp add: waiting_ids_def)
  qed
  ultimately show ?thesis using c(2) by (simp add: shrinks_def)
qed

lemma first_round_shrinks:
  assumes "first_round G f q = Some x" and "round_end G k x = Some (q', frame)"
    and "\<And>q1 r. f q = Ret q1 r \<or> f q = Unwind q1 \<Longrightarrow> queue_inv G V q1 \<and> shrinks V q q1"
  shows "shrinks V q q'"
  using assms(1,2)
proof (cases rule: first_round_cases)
  case (served q1 r)
  with assms(3) have "queue_inv G V q1" "shrinks V q q1" by auto
  with shrinks_trans check_shrinks [OF _ served(2) assms(2)] show ?thesis by blast
qed (use assms(3) in auto)

lemma close_shrinks:
  assumes "queue_inv G V q" and "CLOSE (mode G)" and "close_fill G q (av_new (av G)) = Some x"
    and "round_end G k x = Some (q', frame)"
  shows "shrinks V q q'"
proof (rule close_fill_result [OF assms(1,2) AV.av_new])
  fix q1 v1
  assume c: "close_fill G q (av_new (av G)) = Some (Ret (q1, v1) ())"
    and q1: "order q1 = order q" "links V (pins q1) = drop batch_cap (links V (pins q))"
  have "q' = q1" using c assms(3,4) by auto
  with q1 show ?thesis
    by (simp add: shrinks_def waiting_ids_def drop_map suffix_drop suffix_imp_subseq flip: drop_map)
qed

lemma drop_shrinks:
  assumes "queue_inv G V q" and "pl_initialized (pl G) (pins q) n"
    and "drop_node G n q = Ret q1 r \<or> drop_node G n q = Unwind q1"
  shows "shrinks V q q1"
  by (rule drop_result [OF assms(1,2)])
    (use assms(3) in \<open>auto simp: shrinks_def waiting_ids_def subseq_append' split: sum.splits call.splits\<close>)

text \<open>Attempts leave the list and the policy; a poll takes its node out, or puts it at one end.\<close>

lemma attempt_order:
  assumes "queue_inv G V q"
  shows "exec_all (\<lambda>q'. order q' = order q) (acquire_or_enqueue G p fair q)"
proof (cases "poisoned q \<or> closed q")
  case True
  then show ?thesis using acquire_poisoned [of q p fair] acquire_closed [OF assms, of p fair] by (cases "poisoned q") auto
next
  case False
  then show ?thesis
    by (simp add: acquire_open [OF assms] O.decides split: call.splits sum.splits)
qed

lemma try_shrinks:
  assumes "queue_inv G V q" and "try_acquire G p fair q = Ret q' r \<or> try_acquire G p fair q = Unwind q'"
  shows "shrinks V q q'"
  using try_done [OF assms] attempt_order [OF assms(1), of p fair] assms(2)
  by (auto simp: try_acquire_def same_list_def shrinks_def waiting_ids_def split: exec.splits outcome.splits)

lemma poll_first_order:
  assumes "queue_inv G V q"
  shows "poll_first G cx fut q = Ret (q', fut') r \<or> poll_first G cx fut q = Unwind (q', fut') \<Longrightarrow> order q' = order q"
proof (cases "fut_params fut")
  case (Some p)
  assume "poll_first G cx fut q = Ret (q', fut') r \<or> poll_first G cx fut q = Unwind (q', fut')"
  with attempt_order [OF assms, of p True] Some show ?thesis
    by (auto simp: poll_first_def Let_def split: exec.splits outcome.splits list_slot.splits)
qed (auto simp: poll_first_def)

text \<open>A poll takes its node out, or puts it at the end its order chose.\<close>

lemma poll_lines:
  assumes "queue_inv G V q" and "poll G cx fut q = Ret (q', fut') r \<or> poll G cx fut q = Unwind (q', fut')"
  shows "shrinks V q q' \<or>
    fut_node fut \<notin> set (waiting_ids V q) \<and> order q' = order q \<and>
    waiting_ids V q' = (if front (order q) (len q) then fut_node fut # waiting_ids V q
      else waiting_ids V q @ [fut_node fut])"
proof -
  have ord: "order q' = order q"
  proof (cases "pl_initialized (pl G) (pins q) (fut_node fut)")
    case False
    with assms(2) poll_first_order [OF assms(1), of cx fut q' fut' r] show ?thesis by (simp add: poll_def)
  next
    case True
    then have i: "fut_node fut \<in> ids (links V (pins q)) \<or> removed V (pins q) (fut_node fut) \<noteq> None"
      using initialized_iff [OF assms(1)] by blast
    show ?thesis
      by (rule poll_result [OF assms(1), where cx = cx and fut = fut])
        (use assms(2) i in \<open>auto split: option.splits sum.splits\<close>)
  qed
  show ?thesis
    by (rule poll_result [OF assms(1), where cx = cx and fut = fut])
      (use assms(2) ord in \<open>auto simp: shrinks_def waiting_ids_def same_list_def O.decides subseq_append'
        split: option.splits sum.splits\<close>)
qed

lemma shrinks_line: "shrinks V q q' \<Longrightarrow> order q = ord \<Longrightarrow> subseq (waiting_ids V q) xs \<Longrightarrow>
    order q' = ord \<and> newcomers (waiting_ids V q) (waiting_ids V q') = [] \<and> subseq (waiting_ids V q') xs"
  by (auto simp: shrinks_def no_newcomers intro: subseq_order.trans)

text \<open>One step.\<close>

lemma step_lines:
  assumes "sys_inv G V s" and "sys_step G s t"
  obtains (out) "shrinks V (sq s) (sq t)"
    | (join) n where "n \<notin> set (waiting_ids V (sq s))" "order (sq t) = order (sq s)"
      "waiting_ids V (sq t) = (if front (order (sq s)) (len (sq s)) then n # waiting_ids V (sq s)
        else waiting_ids V (sq s) @ [n])"
proof -
  have inv: "queue_inv G V (sq s)"
    using assms(1) by (simp add: sys_inv_def)
  from assms(2) obtain d where "does G d s t" by (auto simp: sys_step_does)
  then show ?thesis
  proof cases
    case (poll_ready n fut w q' fut' r)
    with poll_lines [OF inv, of w fut q' fut' "Ready r"] that show ?thesis by auto
  next
    case (poll_pending n fut w q' fut')
    with poll_lines [OF inv, of w fut q' fut' Pending] that show ?thesis by auto
  next
    case (poll_unwind n fut w q' fut')
    with poll_lines [OF inv, of w fut q' fut'] that show ?thesis by auto
  next
    case (try_return p fair q' r)
    with try_shrinks [OF inv, of p fair q' r] that show ?thesis by simp
  next
    case (try_unwind p fair q')
    with try_shrinks [OF inv, of p fair q'] that show ?thesis by simp
  next
    case (drop_future n fut x q' frame)
    have "queue_inv G V q1 \<and> shrinks V (sq s) q1"
      if "drop_node G (fut_node fut) (sq s) = Ret q1 r \<or> drop_node G (fut_node fut) (sq s) = Unwind q1" for q1 r
      using drop_moved [OF inv drop_future(4) that] drop_shrinks [OF inv drop_future(4) that] by blast
    from first_round_shrinks [OF drop_future(5,6) this] that drop_future(2) show ?thesis by simp
  next
    case (change_state f x q' frame)
    have "queue_inv G V q1 \<and> shrinks V (sq s) q1"
      if "update_state f (sq s) = Ret q1 r \<or> update_state f (sq s) = Unwind q1" for q1 r
      using update_state_done [OF inv that] that
      by (cases "f (state (sq s))") (auto simp: update_state_def intro: shrinks_refl)
    from first_round_shrinks [OF change_state(3,4) this] that change_state(2) show ?thesis by simp
  next
    case (start_close x q' frame)
    with close_shrinks [OF inv] that show ?thesis by simp
  next
    case (recheck fs gs x q' frame)
    with check_shrinks [OF inv recheck(4,5)] that show ?thesis by simp
  next
    case (reclose fs gs x q' frame)
    with close_shrinks [OF inv] that show ?thesis by simp
  qed (use that in \<open>auto simp: clear_poison_def shrinks_refl\<close>)
qed

text \<open>Over a run, where the order always chooses the same end.\<close>

lemma history_lines:
  assumes "\<And>queued. front ord queued = b"
  shows "history G V ord s arrivals \<Longrightarrow> order (sq s) = ord \<and>
    subseq (waiting_ids V (sq s)) (if b then rev arrivals else arrivals)"
proof (induction rule: history.induct)
  case (hist_start s)
  have "links V (pl_new (pl G)) = []" by (rule PL.new)
  then show ?case by (simp add: init_sys_def new_queue_def waiting_ids_def)
next
  case (hist_step s arrivals t)
  have inv: "sys_inv G V s" by (rule reachable_sys_inv [OF history_reachable [OF hist_step(1)]])
  show ?case
  proof (rule step_lines [OF inv hist_step(2)])
    assume "shrinks V (sq s) (sq t)"
    with hist_step(3) show ?thesis by (auto dest: shrinks_line)
  next
    fix n
    assume n: "n \<notin> set (waiting_ids V (sq s))" "order (sq t) = order (sq s)"
      "waiting_ids V (sq t) = (if front (order (sq s)) (len (sq s)) then n # waiting_ids V (sq s)
        else waiting_ids V (sq s) @ [n])"
    then have "newcomers (waiting_ids V (sq s)) (waiting_ids V (sq t)) = [n]"
      by (auto simp: newcomers_def filter_empty_conv)
    with n hist_step(3) assms show ?thesis by (auto intro: list_emb_append_mono)
  qed
qed

end

end
