(* ===== verification/Waiting_Room.thy ===== *)
theory Waiting_Room
  imports Queue_System
begin

text \<open>
  What the queue promises, without its machinery: a waiting room with a line of requests, results ready to be
  fetched, a stock and a rule for newcomers. There are no cursors, nodes, wakers in flight, counters or interrupted
  calls. What each participant does to the room, and what it is answered, is a function of the room, so who is
  served, who joins where, who leaves and what a panic does are all determined; the queue does exactly that.
\<close>

section \<open>The room\<close>

text \<open>\<open>wishes\<close> are the calls of \<open>acquire\<close> that exist, with their params until the first poll.\<close>

record ('s, 'p, 'a, 'o, 'w) room =
  line :: "(nid \<times> ('p, 'w) waiting) list"
  ready :: "nid \<Rightarrow> ('p, 'a) removal option"
  stock :: 's
  shut :: bool
  bad :: bool
  rule :: 'o
  wishes :: "nid \<Rightarrow> 'p option option"

text \<open>Serving the line: a batch of those at the front who can be served, in order, unless the room is shut or out of order.\<close>

definition room_serve :: "('s, 'p, 'a) semaphore_state \<Rightarrow> ('s, 'p, 'a, 'o, 'w) room \<Rightarrow> ('s, 'p, 'a, 'o, 'w) room" where
  "room_serve S r = (if bad r \<or> shut r then r
     else case serve (acquire S) batch_cap (stock r) (line r) of (s, rest, gs, b) \<Rightarrow>
       r\<lparr>line := rest, ready := park (ready r) gs, stock := s, bad := b\<rparr>)"

text \<open>A newcomer asks: a fair one only if the rule puts it in front or nobody waits.\<close>

datatype ('p, 'a) answer = Given 'a | Wait bool 'p | Too_late 'p | Out_of_order 'p | Broken

definition ask ::
  "('s, 'p, 'a) semaphore_state \<Rightarrow> 'o order_policy \<Rightarrow> 'p \<Rightarrow> bool \<Rightarrow> ('s, 'p, 'a, 'o, 'w) room
    \<Rightarrow> ('s, 'p, 'a, 'o, 'w) room \<times> ('p, 'a) answer" where
  "ask S pol p fair r =
    (if bad r then (r, Out_of_order p)
     else if shut r then (r, Too_late p)
     else case (if fair then pol (rule r) (length (line r)) else Returns (rule r) True) of
       Panics ord \<Rightarrow> (r\<lparr>rule := ord\<rparr>, Broken)
     | Returns ord front \<Rightarrow>
         if \<not> front \<and> line r \<noteq> [] then (r\<lparr>rule := ord\<rparr>, Wait front p)
         else (case acquire S (stock r) p of
             Panics s \<Rightarrow> (r\<lparr>rule := ord, stock := s, bad := True\<rparr>, Broken)
           | Returns s (Inr a) \<Rightarrow> (r\<lparr>rule := ord, stock := s\<rparr>, Given a)
           | Returns s (Inl p') \<Rightarrow> (r\<lparr>rule := ord, stock := s\<rparr>, Wait front p')))"

definition room_try ::
  "('s, 'p, 'a) semaphore_state \<Rightarrow> 'o order_policy \<Rightarrow> 'p \<Rightarrow> bool \<Rightarrow> ('s, 'p, 'a, 'o, 'w) room
    \<Rightarrow> ('s, 'p, 'a, 'o, 'w) room \<times> ('p try_acquire_error + 'a) option" where
  "room_try S pol p fair r = (case ask S pol p fair r of (r', ans) \<Rightarrow>
     (r', case ans of
        Given a \<Rightarrow> Some (Inr a)
      | Wait _ p' \<Rightarrow> Some (Inl (NoPermits p'))
      | Too_late p' \<Rightarrow> Some (Inl (TryClosed (AcquireError p')))
      | Out_of_order p' \<Rightarrow> Some (Inl (TryPoisoned p'))
      | Broken \<Rightarrow> None))"

text \<open>A poll: whoever has a result fetches it; whoever stands in line renews the waker, or leaves once the room is shut; a
  new call asks, and joins the line at the end the rule chose if it has to wait.\<close>

definition without :: "nid \<Rightarrow> (nid \<times> 'd) list \<Rightarrow> (nid \<times> 'd) list" where
  "without n xs = filter (\<lambda>x. fst x \<noteq> n) xs"

definition renewed :: "nid \<Rightarrow> 'w \<Rightarrow> (nid \<times> ('p, 'w) waiting) list \<Rightarrow> (nid \<times> ('p, 'w) waiting) list" where
  "renewed n w xs = map (\<lambda>(m, prm, w'). (m, prm, if m = n then w else w')) xs"

definition told :: "'p option \<Rightarrow> ('p acquire_error + 'a) poll option" where
  "told prm = (case prm of Some p \<Rightarrow> Some (Ready (Inl (AcquireError p))) | None \<Rightarrow> None)"

definition first_poll ::
  "('s, 'p, 'a) semaphore_state \<Rightarrow> 'o order_policy \<Rightarrow> nid \<Rightarrow> 'w \<Rightarrow> 'p \<Rightarrow> ('s, 'p, 'a, 'o, 'w) room
    \<Rightarrow> ('s, 'p, 'a, 'o, 'w) room \<times> ('p acquire_error + 'a) poll option" where
  "first_poll S pol n w p r = (case ask S pol p True (r\<lparr>wishes := (wishes r)(n \<mapsto> None)\<rparr>) of (r', ans) \<Rightarrow>
     (case ans of
        Given a \<Rightarrow> (r', Some (Ready (Inr a)))
      | Wait front p' \<Rightarrow>
          (r'\<lparr>line := if front then (n, Some p', w) # line r' else line r' @ [(n, Some p', w)]\<rparr>, Some Pending)
      | Too_late p' \<Rightarrow> (r', told (Some p'))
      | Out_of_order _ \<Rightarrow> (r', None)
      | Broken \<Rightarrow> (r', None)))"

definition room_poll ::
  "('s, 'p, 'a) semaphore_state \<Rightarrow> 'o order_policy \<Rightarrow> nid \<Rightarrow> 'w \<Rightarrow> ('s, 'p, 'a, 'o, 'w) room
    \<Rightarrow> ('s, 'p, 'a, 'o, 'w) room \<times> ('p acquire_error + 'a) poll option" where
  "room_poll S pol n w r = (case ready r n of
     Some res \<Rightarrow> (r\<lparr>ready := (ready r)(n := None)\<rparr>, case res of Inr a \<Rightarrow> Some (Ready (Inr a)) | Inl prm \<Rightarrow> told prm)
   | None \<Rightarrow> (case map_of (line r) n of
       Some (prm, _) \<Rightarrow>
         if shut r then (r\<lparr>line := without n (line r)\<rparr>, told prm)
         else (r\<lparr>line := renewed n w (line r)\<rparr>, Some Pending)
     | None \<Rightarrow> (case wishes r n of
         Some (Some p) \<Rightarrow> first_poll S pol n w p r
       | _ \<Rightarrow> (r, None))))"

text \<open>A change of the stock, after which the line is served; one that panics puts the room out of order.\<close>

definition room_change :: "('s, 'p, 'a) semaphore_state \<Rightarrow> ('s \<Rightarrow> ('s, unit) call)
    \<Rightarrow> ('s, 'p, 'a, 'o, 'w) room \<Rightarrow> ('s, 'p, 'a, 'o, 'w) room" where
  "room_change S f r = (case f (stock r) of
     Returns s _ \<Rightarrow> room_serve S (r\<lparr>stock := s\<rparr>)
   | Panics s \<Rightarrow> r\<lparr>stock := s, bad := True\<rparr>)"

text \<open>A call is dropped: a permit that was ready goes back into the stock; a place in the line is given up.\<close>

definition room_drop :: "('s, 'p, 'a) semaphore_state \<Rightarrow> nid \<Rightarrow> ('s, 'p, 'a, 'o, 'w) room \<Rightarrow> ('s, 'p, 'a, 'o, 'w) room" where
  "room_drop S n r0 = (let r = r0\<lparr>wishes := (wishes r0)(n := None)\<rparr> in
     case ready r n of
       Some (Inr a) \<Rightarrow> room_change S (\<lambda>s. release S s a) (r\<lparr>ready := (ready r)(n := None)\<rparr>)
     | Some (Inl _) \<Rightarrow> room_serve S (r\<lparr>ready := (ready r)(n := None)\<rparr>)
     | None \<Rightarrow> if n \<in> ids (line r) then room_serve S (r\<lparr>line := without n (line r)\<rparr>) else r)"

text \<open>Shutting, a batch of the line at a time, whose requests are revoked.\<close>

definition room_close :: "('s, 'p, 'a, 'o, 'w) room \<Rightarrow> ('s, 'p, 'a, 'o, 'w) room" where
  "room_close r = r\<lparr>shut := True, line := drop batch_cap (line r),
     ready := revoke (ready r) (take batch_cap (line r))\<rparr>"

text \<open>What each action does to the room.\<close>

fun room_does ::
  "('s, 'p, 'a) semaphore_state \<Rightarrow> 'o order_policy \<Rightarrow> ('s, 'p, 'a, 'w) deed
    \<Rightarrow> ('s, 'p, 'a, 'o, 'w) room \<Rightarrow> ('s, 'p, 'a, 'o, 'w) room \<Rightarrow> bool" where
  "room_does S pol (Creates n p) r r' = (r' = r\<lparr>wishes := (wishes r)(n \<mapsto> Some p)\<rparr>)"
| "room_does S pol (Polls n w res) r r' = ((r', res) = room_poll S pol n w r)"
| "room_does S pol (Tries p fair res) r r' = ((r', res) = room_try S pol p fair r)"
| "room_does S pol (Drops n) r r' = (r' = room_drop S n r)"
| "room_does S pol (Changes f) r r' = (r' = room_change S f r)"
| "room_does S pol Closes r r' = (r' = room_close r)"
| "room_does S pol Clears r r' = (r' = r\<lparr>bad := False\<rparr>)"
| "room_does S pol Checks r r' = (r' = room_serve S r)"
| "room_does S pol Rests r r' = (r' = r)"

section \<open>The room of a queue\<close>

definition room_with :: "('m, 'p, 'a, 'w) queue_view \<Rightarrow> ('m, 's, 'o) queue_state \<Rightarrow> (nid \<Rightarrow> 'p option option)
    \<Rightarrow> ('s, 'p, 'a, 'o, 'w) room" where
  "room_with V q ws = \<lparr>line = links V (pins q), ready = removed V (pins q), stock = state q, shut = closed q,
     bad = poisoned q, rule = order q, wishes = ws\<rparr>"

definition wished :: "('m, 's, 'p, 'o, 'w) sys \<Rightarrow> nid \<Rightarrow> 'p option option" where
  "wished s n = map_option fut_params (futs s n)"

definition room_of :: "('m, 'p, 'a, 'w) queue_view \<Rightarrow> ('m, 's, 'p, 'o, 'w) sys \<Rightarrow> ('s, 'p, 'a, 'o, 'w) room" where
  "room_of V s = room_with V (sq s) (wished s)"

lemma room_with_simps [simp]: "line (room_with V q ws) = links V (pins q)" "ready (room_with V q ws) = removed V (pins q)"
  "stock (room_with V q ws) = state q" "shut (room_with V q ws) = closed q" "bad (room_with V q ws) = poisoned q"
  "rule (room_with V q ws) = order q" "wishes (room_with V q ws) = ws"
  by (simp_all add: room_with_def)

lemma room_eqI: "line r = line r' \<Longrightarrow> ready r = ready r' \<Longrightarrow> stock r = stock r' \<Longrightarrow> shut r = shut r' \<Longrightarrow>
    bad r = bad r' \<Longrightarrow> rule r = rule r' \<Longrightarrow> wishes r = wishes r' \<Longrightarrow> r = (r' :: ('s, 'p, 'a, 'o, 'w) room)"
  by simp

lemma room_with_upd:
  "room_with V (q\<lparr>order := ord\<rparr>) ws = room_with V q ws\<lparr>rule := ord\<rparr>"
  "room_with V (q\<lparr>order := ord, state := s\<rparr>) ws = room_with V q ws\<lparr>rule := ord, stock := s\<rparr>"
  "room_with V (q\<lparr>order := ord, state := s, poisoned := b\<rparr>) ws = room_with V q ws\<lparr>rule := ord, stock := s, bad := b\<rparr>"
  by (simp_all add: room_with_def)

lemma wished_upd: "wished (s\<lparr>futs := (futs s)(n := x)\<rparr>) = (wished s)(n := map_option fut_params x)"
  by (simp add: wished_def fun_eq_iff)

lemma without_split: "n \<notin> ids (xs @ ys) \<Longrightarrow> without n (xs @ (n, d) # ys) = xs @ ys"
  by (induction xs) (auto simp: without_def filter_id_conv)

lemma renewed_other: "n \<notin> ids xs \<Longrightarrow> renewed n w xs = xs"
  by (induction xs) (auto simp: renewed_def)

lemma renewed_split: "n \<notin> ids (xs @ ys) \<Longrightarrow> renewed n w (xs @ (n, prm, w') # ys) = xs @ (n, prm, w) # ys"
  by (induction xs) (auto simp: renewed_other [of n ys], auto simp: renewed_def renewed_other [unfolded renewed_def])

lemma map_of_split: "n \<notin> ids (xs @ ys) \<Longrightarrow> map_of (xs @ (n, d) # ys) n = Some d"
  by (induction xs) auto

section \<open>The sections do what the room does\<close>

context queue_deps
begin

lemma check_room:
  assumes "queue_inv G V q" and "check G q (av_new (av G)) = Some x" and "round_end G k x = Some (q', frame)"
  shows "room_with V q' ws = room_serve (sem G) (room_with V q ws)"
proof (rule check_result [OF assms(1) batch_empty [OF AV.av_new]])
  fix q1 v1 gs b
  assume c: "check G q (av_new (av G)) = Some (if b then Unwind (q1, v1) else Ret (q1, v1) ())"
      "removed V (pins q1) = park (removed V (pins q)) gs" "poisoned q1 = (poisoned q \<or> b)" "closed q1 = closed q"
      "order q1 = order q"
    and srv: "if poisoned q \<or> closed q then q1 = q \<and> gs = [] \<and> \<not> b
     else serve (acquire (sem G)) (batch_cap - length (elems (av_new (av G)))) (state q) (links V (pins q)) =
       (state q1, links V (pins q1), gs, b)"
  have q': "q' = q1" using c(1) assms(2,3) by (auto split: if_splits)
  show ?thesis
  proof (cases "poisoned q \<or> closed q")
    case True
    with srv q' show ?thesis by (auto simp: room_serve_def)
  next
    case False
    with srv have "serve (acquire (sem G)) batch_cap (state q) (links V (pins q)) = (state q1, links V (pins q1), gs, b)"
      by (simp add: AV.av_new)
    with False c(2-5) q' show ?thesis by (intro room_eqI) (simp_all add: room_serve_def)
  qed
qed

text \<open>A first round: what the section does, and then service, which an empty line does not need.\<close>

lemma serve_nobody: "line r = [] \<Longrightarrow> room_serve S r = r"
  by (auto simp: room_serve_def)

lemma first_round_room:
  assumes "first_round G f q = Some x" and "round_end G k x = Some (q', frame)"
    and "\<And>q1 d. f q = Ret q1 d \<Longrightarrow> queue_inv G V q1 \<and> room_serve (sem G) (room_with V q1 ws) = r"
    and "\<And>q1. f q = Unwind q1 \<Longrightarrow> room_with V q1 ws = r"
  shows "room_with V q' ws = r"
  using assms(1,2)
proof (cases rule: first_round_cases)
  case (plain d)
  with assms(3) have "queue_inv G V q'" "room_serve (sem G) (room_with V q' ws) = r" by auto
  with plain(2) serve_nobody [of "room_with V q' ws" "sem G"] show ?thesis by (simp add: queue_inv_def)
next
  case unwound
  with assms(4) show ?thesis by simp
next
  case (served q1 d)
  with assms(3) have "queue_inv G V q1" "room_serve (sem G) (room_with V q1 ws) = r" by auto
  with check_room [OF this(1) served(2) assms(2)] show ?thesis by simp
qed

lemma change_room:
  assumes "queue_inv G V q" and "first_round G (update_state f) q = Some x" and "round_end G k x = Some (q', frame)"
  shows "room_with V q' ws = room_change (sem G) f (room_with V q ws)"
proof (rule first_round_room [OF assms(2,3)])
  fix q1 d
  assume u: "update_state f q = Ret q1 d"
  then obtain s where s: "f (state q) = Returns s d" "q1 = q\<lparr>state := s\<rparr>"
    by (cases "f (state q)") (auto simp: update_state_def)
  then have "room_with V q1 ws = room_with V q ws\<lparr>stock := s\<rparr>" by (intro room_eqI) simp_all
  with s(1) update_state_done [OF assms(1) disjI1 [OF u]]
  show "queue_inv G V q1 \<and> room_serve (sem G) (room_with V q1 ws) = room_change (sem G) f (room_with V q ws)"
    by (simp add: room_change_def)
next
  fix q1
  assume "update_state f q = Unwind q1"
  then obtain s where "f (state q) = Panics s" "q1 = q\<lparr>state := s, poisoned := True\<rparr>"
    by (cases "f (state q)") (auto simp: update_state_def)
  then show "room_with V q1 ws = room_change (sem G) f (room_with V q ws)"
    by (intro room_eqI) (simp_all add: room_change_def)
qed

lemma close_room:
  assumes "queue_inv G V q" and "CLOSE (mode G)" and "close_fill G q (av_new (av G)) = Some x"
    and "round_end G k x = Some (q', frame)"
  shows "room_with V q' ws = room_close (room_with V q ws)"
  by (rule close_fill_result [OF assms(1,2) AV.av_new])
    (use assms(3,4) in \<open>auto simp: room_close_def intro!: room_eqI\<close>)

lemma drop_room:
  assumes "queue_inv G V q" and "pl_initialized (pl G) (pins q) n"
    and "first_round G (drop_node G n) q = Some x" and "round_end G k x = Some (q', frame)"
  shows "room_with V q' (ws(n := None)) = room_drop (sem G) n (room_with V q ws)"
proof (rule drop_result [OF assms(1,2)])
  fix m xs prm w ys
  assume d: "drop_node G n q = Ret (q\<lparr>pins := m, len := len q - 1\<rparr>) (Some (Linked (prm, w)))"
    "queue_inv G V (q\<lparr>pins := m, len := len q - 1\<rparr>)"
    and l: "links V (pins q) = xs @ (n, prm, w) # ys" "links V m = xs @ ys" "removed V m = removed V (pins q)"
      "n \<notin> ids (xs @ ys)" "removed V (pins q) n = None"
  let ?q = "q\<lparr>pins := m, len := len q - 1\<rparr>"
  have "room_with V ?q (ws(n := None)) = room_with V q ws\<lparr>wishes := ws(n := None), line := without n (links V (pins q))\<rparr>"
    using l without_split [OF l(4), of "(prm, w)"] by (intro room_eqI) simp_all
  then have "room_serve (sem G) (room_with V ?q (ws(n := None))) = room_drop (sem G) n (room_with V q ws)"
    using l(1,5) by (simp add: room_drop_def)
  with d show ?thesis by (intro first_round_room [OF assms(3,4)]) auto
next
  fix m r
  assume d: "drop_node G n q = (case r of
       Inl e \<Rightarrow> Ret (q\<lparr>pins := m\<rparr>) (Some (Removed (Inl e)))
     | Inr a \<Rightarrow> (case release (sem G) (state q) a of
         Returns s _ \<Rightarrow> Ret (q\<lparr>pins := m, state := s\<rparr>) None
       | Panics s \<Rightarrow> Unwind (q\<lparr>pins := m, state := s, poisoned := True\<rparr>)))"
    and inv: "\<And>s. queue_inv G V (q\<lparr>pins := m, state := s\<rparr>)" "queue_inv G V (q\<lparr>pins := m\<rparr>)"
    and m: "links V m = links V (pins q)" "removed V m = (removed V (pins q))(n := None)"
    and r: "removed V (pins q) n = Some r"
  let ?r = "room_with V q ws\<lparr>wishes := ws(n := None), ready := (removed V (pins q))(n := None)\<rparr>"
  have room: "room_with V (q\<lparr>pins := m\<rparr>) (ws(n := None)) = ?r"
    "room_with V (q\<lparr>pins := m, state := s\<rparr>) (ws(n := None)) = ?r\<lparr>stock := s\<rparr>"
    "room_with V (q\<lparr>pins := m, state := s, poisoned := True\<rparr>) (ws(n := None)) = ?r\<lparr>stock := s, bad := True\<rparr>" for s
    using m by (intro room_eqI; simp)+
  show ?thesis
  proof (cases r)
    case (Inl e)
    then have "room_serve (sem G) (room_with V (q\<lparr>pins := m\<rparr>) (ws(n := None))) = room_drop (sem G) n (room_with V q ws)"
      using r by (simp add: room room_drop_def)
    with d inv(2) Inl show ?thesis by (intro first_round_room [OF assms(3,4)]) auto
  next
    case (Inr a)
    then have drp: "room_drop (sem G) n (room_with V q ws) = room_change (sem G) (\<lambda>s. release (sem G) s a) ?r"
      using r by (simp add: room_drop_def)
    show ?thesis
    proof (cases "release (sem G) (state q) a")
      case (Returns s u)
      with drp have "room_serve (sem G) (room_with V (q\<lparr>pins := m, state := s\<rparr>) (ws(n := None))) =
          room_drop (sem G) n (room_with V q ws)" by (simp add: room room_change_def)
      with d inv(1) Inr Returns show ?thesis by (intro first_round_room [OF assms(3,4)]) auto
    next
      case (Panics s)
      with drp have "room_with V (q\<lparr>pins := m, state := s, poisoned := True\<rparr>) (ws(n := None)) =
          room_drop (sem G) n (room_with V q ws)" by (simp add: room room_change_def)
      with d Inr Panics show ?thesis by (intro first_round_room [OF assms(3,4)]) auto
    qed
  qed
qed

text \<open>An attempt is what the room answers to who asks.\<close>

lemma attempt_room:
  assumes "queue_inv G V q"
  obtains q1 where "same_list q q1"
    "(case ask (sem G) (policy G) p fair (room_with V q ws) of (r, ans) \<Rightarrow> r = room_with V q1 ws \<and>
      acquire_or_enqueue G p fair q = (case ans of
        Given a \<Rightarrow> Ret q1 (Acquired a)
      | Wait front p' \<Rightarrow> Ret q1 (Enqueue front p')
      | Too_late p' \<Rightarrow> Ret q1 (Closed (AcquireError p'))
      | Out_of_order p' \<Rightarrow> Ret q1 (Poisoned p')
      | Broken \<Rightarrow> Unwind q1))"
proof (cases "poisoned q \<or> closed q")
  case True
  then show thesis
    using that [of q] acquire_poisoned [of q p fair] acquire_closed [OF assms, of p fair]
    by (cases "poisoned q") (simp_all add: ask_def)
next
  case False
  have len: "len q = length (links V (pins q))" using assms by (simp add: queue_inv_def)
  have "\<not> poisoned q" "\<not> closed q" using False by simp_all
  note eq = acquire_open [OF assms this, of p fair]
  show thesis
  proof (cases "if fair then policy G (order q) (len q) else Returns (order q) True")
    case (Panics ord)
    with eq False len show thesis by (intro that [of "q\<lparr>order := ord\<rparr>"]) (auto simp: ask_def room_with_upd)
  next
    case (Returns ord front)
    show thesis
    proof (cases "\<not> front \<and> links V (pins q) \<noteq> []")
      case True
      with eq False len Returns show thesis by (intro that [of "q\<lparr>order := ord\<rparr>"]) (auto simp: ask_def room_with_upd)
    next
      case turn: False
      let ?r = "room_with V q ws"
      have ask: "ask (sem G) (policy G) p fair ?r = (case acquire (sem G) (state q) p of
           Panics s \<Rightarrow> (?r\<lparr>rule := ord, stock := s, bad := True\<rparr>, Broken)
         | Returns s (Inr a) \<Rightarrow> (?r\<lparr>rule := ord, stock := s\<rparr>, Given a)
         | Returns s (Inl p') \<Rightarrow> (?r\<lparr>rule := ord, stock := s\<rparr>, Wait front p'))"
      proof -
        have "(if fair then policy G (rule ?r) (length (line ?r)) else Returns (rule ?r) True) = Returns ord front"
          unfolding room_with_simps len [symmetric] by (rule Returns)
        then show ?thesis unfolding ask_def using False turn by auto
      qed
      have eq': "acquire_or_enqueue G p fair q = (case acquire (sem G) (state q) p of
           Panics s \<Rightarrow> Unwind (q\<lparr>order := ord, state := s, poisoned := True\<rparr>)
         | Returns s (Inr a) \<Rightarrow> Ret (q\<lparr>order := ord, state := s\<rparr>) (Acquired a)
         | Returns s (Inl p') \<Rightarrow> Ret (q\<lparr>order := ord, state := s\<rparr>) (Enqueue front p'))"
        unfolding eq Returns using turn by auto
      show thesis
      proof (cases "acquire (sem G) (state q) p" rule: attempt_cases)
        case (panic s)
        with ask eq' show thesis
          by (intro that [of "q\<lparr>order := ord, state := s, poisoned := True\<rparr>"]) (simp_all add: room_with_upd)
      next
        case (refuse s p')
        with ask eq' show thesis by (intro that [of "q\<lparr>order := ord, state := s\<rparr>"]) (simp_all add: room_with_upd)
      next
        case (grant s a)
        with ask eq' show thesis by (intro that [of "q\<lparr>order := ord, state := s\<rparr>"]) (simp_all add: room_with_upd)
      qed
    qed
  qed
qed

lemma try_room:
  assumes "queue_inv G V q"
  shows "try_acquire G p fair q = Ret q' res \<Longrightarrow> room_try (sem G) (policy G) p fair (room_with V q ws) = (room_with V q' ws, Some res)"
    and "try_acquire G p fair q = Unwind q' \<Longrightarrow> room_try (sem G) (policy G) p fair (room_with V q ws) = (room_with V q' ws, None)"
  by (rule attempt_room [OF assms, of ws p fair];
      auto simp: try_acquire_def room_try_def split: prod.splits answer.splits)+

text \<open>A poll: the result of the room, the future after it, and the queue.\<close>

lemma first_poll_room:
  assumes "queue_inv G V q" and "fut_params fut = Some p" and "\<not> pl_initialized (pl G) (pins q) (fut_node fut)"
  shows "poll G cx fut q = Ret (q', fut') res \<Longrightarrow>
      first_poll (sem G) (policy G) (fut_node fut) cx p (room_with V q ws) =
        (room_with V q' (ws(fut_node fut \<mapsto> fut_params fut')), Some res)"
    and "poll G cx fut q = Unwind (q', fut') \<Longrightarrow>
      first_poll (sem G) (policy G) (fut_node fut) cx p (room_with V q ws) =
        (room_with V q' (ws(fut_node fut \<mapsto> fut_params fut')), None)"
proof -
  let ?n = "fut_node fut" and ?fut = "fut\<lparr>fut_params := None\<rparr>"
  let ?ws = "ws(?n \<mapsto> None)"
  have fresh: "?n \<notin> ids (links V (pins q))" "removed V (pins q) ?n = None"
    using assms(3) initialized_iff [OF assms(1)] by auto
  have poll: "poll G cx fut q = poll_first G cx fut q" using assms(3) by (simp add: poll_def)
  have room: "room_with V q ws\<lparr>wishes := ?ws\<rparr> = room_with V q ?ws" by (intro room_eqI) simp_all
  obtain q1 r ans where q1: "same_list q q1" "r = room_with V q1 ?ws"
    and ask: "ask (sem G) (policy G) p True (room_with V q ?ws) = (r, ans)"
    and attempt: "acquire_or_enqueue G p True q = (case ans of
        Given a \<Rightarrow> Ret q1 (Acquired a)
      | Wait front p' \<Rightarrow> Ret q1 (Enqueue front p')
      | Too_late p' \<Rightarrow> Ret q1 (Closed (AcquireError p'))
      | Out_of_order p' \<Rightarrow> Ret q1 (Poisoned p')
      | Broken \<Rightarrow> Unwind q1)"
    by (rule attempt_room [OF assms(1), of ?ws p True]) (force split: prod.splits)
  have "(poll G cx fut q = Ret (q', fut') res \<longrightarrow> first_poll (sem G) (policy G) ?n cx p (room_with V q ws) =
        (room_with V q' (ws(?n \<mapsto> fut_params fut')), Some res)) \<and>
    (poll G cx fut q = Unwind (q', fut') \<longrightarrow> first_poll (sem G) (policy G) ?n cx p (room_with V q ws) =
        (room_with V q' (ws(?n \<mapsto> fut_params fut')), None))"
  proof (cases ans)
    case (Wait front p')
    have "\<not> closed q" using ask Wait by (auto simp: ask_def split: if_splits)
    then have q1': "queue_inv G V q1" "\<not> closed q1" "pins q1 = pins q"
      using same_list_inv [OF q1(1) assms(1)] q1(1) by (simp_all add: same_list_def)
    let ?m = "if front then pl_push_front (pl G) (pins q1) ?n (Some p', cx) else pl_push_back (pl G) (pins q1) ?n (Some p', cx)"
    have "poll G cx fut q = Ret (q1\<lparr>pins := ?m, len := len q1 + 1\<rparr>, ?fut) Pending"
      using attempt Wait assms(2) open_queue [OF q1'(1,2)] by (simp add: poll poll_first_def Let_def)
    moreover have "first_poll (sem G) (policy G) ?n cx p (room_with V q ws) =
        (room_with V (q1\<lparr>pins := ?m, len := len q1 + 1\<rparr>) ?ws, Some Pending)"
      using poll_push [OF q1'(1,2), of ?n front "(Some p', cx)"] fresh q1'(3) ask Wait q1(2)
      by (simp add: first_poll_def room)
    ultimately show ?thesis by auto
  qed (use attempt assms(2) ask q1(2) in \<open>auto simp: poll poll_first_def first_poll_def room told_def\<close>)
  then show "poll G cx fut q = Ret (q', fut') res \<Longrightarrow> first_poll (sem G) (policy G) ?n cx p (room_with V q ws) =
        (room_with V q' (ws(?n \<mapsto> fut_params fut')), Some res)"
    and "poll G cx fut q = Unwind (q', fut') \<Longrightarrow> first_poll (sem G) (policy G) ?n cx p (room_with V q ws) =
        (room_with V q' (ws(?n \<mapsto> fut_params fut')), None)" by blast+
qed

lemma poll_room:
  assumes "queue_inv G V q" and "ws (fut_node fut) = Some (fut_params fut)"
  shows "poll G cx fut q = Ret (q', fut') res \<Longrightarrow>
      room_poll (sem G) (policy G) (fut_node fut) cx (room_with V q ws) =
        (room_with V q' (ws(fut_node fut \<mapsto> fut_params fut')), Some res)"
    and "poll G cx fut q = Unwind (q', fut') \<Longrightarrow>
      room_poll (sem G) (policy G) (fut_node fut) cx (room_with V q ws) =
        (room_with V q' (ws(fut_node fut \<mapsto> fut_params fut')), None)"
proof -
  let ?n = "fut_node fut" and ?R = "room_with V q ws"
  have same: "ws(?n \<mapsto> fut_params fut) = ws" using assms(2) by auto
  have "(poll G cx fut q = Ret (q', fut') res \<longrightarrow> room_poll (sem G) (policy G) ?n cx ?R =
        (room_with V q' (ws(?n \<mapsto> fut_params fut')), Some res)) \<and>
    (poll G cx fut q = Unwind (q', fut') \<longrightarrow> room_poll (sem G) (policy G) ?n cx ?R =
        (room_with V q' (ws(?n \<mapsto> fut_params fut')), None))" (is ?goal)
  proof (cases "pl_initialized (pl G) (pins q) ?n")
    case False
    then have fresh: "?n \<notin> ids (links V (pins q))" "removed V (pins q) ?n = None"
      using initialized_iff [OF assms(1)] by auto
    then have line: "map_of (links V (pins q)) ?n = None" by (simp add: map_of_eq_None_iff)
    show ?thesis
    proof (cases "fut_params fut")
      case None
      with False fresh line assms(2) same show ?thesis by (auto simp: room_poll_def poll_def poll_first_def)
    next
      case (Some p)
      then have "room_poll (sem G) (policy G) ?n cx ?R = first_poll (sem G) (policy G) ?n cx p ?R"
        using fresh line assms(2) by (simp add: room_poll_def)
      with first_poll_room [OF assms(1) Some False] show ?thesis by auto
    qed
  next
    case True
    then have init: "?n \<in> ids (links V (pins q)) \<or> removed V (pins q) ?n \<noteq> None"
      using initialized_iff [OF assms(1)] by blast
    show ?thesis
    proof (rule poll_result [OF assms(1), where cx = cx and fut = fut])
      fix m xs prm w ys
      assume p: "poll G cx fut q = Ret (q\<lparr>pins := m\<rparr>, fut) Pending" "\<not> closed q"
        and l: "links V (pins q) = xs @ (?n, prm, w) # ys" "links V m = xs @ (?n, prm, cx) # ys"
          "removed V m = removed V (pins q)" "?n \<notin> ids (xs @ ys)" "removed V (pins q) ?n = None"
      have "room_with V (q\<lparr>pins := m\<rparr>) ws = ?R\<lparr>line := renewed ?n cx (links V (pins q))\<rparr>"
        unfolding l(1) renewed_split [OF l(4)] using l(2,3) by (intro room_eqI) simp_all
      moreover have "map_of (links V (pins q)) ?n = Some (prm, w)" unfolding l(1) by (rule map_of_split [OF l(4)])
      ultimately have "room_poll (sem G) (policy G) ?n cx ?R = (room_with V (q\<lparr>pins := m\<rparr>) ws, Some Pending)"
        using p(2) l(5) by (simp add: room_poll_def)
      then show ?goal using p(1) same by auto
    next
      fix m xs prm w ys
      assume p: "poll G cx fut q = (case prm of
           Some p \<Rightarrow> Ret (q\<lparr>pins := m, len := len q - 1\<rparr>, fut) (Ready (Inl (AcquireError p)))
         | None \<Rightarrow> Unwind (q\<lparr>pins := m, len := len q - 1\<rparr>, fut))" "closed q"
        and l: "links V (pins q) = xs @ (?n, prm, w) # ys" "links V m = xs @ ys"
          "removed V m = removed V (pins q)" "?n \<notin> ids (xs @ ys)" "removed V (pins q) ?n = None"
      have "room_with V (q\<lparr>pins := m, len := len q - 1\<rparr>) ws = ?R\<lparr>line := without ?n (links V (pins q))\<rparr>"
        unfolding l(1) without_split [OF l(4)] using l(2,3) by (intro room_eqI) simp_all
      moreover have "map_of (links V (pins q)) ?n = Some (prm, w)" unfolding l(1) by (rule map_of_split [OF l(4)])
      ultimately have "room_poll (sem G) (policy G) ?n cx ?R =
          (room_with V (q\<lparr>pins := m, len := len q - 1\<rparr>) ws, told prm)"
        using p(2) l(5) by (simp add: room_poll_def)
      then show ?goal using p(1) same by (cases prm) (auto simp: told_def)
    next
      fix m r
      assume p: "poll G cx fut q = (case r of
           Inr a \<Rightarrow> Ret (q\<lparr>pins := m\<rparr>, fut) (Ready (Inr a))
         | Inl None \<Rightarrow> Unwind (q\<lparr>pins := m\<rparr>, fut)
         | Inl (Some p) \<Rightarrow> Ret (q\<lparr>pins := m\<rparr>, fut) (Ready (Inl (AcquireError p))))"
        and m: "links V m = links V (pins q)" "removed V m = (removed V (pins q))(?n := None)"
        and r: "removed V (pins q) ?n = Some r"
      have "room_with V (q\<lparr>pins := m\<rparr>) ws = ?R\<lparr>ready := (removed V (pins q))(?n := None)\<rparr>"
        using m by (intro room_eqI) simp_all
      then have "room_poll (sem G) (policy G) ?n cx ?R = (room_with V (q\<lparr>pins := m\<rparr>) ws,
          case r of Inr a \<Rightarrow> Some (Ready (Inr a)) | Inl prm \<Rightarrow> told prm)"
        using r by (simp add: room_poll_def)
      then show ?goal using p same by (auto simp: told_def split: sum.splits option.splits)
    qed (use init in simp_all)
  qed
  then show "poll G cx fut q = Ret (q', fut') res \<Longrightarrow> room_poll (sem G) (policy G) ?n cx ?R =
        (room_with V q' (ws(?n \<mapsto> fut_params fut')), Some res)"
    and "poll G cx fut q = Unwind (q', fut') \<Longrightarrow> room_poll (sem G) (policy G) ?n cx ?R =
        (room_with V q' (ws(?n \<mapsto> fut_params fut')), None)" by blast+
qed

section \<open>The queue is the room\<close>

lemma does_room:
  assumes "sys_inv G V s" and "does G d s t"
  shows "room_does (sem G) (policy G) d (room_of V s) (room_of V t)"
proof -
  note inv = sys_inv_queue [OF assms(1)] and at = sys_inv_at [OF assms(1)]
  have wish: "wished s (fut_node fut) = Some (fut_params fut)" "fut_node fut = n" if "futs s n = Some fut" for n fut
    using that at [OF that] by (simp_all add: wished_def)
  have wished: "wished (s\<lparr>sq := q, futs := (futs s)(n := x)\<rparr>) = (wished s)(n := map_option fut_params x)"
    "wished (s\<lparr>futs := (futs s)(n := x)\<rparr>) = (wished s)(n := map_option fut_params x)"
    "wished (s\<lparr>sq := q, futs := (futs s)(n := x), frames := fs, owed := b\<rparr>) = (wished s)(n := map_option fut_params x)"
    "wished (s\<lparr>sq := q, futs := (futs s)(n := x), waker_of := wk, notified := ns\<rparr>) = (wished s)(n := map_option fut_params x)"
    "wished (s\<lparr>sq := q, frames := fs, owed := b\<rparr>) = wished s" "wished (s\<lparr>sq := q, frames := fs\<rparr>) = wished s"
    "wished (s\<lparr>sq := q, owed := b\<rparr>) = wished s" "wished (s\<lparr>frames := fs, notified := ns\<rparr>) = wished s"
    "wished (s\<lparr>frames := fs, notified := ns, owed := b\<rparr>) = wished s" "wished (s\<lparr>frames := fs\<rparr>) = wished s"
    "wished (s\<lparr>sq := q\<rparr>) = wished s" for q n x fs b wk ns
    by (simp_all add: wished_def fun_eq_iff)
  from assms(2) show ?thesis
  proof cases
    case (new_future n p)
    then show ?thesis by (simp add: room_of_def wished room_with_def queue_acquire_def)
  next
    case (poll_ready n fut w q' fut' r)
    with poll_room(1) [where fut = fut and ws = "wished s", OF inv wish(1) [OF poll_ready(3)] poll_ready(4)] wish(2) [OF poll_ready(3)] show ?thesis
      by (simp add: room_of_def wished)
  next
    case (poll_pending n fut w q' fut')
    with poll_room(1) [where fut = fut and ws = "wished s", OF inv wish(1) [OF poll_pending(3)] poll_pending(4)] wish(2) [OF poll_pending(3)] show ?thesis
      by (simp add: room_of_def wished)
  next
    case (poll_unwind n fut w q' fut')
    with poll_room(2) [where fut = fut and ws = "wished s", OF inv wish(1) [OF poll_unwind(3)] poll_unwind(4)] wish(2) [OF poll_unwind(3)] show ?thesis
      by (simp add: room_of_def wished)
  next
    case (try_return p fair q' r)
    with try_room(1) [OF inv try_return(3)] show ?thesis by (simp add: room_of_def wished)
  next
    case (try_unwind p fair q')
    with try_room(2) [OF inv try_unwind(3)] show ?thesis by (simp add: room_of_def wished)
  next
    case (drop_initial n fut)
    with initialized_iff [OF inv, of n] wish(2) [OF drop_initial(3)] show ?thesis
      by (auto simp: room_of_def wished room_drop_def room_with_def)
  next
    case (drop_future n fut x q' frame)
    with drop_room [OF inv drop_future(4-6)] wish(2) [OF drop_future(3)] show ?thesis by (simp add: room_of_def wished)
  next
    case (change_state f x q' frame)
    with change_room [OF inv change_state(3,4)] show ?thesis by (simp add: room_of_def wished)
  next
    case (start_close x q' frame)
    with close_room [OF inv start_close(3-5)] show ?thesis by (simp add: room_of_def wished)
  next
    case clear
    then show ?thesis by (simp add: room_of_def wished room_with_def clear_poison_def)
  next
    case (recheck fs gs x q' frame)
    with check_room [OF inv recheck(4,5)] show ?thesis by (simp add: room_of_def wished)
  next
    case (reclose fs gs x q' frame)
    with close_room [OF inv reclose(3,5,6)] show ?thesis by (simp add: room_of_def wished)
  qed (simp_all add: room_of_def wished)
qed

end

end
