(* ===== verification/Bench.thy ===== *)
theory Bench
  imports Complex_Main "HOL-Library.Word" "HOL-Library.Multiset"
begin

text \<open>
  The harness of the benchmarks, flag-bearer-tests/src/bench.rs: every thread times its rounds into a histogram, which is reset
  when the warm-up is over, and the histograms are merged. The crate hdrhistogram is a parameter, and so are the
  clock and what is measured: the time that a round of a thread took.
\<close>

section \<open>Histograms\<close>

text \<open>\<open>new(3)\<close>, which grows with the values, \<open>reset\<close>, \<open>+= value\<close>, \<open>+= histogram\<close> and \<open>value_at_quantile\<close>.\<close>

record 'h histogram =
  h_new :: 'h
  h_reset :: "'h \<Rightarrow> 'h"
  h_record :: "'h \<Rightarrow> 64 word \<Rightarrow> 'h"
  h_add :: "'h \<Rightarrow> 'h \<Rightarrow> 'h"
  h_quantile :: "'h \<Rightarrow> rat \<Rightarrow> 64 word"

text \<open>What the crate documents: \<open>samples\<close> are the values recorded since the last reset.\<close>

locale histogram_laws =
  fixes H :: "'h histogram" and samples :: "'h \<Rightarrow> 64 word multiset"
  assumes new: "samples (h_new H) = {#}"
    and reset: "samples (h_reset H h) = {#}"
    and record_value: "samples (h_record H h x) = add_mset x (samples h)"
    and add: "samples (h_add H h k) = samples h + samples k"

section \<open>The harness\<close>

text \<open>\<open>f t r\<close> is the time in nanoseconds that \<open>f\<close> returned to thread \<open>t\<close> in round \<open>r\<close>, cut to 64 bits by \<open>as u64\<close>. The number of
  rounds is a \<open>usize\<close> whose sum with the warm-up must not overflow; the barrier, at which all threads meet once a
  round, is part of \<open>f\<close>.\<close>

definition bench_thread :: "'h histogram \<Rightarrow> nat \<Rightarrow> nat \<Rightarrow> (nat \<Rightarrow> nat) \<Rightarrow> 'h" where
  "bench_thread H rounds warmup f =
     foldl (\<lambda>h round. h_record H (if round = warmup then h_reset H h else h) (of_nat (f round)))
       (h_new H) [0..<rounds + warmup]"

definition bench_threads :: "'h histogram \<Rightarrow> nat \<Rightarrow> nat \<Rightarrow> (nat \<Rightarrow> nat \<Rightarrow> nat) \<Rightarrow> 'h option" where
  "bench_threads H threads rounds f = (let warmup = rounds div 100 in
     if 0 < threads \<and> 2 ^ 64 \<le> rounds + warmup then None
     else Some (foldl (h_add H) (h_new H) (map (\<lambda>t. bench_thread H rounds warmup (f t)) [0..<threads])))"

text \<open>\<open>async_bench\<close>: the time of a round is divided by the number of iterations, which panics for none, so
  nothing is printed. \<open>elapsed t r\<close> is what the clock measured; the result are the quantiles that are printed, with
  their values in nanoseconds.\<close>

definition async_bench ::
  "'h histogram \<Rightarrow> nat \<Rightarrow> nat \<Rightarrow> 32 word \<Rightarrow> (nat \<Rightarrow> nat \<Rightarrow> nat) \<Rightarrow> (rat \<times> 64 word) list option" where
  "async_bench H threads rounds iterations elapsed =
     (if iterations = 0 \<and> 0 < threads \<and> 0 < rounds then None
      else (case bench_threads H threads rounds (\<lambda>t r. elapsed t r div unat iterations) of
          None \<Rightarrow> None
        | Some h \<Rightarrow> Some (map (\<lambda>q. (q, h_quantile H h q)) [1 / 2, 3 / 4, 9 / 10, 99 / 100, 999 / 1000])))"

section \<open>What is measured\<close>

context histogram_laws
begin

lemma samples_after:
  "warmup \<notin> set xs \<Longrightarrow>
    samples (foldl (\<lambda>h round. h_record H (if round = warmup then h_reset H h else h) (of_nat (f round))) h xs) =
      samples h + mset (map (\<lambda>r. of_nat (f r)) xs)"
  by (induction xs arbitrary: h) (auto simp: record_value)

text \<open>A thread records the rounds after the warm-up, and only those.\<close>

lemma bench_thread_samples:
  "samples (bench_thread H rounds (rounds div 100) f) = mset (map (\<lambda>r. of_nat (f (rounds div 100 + r))) [0..<rounds])"
proof (cases "rounds = 0")
  case True
  then show ?thesis by (simp add: bench_thread_def new)
next
  case False
  let ?w = "rounds div 100"
  from False have split: "[0..<rounds + ?w] = [0..<?w] @ ?w # [Suc ?w..<rounds + ?w]"
    using upt_add_eq_append [of 0 ?w rounds] by (simp add: add.commute upt_conv_Cons)
  have "map (\<lambda>r. of_nat (f (?w + r))) [0..<rounds] = map (\<lambda>r. of_nat (f r)) [?w..<rounds + ?w]"
    by (rule nth_equalityI) (simp_all add: add.commute)
  also have "[?w..<rounds + ?w] = ?w # [Suc ?w..<rounds + ?w]"
    using False by (simp add: upt_conv_Cons)
  finally have e: "map (\<lambda>r. of_nat (f (?w + r))) [0..<rounds] = map (\<lambda>r. of_nat (f r)) (?w # [Suc ?w..<rounds + ?w])" .
  show ?thesis
    unfolding bench_thread_def split e by (simp add: samples_after record_value reset)
qed

lemma merged_samples: "samples (foldl (h_add H) h hs) = samples h + (\<Sum>k\<leftarrow>hs. samples k)"
  by (induction hs arbitrary: h) (simp_all add: add ac_simps)

lemma bench_threads_samples:
  assumes "bench_threads H threads rounds f = Some h"
  shows "samples h = (\<Sum>t\<leftarrow>[0..<threads]. mset (map (\<lambda>r. of_nat (f t (rounds div 100 + r))) [0..<rounds]))"
    and "size (samples h) = threads * rounds"
proof -
  show s: "samples h = (\<Sum>t\<leftarrow>[0..<threads]. mset (map (\<lambda>r. of_nat (f t (rounds div 100 + r))) [0..<rounds]))"
    using assms by (auto simp: bench_threads_def Let_def merged_samples new bench_thread_samples comp_def split: if_splits)
  show "size (samples h) = threads * rounds" unfolding s by (induction threads) simp_all
qed

text \<open>What is printed are the quantiles of the times of all measured rounds, per iteration.\<close>

lemma async_bench_prints:
  assumes "0 < iterations" and "rounds + rounds div 100 < 2 ^ 64"
  obtains h where "async_bench H threads rounds iterations elapsed =
      Some (map (\<lambda>q. (q, h_quantile H h q)) [1 / 2, 3 / 4, 9 / 10, 99 / 100, 999 / 1000])"
    "samples h = (\<Sum>t\<leftarrow>[0..<threads].
      mset (map (\<lambda>r. of_nat (elapsed t (rounds div 100 + r) div unat iterations)) [0..<rounds]))"
    "size (samples h) = threads * rounds"
proof -
  let ?f = "\<lambda>t r. elapsed t r div unat iterations"
  from assms(2) obtain h where h: "bench_threads H threads rounds ?f = Some h"
    by (auto simp: bench_threads_def Let_def not_le)
  from assms(1) have "iterations \<noteq> 0" by auto
  with h bench_threads_samples [OF h] that [of h] show thesis by (simp add: async_bench_def)
qed

end

text \<open>A histogram that keeps every value.\<close>

definition exact_histogram :: "64 word list histogram" where
  "exact_histogram = \<lparr>h_new = [], h_reset = (\<lambda>_. []), h_record = (\<lambda>h x. insort x h), h_add = foldl (\<lambda>h x. insort x h),
     h_quantile = (\<lambda>h q. if h = [] then 0 else h ! (nat \<lceil>q * of_nat (length h)\<rceil> - 1))\<rparr>"

interpretation exact: histogram_laws exact_histogram mset
proof unfold_locales
  fix h k :: "64 word list"
  show "mset (h_add exact_histogram h k) = mset h + mset k"
    by (induction k arbitrary: h) (simp_all add: exact_histogram_def)
qed (simp_all add: exact_histogram_def)

end
