(* ===== verification/Spec2Isabelle.thy ===== *)
theory Spec2Isabelle
  imports Example_Mains Random_Order Doc_Runs Arrival_Order Waiting_Room Bench
begin

text \<open>
  \<^bold>\<open>What this is.\<close> A model of flag-bearer, an async semaphore for Rust whose permits are whatever a
  user-supplied state hands out, with theorems about it. The workspace has five library crates and two of
  examples and tests; paths below are relative to \<open>src/\<close>.

  \<^bold>\<open>The program.\<close> A \<open>SemaphoreQueue\<close> (flag-bearer-queue) is a mutex around a \<open>QueueState\<close>: the user's
  state, an \<open>Order\<close>, flags for poison and closing, and an intrusive list of the nodes of waiting
  \<open>Acquire\<close> futures. A first poll tries the state and, if refused, links its node. Every operation that may free
  permits (\<open>with_state\<close>, dropping a future or a permit) runs \<open>with_queue\<close>: under the mutex \<open>check\<close> serves the
  list from the front, parks each permit in its node and collects the node's waker in a batch of at most
  32; then the mutex is released and the batch is woken; then, if the batch was full, it goes round
  again. \<open>close\<close> removes the waiters in the same way. The next poll of a removed node takes the permit or
  the error out of it. flag-bearer wraps the queue into \<open>Semaphore\<close> and \<open>Permit\<close>, a drop guard that releases
  through \<open>with_state\<close>; flag-bearer-core has the trait of the state, flag-bearer-mutex the mutex.

  \<^bold>\<open>The theories, and the code they model.\<close>
  \<^item> \<open>Prelude\<close>: how calls into user code and operations end (return, unwind, abort, undefined behaviour);
    identities of nodes and association lists.
  \<^item> \<open>Sem_State\<close>: flag-bearer-core/src/lib.rs, the trait as a record of two functions. Its contract is the
    locale \<open>lawful_state\<close>; \<open>measured_state\<close> and \<open>budget_state\<close> add a quantity that is handed out.
  \<^item> \<open>Pin_List\<close> and the first part of \<open>Wake_Batch\<close>: the dependencies pin-list and arrayvec, as parameters whose
    documented behaviour is a locale, with a reference instance each. The rest of \<open>Wake_Batch\<close> is
    \<open>WakeBatch\<close> and \<open>WakeRemaining\<close> of flag-bearer-queue/src/lib.rs, for wakers that run any code and may panic.
  \<^item> \<open>Queue_Order\<close>, \<open>Close_Mode\<close>: order.rs and closeable.rs of flag-bearer-queue; the type parameter
    \<open>Closeable\<close> or \<open>Uncloseable\<close> is a value.
  \<^item> \<open>Queue_State\<close>: \<open>QueueState\<close> with \<open>update_state\<close>, \<open>check\<close>, \<open>close_one\<close> and the poison guard; its invariant
    \<open>queue_inv\<close>; \<open>serve\<close>, the specification of one round of \<open>check\<close> on a plain list.
  \<^item> \<open>Acquire_Future\<close>: flag-bearer-queue/src/acquire.rs, that is \<open>acquire_or_enqueue\<close>, \<open>try_acquire\<close>,
    \<open>poll\<close>, \<open>PinnedDrop\<close>. \<open>poll_result\<close> and \<open>drop_result\<close> say all that a poll and a drop can do.
  \<^item> \<open>Queue_Ops\<close>: \<open>with_queue\<close>, \<open>with_state\<close>, \<open>close\<close> as whole calls, with the wakers in between as a
    function \<open>run\<close>; what they do when the wakers leave the queue alone, and that they return.
  \<^item> \<open>Queue_System\<close>: all users of a queue at once. A step is one section under the mutex, or one waker
    invoked, of any participant; \<open>reachable\<close> are the states of all interleavings.
  \<^item> \<open>Work_Conservation\<close>, \<open>Closing\<close>, \<open>Ledger\<close>, \<open>Arrival_Order\<close>, \<open>Waker_Panics\<close>: what the
    interleavings keep (no idle permit, closed for good, the account of the permits, the order of the
    waiters), and calls cut short by a panicking waker.
  \<^item> \<open>Progress\<close>: what follows from these together. The state behind the queue sees at most one release or closure
    per action and then only attempts, so a limit moved at run time is kept (dynamic_limit.rs); nobody
    waits for permits that nobody has.
  \<^item> \<open>Waiting_Room\<close>: what the queue promises as a whole, an abstract machine of a line, results, a stock and a rule in
    which every action and its answer is a function of the room, and the proof that \<open>Queue_System\<close> is this machine.
  \<^item> \<open>Semaphore\<close>: flag-bearer/src/lib.rs, permit.rs, drop_wrapper.rs; the counting semaphore of
    flag-bearer-tests/src/lib.rs. \<open>Debug_Output\<close>: what they print, also while the mutex is held.
  \<^item> \<open>Connection_Pool\<close>: flag-bearer-examples/examples/connection_pool.rs with its \<open>main\<close>, and \<open>acquire_conn\<close> of
    the crate documentation; the locale \<open>pool_queue\<close> is a pool behind a LIFO queue. It extends \<open>lone_queue\<close> of
    \<open>Lone_Queue\<close>, a semaphore with one caller at a time, on which \<open>Doc_Runs\<close> rests: the programs of the crate
    documentation and the tests inside the sources, as functions with a result.
  \<^item> \<open>Tasks\<close>: programs of tasks that share a semaphore, as a tokio runtime runs them: a main task that spawns and joins,
    workers that acquire, use and drop a permit. A step is one poll, one section under the mutex, one waker or one step of a
    task by itself. \<open>Task_Queue\<close> is what a poll and a section do to the permits in use, for states with the contract
    \<open>task_state\<close>; \<open>Task_Runs\<close> the invariant of such programs, \<open>Task_Ends\<close> that their runs are finite and end with every
    task finished. \<open>Example_Mains\<close> has the \<open>main\<close> functions of the three examples with async workers.
  \<^item> \<open>State_Examples\<close>, \<open>Float64\<close>, \<open>Aimd\<close>: the states of the crate documentation, the tests and the examples
    (words with overflow checks, finite \<open>f64\<close> values rounded to 53 bits), each shown to keep the contract
    it is used under.
  \<^item> \<open>Random_Order\<close>: the logistic order of flag-bearer-tests/src/lib.rs, over the exponential and the random
    generator as parameters with their contracts.
  \<^item> \<open>Raw_Mutex\<close>: flag-bearer-mutex/src/futex.rs, threads that take one atomic access per step. The word has a
    modification order and views, so relaxed loads may be stale and the orderings of the accesses matter.
    \<open>Locked_Data\<close>: flag-bearer-mutex/src/lib.rs, whose methods forward to it, and the sections of code a mutex guards, on
    data whose accesses may find old versions. Its interface \<open>exclusive_lock\<close> is what a mutex must promise; both mutexes
    are shown to keep it.
  \<^item> \<open>Bench\<close>: flag-bearer-tests/src/bench.rs, over the histogram library as a parameter with its contract.
  \<^item> \<open>Queue_Properties\<close>, \<open>Acquire_Properties\<close>, \<open>Semaphore_Properties\<close> and this theory: the properties, numbered
    C1 to C40, each after a text that states it, with a concrete instance.

  \<^bold>\<open>State and operations.\<close> The record \<open>queue_state\<close> has the fields of \<open>QueueState\<close>; \<open>queue\<close> says whether the
  list is still there, \<open>pins\<close> is the memory of the list and of the nodes. The record \<open>generics\<close> bundles
  the type parameters of the code and the dependencies. An operation maps a queue to an \<open>exec\<close>: every panic,
  \<open>expect\<close>, checked decrement, \<open>debug_assert\<close>, \<open>unreachable_unchecked\<close> and unsafe precondition of the source is a
  branch. Whether one is reached is a theorem (C1), not an assumption.

  \<^bold>\<open>What is shown.\<close> For every interleaving: no undefined behaviour (C1), no lost wake-up (C2), no
  permit idle while a waiter could have it (C3), permits conserved (C4), nobody left waiting for permits
  nobody has (C5), waiters never change place (C6), exact refinement of the abstract waiting room (C7), a
  closed queue stays closed. For the example programs: every run is finite, nobody panics, and where it ends every task has
  finished and every permit is back (C8 to C10). For the operations: \<open>check\<close> refines \<open>serve\<close> and batching is
  invisible; \<open>with_state\<close> and \<open>close\<close> return; each branch of acquiring, polling, cancelling and closing;
  what panics of states, closures and wakers leave behind. For the mutex: mutual exclusion, no sleeper
  forgotten, refinement of an abstract lock, sections that are atomic and free of data races. For the example states:
  bounds, round trips.

  \<^bold>\<open>Termination.\<close> No fuel is used. Loops the wakers can feed, or that run over a list the model does not know
  to be acyclic, are partial functions whose value \<open>None\<close> is divergence: \<open>check_loop\<close>, \<open>close_fill\<close>,
  \<open>with_queue_loop\<close>, \<open>close_loop\<close>, \<open>get_permit\<close>. \<open>check\<close> and \<open>close_fill\<close> always end on a well-formed queue (C1).
  The outer loops end when the wakers keep the invariant and do not add waiters; the measure is the number of
  waiters. Without that they need not end: a waker can enqueue for ever. The runs of the example programs are bounded by the
  weight of their code (\<open>code_weight\<close>): each statement of each task costs a fixed number of steps, wake-ups and further rounds included.

  \<^bold>\<open>Assumptions.\<close> \<open>Waker::clone\<close> and the drop of a waker or of params return. Arithmetic is that of a build with
  overflow checks. \<open>len\<close> counts nodes in memory and does not reach \<open>usize::MAX\<close>. A section under the mutex is
  one step, which \<open>sections_are_atomic\<close> justifies for the mutex of the crate on linux. In \<open>Raw_Mutex\<close> an atomic behaves as in
  the release/acquire fragment of the memory model of Rust: a read-modify-write acts on the last write, any other load may find
  each write that is not older than one the thread found before. An \<open>f64\<close> is finite and its exponent unbounded.
  The executor polls a task that starts to wait, and again only after its waker was invoked; a sleep ends at any time. A task
  that panics would not be followed further, and none does.

  \<^bold>\<open>Not modelled.\<close> The format \<open>{:#?}\<close>; \<open>loom.rs\<close>, a stand-in for the mutex under a model checker; the barrier and the clock
  of \<open>bench.rs\<close>; parking_lot, a third-party library, and the conditional compilation that chooses between it
  and the futex mutex; what the examples print, beyond the values their closures read, and the real time they take.
\<close>

section \<open>A run\<close>

text \<open>Future 1 asks an empty semaphore for two permits and waits with waker 7; \<open>with_state\<close> adds two
  permits, grants them and has waker 7 left to invoke.\<close>

definition demo_served :: "(demo_list, 64 word, fair_order) queue_state" where
  "demo_served = \<lparr>queue = Open, pins = \<lparr>lp_links = [], lp_removed = [(1, Inr 2)]\<rparr>, poisoned = False,
     closed = False, len = 0, order = Fifo, state = 0\<rparr>"

definition demo_sys :: "(nat list \<times> resume) list \<Rightarrow> nid set \<Rightarrow> (demo_list, 64 word, 64 word, fair_order, nat) sys"
  where
  "demo_sys fs ns = \<lparr>sq = demo_served, futs = [1 \<mapsto> \<lparr>fut_node = 1, fut_params = None\<rparr>], frames = fs,
     waker_of = [1 \<mapsto> 7], notified = ns, owed = False\<rparr>"

lemma demo_grant:
  "first_round (demo Closeable) (update_state (\<lambda>s. Returns (s + 2) ())) (demo_queue 0 [(1, Some 2, 7)]) =
    Some (Ret (demo_served, [7]) ())"
  by (simp add: first_round_def update_state_def demo_queue_def check_def, subst check_loop.simps,
      simp add: plain_pin_list_def plain_array_vec_def batch_cap_def lp_set_def lp_after_def lp_remove_def
        delete_id_def Let_def, subst check_loop.simps, simp add: plain_pin_list_def demo_served_def)

definition demo_parked :: "(demo_list, 64 word, 64 word, fair_order, nat) sys" where
  "demo_parked = \<lparr>sq = demo_queue 0 [(1, Some 2, 7)], futs = [1 \<mapsto> \<lparr>fut_node = 1, fut_params = None\<rparr>],
     frames = [], waker_of = [1 \<mapsto> 7], notified = {}, owed = False\<rparr>"

text \<open>The two steps to it: the future is made, and polled.\<close>

definition demo_empty :: "(demo_list, 64 word, 64 word, fair_order, nat) sys" where
  "demo_empty = init_sys (demo Closeable) 0 Fifo"

definition demo_made :: "(demo_list, 64 word, 64 word, fair_order, nat) sys" where
  "demo_made = demo_empty\<lparr>futs := [1 \<mapsto> queue_acquire 1 2]\<rparr>"

lemma demo_make: "sys_step (demo Closeable) demo_empty demo_made"
  using does.new_future [where G = "demo Closeable" and s = demo_empty and n = 1 and p = 2, THEN does_step]
  by (simp add: demo_made_def demo_empty_def init_sys_def)

lemma demo_park: "sys_step (demo Closeable) demo_made demo_parked"
proof -
  let ?f = "\<lparr>fut_node = 1, fut_params = None\<rparr> :: 64 word acquire_future"
  have "poll (demo Closeable) 7 (queue_acquire 1 2) (sq demo_made) = Ret (demo_queue 0 [(1, Some 2, 7)], ?f) Pending"
    by (simp add: demo_made_def demo_empty_def init_sys_def poll_def poll_first_def queue_acquire_def
        acquire_or_enqueue_def new_queue_def plain_pin_list_def demo_queue_def)
  from does.poll_pending [OF _ this, of 1, THEN does_step] show ?thesis
    by (simp add: demo_parked_def demo_made_def demo_empty_def init_sys_def del: One_nat_def)
qed

lemma demo_parked_reachable: "reachable (demo Closeable) demo_parked"
  by (rule reachable.step [OF reachable.step [OF reachable.start demo_make [unfolded demo_empty_def]] demo_park])

lemma demo_change: "does (demo Closeable) (Changes (\<lambda>s. Returns (s + 2) ())) demo_parked (demo_sys [([7], Stop)] {})"
proof -
  have re: "round_end (demo Closeable) Recheck (Ret (demo_served, [7]) ()) = Some (demo_served, [7], Stop)"
    by (simp add: demo_served_def plain_array_vec_def)
  have "does (demo Closeable) (Changes (\<lambda>s. Returns (s + 2) ())) demo_parked
      (demo_parked\<lparr>sq := demo_served, frames := ([7], Stop) # frames demo_parked, owed := False\<rparr>)"
    by (rule does.change_state [where f = "\<lambda>s. Returns (s + 2) ()", OF _ re])
      (simp add: demo_grant demo_parked_def del: One_nat_def)
  then show ?thesis by (simp add: demo_sys_def demo_parked_def)
qed

lemma demo_waking: "reachable (demo Closeable) (demo_sys [([7], Stop)] {})"
  by (rule reachable.step [OF demo_parked_reachable does_step [OF demo_change]])

lemma demo_notified: "reachable (demo Closeable) (demo_sys [] {1})"
proof -
  have "reachable (demo Closeable) (demo_sys [([], Stop)] {1})"
    using reachable.step [OF demo_waking does.wake [where fs = "[]" and gs = "[]", THEN does_step]]
    by (force simp: demo_sys_def split: if_splits)
  from reachable.step [OF this does.finish [where fs = "[]" and gs = "[]", THEN does_step]]
  show ?thesis by (simp add: demo_sys_def)
qed

section \<open>Properties of every interleaving\<close>

text \<open>C1. No undefined behaviour: in every state that any interleaving of the queue's users can reach, a
  poll or a drop of any future, an attempt, a state change, a further round of \<open>check\<close> and a round of
  closing all come to an end by return or unwinding: no loop is left running and none of the code that
  the source marks unreachable, nor a taking of an absent node value, is ever reached.\<close>

theorem no_undefined_behaviour:
  fixes G :: "('m, 'v, 's, 'p, 'a, 'o, 'w) generics"
  assumes "queue_deps G V elems" and "reachable G s"
  shows "(\<forall>n fut w. futs s n = Some fut \<longrightarrow> completes (Some (poll G w fut (sq s)))) \<and>
    (\<forall>n fut. futs s n = Some fut \<and> pl_initialized (pl G) (pins (sq s)) (fut_node fut) \<longrightarrow>
      completes (first_round G (drop_node G (fut_node fut)) (sq s))) \<and>
    (\<forall>p fair. completes (Some (try_acquire G p fair (sq s)))) \<and>
    (\<forall>f :: 's \<Rightarrow> ('s, unit) call. completes (first_round G (update_state f) (sq s))) \<and>
    completes (check G (sq s) (av_new (av G))) \<and>
    (CLOSE (mode G) \<longrightarrow> completes (close_fill G (sq s) (av_new (av G))))"
proof -
  have inv: "queue_inv G V (sq s)"
    using queue_deps.reachable_sys_inv [OF assms] by (simp add: sys_inv_def)
  note safe = queue_deps.poll_safe [OF assms(1) inv] queue_deps.drop_node_safe [OF assms(1) inv]
    queue_deps.try_acquire_safe [OF assms(1) inv]
  have upd: "exec_all (queue_inv G V) (update_state f (sq s)) \<and> update_state f (sq s) \<noteq> Abort"
    for f :: "'s \<Rightarrow> ('s, unit) call"
    using inv by (cases "f (state (sq s))") (simp_all add: update_state_def queue_inv_def)
  note round = queue_deps.first_round_total [OF assms(1)]
  have "completes (first_round G (drop_node G (fut_node fut)) (sq s))"
    if "pl_initialized (pl G) (pins (sq s)) (fut_node fut)" for fut :: "'p acquire_future"
    using round [where f = "drop_node G (fut_node fut)" and q = "sq s"] safe(2) [OF that] by blast
  moreover have "completes (Some (poll G w fut (sq s)))" for w fut
    using safe(1) [of w fut] by (auto simp: completes_def)
  moreover have "completes (Some (try_acquire G p fair (sq s)))" for p fair
    using safe(3) [of p fair] by (auto simp: completes_def)
  moreover have "completes (first_round G (update_state f) (sq s))" for f :: "'s \<Rightarrow> ('s, unit) call"
    using round [where f = "update_state f" and q = "sq s"] upd [of f] by blast
  ultimately show ?thesis
    using queue_deps.check_completes [OF assms(1) inv] queue_deps.close_fill_total [OF assms(1) inv] by simp
qed

theorem no_undefined_behaviour_witness:
  "completes (Some (poll (demo Closeable) 8 \<lparr>fut_node = 1, fut_params = None\<rparr> demo_served)) \<and>
    completes (first_round (demo Closeable) (drop_node (demo Closeable) 1) demo_served)"
proof -
  have sys: "futs (demo_sys [] {1}) 1 = Some \<lparr>fut_node = 1, fut_params = None\<rparr>" "sq (demo_sys [] {1}) = demo_served"
    by (simp_all add: demo_sys_def)
  have "pl_initialized (pl (demo Closeable)) (pins demo_served) 1"
    by (simp add: demo_served_def plain_pin_list_def)
  with no_undefined_behaviour [OF demo_deps demo_notified] sys show ?thesis
    by (metis acquire_future.select_convs(1))
qed

text \<open>C2. No lost wake-up: in every reachable state, a node on the list carries the waker of its future's
  last pending poll; and a node that has left the list, because its permit was granted or the queue
  was closed, belongs to a future whose waker was invoked after that poll, or is about to be invoked
  by an operation in progress. When no operation is in progress, it was invoked.\<close>

theorem no_lost_wakeup:
  assumes "queue_deps G V elems" and "reachable G s"
  shows "(\<forall>n prm w. (n, prm, w) \<in> set (links V (pins (sq s))) \<longrightarrow> waker_of s n = Some w) \<and>
    (\<forall>n r. removed V (pins (sq s)) n = Some r \<longrightarrow>
      n \<in> notified s \<or> (\<exists>w. waker_of s n = Some w \<and> w \<in> pending_wakes (frames s))) \<and>
    (\<forall>n r. removed V (pins (sq s)) n = Some r \<and> frames s = [] \<longrightarrow> n \<in> notified s)"
proof -
  have "sys_inv G V s" by (rule queue_deps.reachable_sys_inv [OF assms])
  then show ?thesis by (auto simp: sys_inv_def)
qed

theorem no_lost_wakeup_witness:
  "lp_taken (pins (sq (demo_sys [] {1}))) 1 = Some (Inr 2) \<and> 1 \<in> notified (demo_sys [] {1})"
proof -
  have "lp_taken (pins (sq (demo_sys [] {1}))) 1 = Some (Inr 2)" "frames (demo_sys [] {1}) = []"
    by (simp_all add: demo_sys_def demo_served_def lp_taken_def)
  with no_lost_wakeup [OF demo_deps demo_notified] show ?thesis by simp
qed

text \<open>C3. No permit stays idle: with a state that keeps the contract of \<open>SemaphoreState\<close>, in every reachable
  state where the queue is open and not poisoned, nobody owes it a follow-up call and no operation is
  in progress, the waiter at the head of the list has its params and is refused by the state as it is
  now. Served waiters are never left behind, also when more than one batch was served.\<close>

theorem work_conservation:
  assumes "queue_deps G V elems" and "lawful_state (sem G)" and "reachable G s"
    and "\<not> poisoned (sq s)" and "\<not> closed (sq s)" and "\<not> owed s" and "frames s = []"
    and "links V (pins (sq s)) = (n, prm, w) # xs"
  shows "\<exists>p. prm = Some p \<and> acquire (sem G) (state (sq s)) p = Returns (state (sq s)) (Inl p)"
proof -
  have "lawful_queue G V elems" using assms(1,2) by (simp add: lawful_queue_def)
  from lawful_queue.reachable_conserving [OF this assms(3)] assms(4-8)
  have "stuck (acquire (sem G)) (state (sq s)) ((n, prm, w) # xs)" by (simp add: conserving_def)
  then show ?thesis by (cases prm) auto
qed

theorem work_conservation_witness:
  "\<exists>p. Some (2 :: 64 word) = Some p \<and> acquire semaphore_counter 0 p = Returns 0 (Inl p)"
  using work_conservation [OF demo_deps _ demo_parked_reachable, of 1 "Some 2" 7 "[]"]
    counter.lawful_state_axioms
  by (simp add: demo_parked_def)

text \<open>C4. Permits are conserved: with a state that measures what it hands out and starts within its capacity, in
  every interleaving of callers that give permits back by dropping them, and only then, what is left in the
  state, what waits in nodes to be claimed, and what callers hold add up to what there was at the
  start; no release overflows, and nothing is ever poisoned. So a semaphore never hands out more
  than it has and never loses a permit, whoever cancels, closes or panics in a waker.\<close>

theorem permits_conserved:
  assumes "queue_deps G V elems" and "budget_state (sem G) units cost cap" and "units s0 \<le> cap"
    and "ledger G units s0 s held"
  shows "units (state (sq s)) + parked cost (removed V (pins (sq s))) + held_cost cost held = units s0 \<and>
    \<not> poisoned (sq s)"
proof -
  have "budget_queue G V elems units cost cap" using assms(1,2) by (simp add: budget_queue_def)
  from budget_queue.ledger_books [OF this assms(3,4)] show ?thesis by (simp add: books_def)
qed

theorem permits_conserved_witness:
  "\<exists>s. ledger (demo Closeable) uint 3 s {#2 :: 64 word#} \<and> state (sq s) = 1 \<and>
    uint (state (sq s)) + parked uint (lp_taken (pins (sq s))) + 2 = 3"
proof -
  let ?s0 = "init_sys (demo Closeable) 3 Fifo :: (demo_list, 64 word, 64 word, fair_order, nat) sys"
  let ?s1 = "?s0\<lparr>sq := (sq ?s0)\<lparr>state := 1\<rparr>\<rparr>"
  have "try_acquire (demo Closeable) 2 True (sq ?s0) = Ret ((sq ?s0)\<lparr>state := 1\<rparr>) (Inr 2)"
    by (simp add: init_sys_def try_acquire_def acquire_or_enqueue_def new_queue_def plain_pin_list_def
        word_le_nat_alt)
  from does.try_return [where s = ?s0, OF this, THEN does_act] have "act (demo Closeable) (Got 2) ?s0 ?s1" by simp
  from ledger_got [OF ledger_start this] have l: "ledger (demo Closeable) uint 3 ?s1 {#2#}" .
  moreover have st: "state (sq ?s1) = 1" by simp
  moreover have "uint (3 :: 64 word) \<le> 2 ^ 64 - 1" by simp
  from permits_conserved [OF demo_deps _ this l, of "uint"] counter.budget_state_axioms
  have "uint (state (sq ?s1)) + parked uint (lp_taken (pins (sq ?s1))) + 2 = 3" by simp
  ultimately show ?thesis by blast
qed

text \<open>C6. First come, first served, or the reverse: in a FIFO queue the waiters are at any time a subsequence
  of all arrivals in order of arrival, in a LIFO queue in the opposite order. So no waiter ever
  changes place with another, whatever is granted, cancelled, attempted or closed in between.\<close>

theorem arrival_order_kept:
  assumes "queue_deps G V elems" and "policy G = fair_enqueue_front" and "history G V ord s arrivals"
  shows "order (sq s) = ord \<and>
    subseq (waiting_ids V (sq s)) (case ord of Fifo \<Rightarrow> arrivals | Lifo \<Rightarrow> rev arrivals)"
proof -
  have "ordered_queue G V elems (\<lambda>ord _. ord = Lifo)"
    using assms(1,2) fair.stateless_policy_axioms by (simp add: ordered_queue_def)
  from ordered_queue.history_lines [OF this refl assms(3)] show ?thesis by (cases ord) simp_all
qed

theorem arrival_order_kept_witness:
  "history (demo Closeable) plain_view Fifo demo_parked [1] \<and> waiting_ids plain_view (sq demo_parked) = [1] \<and>
    subseq (waiting_ids plain_view (sq demo_parked)) [1]"
proof -
  have w: "waiting_ids plain_view (sq demo_empty) = []" "waiting_ids plain_view (sq demo_made) = []"
    "waiting_ids plain_view (sq demo_parked) = [1]"
    by (simp_all add: waiting_ids_def demo_empty_def demo_made_def demo_parked_def init_sys_def new_queue_def
        plain_pin_list_def)
  have "history (demo Closeable) plain_view Fifo demo_empty []"
    unfolding demo_empty_def by (rule hist_start)
  from hist_step [OF hist_step [OF this demo_make] demo_park] w
  have "history (demo Closeable) plain_view Fifo demo_parked [1]" by (simp add: newcomers_def)
  with arrival_order_kept [OF demo_deps _ this] w show ?thesis by simp
qed

text \<open>C7. The queue implements a waiting room: started empty, and in every reachable state, whatever any participant does
  to the queue changes the room exactly as \<open>room_does\<close> says for that action, and gives the answer that the room gives.
  The room is a function of the line, the results, the stock, the flags, the rule and the calls not yet polled: it says who is
  served and in which order, who joins at which end with which params, who leaves, what a poisoned or closed room
  answers, and what a panic leaves. Waking changes nothing in it. And every step of the queue is one of these actions. Cursors,
  nodes, the counter of waiters, batches in flight, interrupted calls and reentrant wakers do not show.\<close>

theorem queue_refines_room:
  assumes "queue_deps G V elems" and "reachable G s"
  shows "(\<forall>d t. does G d s t \<longrightarrow> room_does (sem G) (policy G) d (room_of V s) (room_of V t)) \<and>
    (\<forall>t. sys_step G s t \<longleftrightarrow> (\<exists>d. does G d s t)) \<and>
    room_of V (init_sys G s0 ord) = \<lparr>line = [], ready = Map.empty, stock = s0, shut = False, bad = False,
      rule = ord, wishes = Map.empty\<rparr>"
proof -
  have "links V (pl_new (pl G)) = []" "removed V (pl_new (pl G)) = Map.empty"
    using pin_list_laws.new [OF queue_deps.axioms(1) [OF assms(1)]] by simp_all
  moreover have "sys_step G s t \<longleftrightarrow> (\<exists>d. does G d s t)" for t using sys_step_does does_step by blast
  ultimately show ?thesis
    using queue_deps.does_room [OF assms(1) queue_deps.reachable_sys_inv [OF assms]]
    by (simp add: room_of_def room_with_def wished_def fun_eq_iff init_sys_def new_queue_def)
qed

theorem queue_refines_room_witness:
  "\<lparr>line = [], ready = [1 \<mapsto> Inr 2], stock = 0, shut = False, bad = False, rule = Fifo, wishes = [1 \<mapsto> None]\<rparr> =
    room_change semaphore_counter (\<lambda>s. Returns (s + 2) ())
     (\<lparr>line = [(1, Some 2, 7 :: nat)], ready = Map.empty, stock = 0, shut = False, bad = False, rule = Fifo,
        wishes = [1 \<mapsto> None]\<rparr> :: (64 word, 64 word, 64 word, fair_order, nat) room)"
proof -
  have "room_of plain_view demo_parked = \<lparr>line = [(1, Some 2, 7)], ready = Map.empty, stock = 0, shut = False, bad = False,
      rule = Fifo, wishes = [1 \<mapsto> None]\<rparr>"
    "room_of plain_view (demo_sys [([7], Stop)] {}) = \<lparr>line = [], ready = [1 \<mapsto> Inr 2], stock = 0, shut = False, bad = False,
      rule = Fifo, wishes = [1 \<mapsto> None]\<rparr>"
    by (simp_all add: room_of_def room_with_def wished_def demo_parked_def demo_sys_def demo_served_def demo_queue_def
        lp_taken_def fun_eq_iff)
  moreover have "room_does (sem (demo Closeable)) (policy (demo Closeable)) (Changes (\<lambda>s. Returns (s + 2) ()))
      (room_of plain_view demo_parked) (room_of plain_view (demo_sys [([7], Stop)] {}))"
    using queue_refines_room [OF demo_deps demo_parked_reachable, of 0 Fifo] demo_change by blast
  ultimately show ?thesis by (simp only: room_does.simps demo_simps)
qed

text \<open>C17. Closed for good: from a closed state, whatever steps the users take, the queue stays closed and
  the number of waiters never grows.\<close>

theorem closed_for_good:
  assumes "queue_deps G V elems" and "reachable G s" and "(sys_step G)\<^sup>*\<^sup>* s t" and "closed (sq s)"
  shows "closed (sq t) \<and> length (links V (pins (sq t))) \<le> length (links V (pins (sq s)))"
proof -
  have len: "len (sq u) = length (links V (pins (sq u)))" if "reachable G u" for u
    using queue_deps.reachable_sys_inv [OF assms(1) that] by (simp add: sys_inv_def queue_inv_def)
  from assms(3) have "reachable G t \<and> closed (sq t) \<and> len (sq t) \<le> len (sq s)"
  proof (induction rule: rtranclp_induct)
    case base
    then show ?case using assms(2,4) by simp
  next
    case (step t u)
    with queue_deps.step_stays_closed [OF assms(1) queue_deps.reachable_sys_inv [OF assms(1)], of t u]
    show ?case by (auto simp: stays_closed_def intro: reachable.step)
  qed
  with len [of s] len [of t] assms(2) show ?thesis by simp
qed

theorem closed_for_good_witness:
  "\<exists>t. sys_step (demo Closeable) demo_parked t \<and>
    (\<forall>u. (sys_step (demo Closeable))\<^sup>*\<^sup>* t u \<longrightarrow> closed (sq u) \<and> lp_links (pins (sq u)) = [])"
proof -
  have "queue_inv (demo Closeable) plain_view (demo_queue 0 [(1, Some 2, 7)])"
    by (rule demo_queue_inv) simp
  then have "\<exists>q v. close_fill (demo Closeable) (sq demo_parked) [] = Some (Ret (q, v) ()) \<and>
      closed q \<and> lp_links (pins q) = []"
    by (rule queue_deps.close_fill_result [OF demo_deps]) (auto simp: demo_parked_def batch_cap_def)
  then obtain q v where c: "close_fill (demo Closeable) (sq demo_parked) [] = Some (Ret (q, v) ())"
    and q: "closed q" "lp_links (pins q) = []" by blast
  let ?t = "demo_parked\<lparr>sq := q, frames := (v, if queue q = Open then Reclose else Stop) # frames demo_parked\<rparr>"
  have step: "sys_step (demo Closeable) demo_parked ?t"
    by (rule does_step, rule does.start_close [where x = "Ret (q, v) ()"])
      (use c in \<open>simp_all add: plain_array_vec_def\<close>)
  have t: "reachable (demo Closeable) ?t" by (rule reachable.step [OF demo_parked_reachable step])
  have "closed (sq ?t)" "lp_links (pins (sq ?t)) = []" using q by simp_all
  with closed_for_good [OF demo_deps t] step show ?thesis
    by (metis le_zero_eq length_0_conv list.size(3) plain_view_simps(2))
qed

section \<open>The states of the repository\<close>

text \<open>Releasing undoes acquiring, but where the counter is full and the limit above it: there \<open>acquire\<close> panics.\<close>

lemma aimd_undo: "undoes aimd_state s () \<longleftrightarrow> \<not> (aimd_in_flight s = - 1 \<and> 2 ^ 32 - 1 < aimd_limit s)"
proof -
  have full: "f64_from (- 1) = 2 ^ 32 - 1" by (simp add: f64_from_def uint_max)
  have zero: "x + 1 \<noteq> 0" if "x \<noteq> - 1" for x :: "32 word"
    using that by (metis add_eq_0_iff2)
  have "s\<lparr>aimd_in_flight := aimd_in_flight s\<rparr> = s" by (cases s) simp
  with zero [of "aimd_in_flight s"] show ?thesis
    by (cases "aimd_in_flight s = - 1")
      (auto simp: undoes_def aimd_state_def aimd_acquire_def aimd_release_def full split: if_splits)
qed

text \<open>C38. Releasing what was just acquired always succeeds and restores the state exactly, and \<open>acquire\<close> returns, whatever the
  state and the params: for the counter of the test library and that of the crate documentation, which are equal; the
  unit counter, both movable limits, the limits on two quantities and the requests on two quantities of the
  documentation, the pool, and the two dummies of the tests inside the sources, of which one always and one never
  grants. For the aimd state this holds but where all of \<open>u32\<close> is in flight below the limit, and there \<open>acquire\<close> panics;
  with an upper bound of at most \<open>u32::MAX\<close>, as in the example, that never happens.\<close>

theorem acquire_release_roundtrip:
  "(\<forall>s p. undoes semaphore_counter s p) \<and> doc_semaphore_counter = semaphore_counter \<and>
   (\<forall>s. undoes unit_counter s ()) \<and> (\<forall>s p. undoes utilisation_state s p) \<and>
   (\<forall>s. undoes concurrency_limit_state s ()) \<and> (\<forall>s p. undoes limits_state s p) \<and>
   (\<forall>s p. undoes request_state s p) \<and> (\<forall>s. undoes pool_state s ()) \<and>
   (\<forall>s. undoes dummy_state s ()) \<and> (\<forall>s. \<exists>s'. acquire dummy_state s () = Returns s' (Inr ())) \<and>
   (\<forall>s. undoes never_succeeds s ()) \<and> (\<forall>s. acquire never_succeeds s () = Returns s (Inl ())) \<and>
   (\<forall>s. if aimd_in_flight s = - 1 \<and> 2 ^ 32 - 1 < aimd_limit s then acquire aimd_state s () = Panics s
        else undoes aimd_state s ())"
proof -
  have "f64_from (- 1) = 2 ^ 32 - 1" by (simp add: f64_from_def uint_max)
  then have "acquire aimd_state s () = Panics s" if "aimd_in_flight s = - 1" "2 ^ 32 - 1 < aimd_limit s" for s
    using that by (simp add: aimd_state_def aimd_acquire_def)
  then show ?thesis
    by (simp add: counters_undo limits_undo pool_undo dummies_undo doc_counter_eq request_state_limits aimd_undo)
      (simp add: dummy_state_def never_succeeds_def)
qed

theorem acquire_release_roundtrip_witness:
  "acquire semaphore_counter 5 2 = Returns 3 (Inr 2) \<and> release semaphore_counter 3 2 = Returns 5 () \<and>
    undoes aimd_state aimd_start ()"
proof -
  have a: "acquire semaphore_counter 5 2 = Returns 3 (Inr 2)" by simp
  from acquire_release_roundtrip have u: "undoes semaphore_counter 5 2"
    "if aimd_in_flight aimd_start = - 1 \<and> 2 ^ 32 - 1 < aimd_limit aimd_start then acquire aimd_state aimd_start () = Panics aimd_start
      else undoes aimd_state aimd_start ()" by blast+
  then have "undoes aimd_state aimd_start ()" by (simp add: aimd_start_def split: if_splits)
  with a u(1) show ?thesis by (auto simp: undoes_def)
qed

end
